(* ===== verification/Prelude.thy ===== *)
theory Prelude
  imports
    Main
    "HOL-Library.Word"
    "HOL-Library.Multiset"
    "HOL-Library.Char_ord"
    "HOL-Library.List_Lexorder"
    "HOL-Library.Product_Lexorder"
begin

text \<open>
  Shared vocabulary of the development: the types that name the identifiers of the
  database, hash maps as association lists with the entry operations the Rust code uses,
  and the list lemmas that several components rely on.

  A \<open>HashMap\<close> is an association list with distinct keys.  Its iteration order is the
  order of insertion; where an operation iterates over a map, the component proves that what it
  returns does not depend on that order, or states the result up to it.  The ordered
  \<open>SerdeVecMap\<close> of the source is an insertion-ordered map, so for it the list is exact.
  Strings are byte lists, compared lexicographically as Rust compares \<open>str\<close>.
\<close>

named_theorems map_simps \<open>lookup after an entry operation on an association list\<close>
named_theorems wf_intros \<open>preservation of the well-formedness of a component's state\<close>

type_synonym node_name = string
type_synonym obj_path = string
type_synonym db_id = nat
type_synonym table_id = nat
type_synonym time_ns = int
type_synonym ('k, 'v) hash_map = "('k \<times> 'v) list"

text \<open>The ranges of the machine integers the source uses.\<close>

definition u64_max :: nat where
  "u64_max = 2 ^ 64 - 1"

definition i64_max :: int where
  "i64_max = 2 ^ 63 - 1"

definition i64_min :: int where
  "i64_min = - (2 ^ 63)"

section \<open>Hash maps\<close>

text \<open>\<open>entry(k).and_modify(..).or_insert(..)\<close>: the function sees the present value, if any.\<close>

fun hm_entry :: "'k \<Rightarrow> ('v option \<Rightarrow> 'v) \<Rightarrow> ('k, 'v) hash_map \<Rightarrow> ('k, 'v) hash_map" where
  "hm_entry k g [] = [(k, g None)]"
| "hm_entry k g ((k', v) # m) =
     (if k' = k then (k, g (Some v)) # m else (k', v) # hm_entry k g m)"

definition hm_insert :: "'k \<Rightarrow> 'v \<Rightarrow> ('k, 'v) hash_map \<Rightarrow> ('k, 'v) hash_map" where
  "hm_insert k v m = hm_entry k (\<lambda>_. v) m"

definition hm_remove :: "'k \<Rightarrow> ('k, 'v) hash_map \<Rightarrow> ('k, 'v) hash_map" where
  "hm_remove k m = filter (\<lambda>(k', _). k' \<noteq> k) m"

text \<open>\<open>get\<close>, with the default of \<open>unwrap_or_default\<close> on a missing key.\<close>

definition hm_get :: "'v \<Rightarrow> ('k, 'v) hash_map \<Rightarrow> 'k \<Rightarrow> 'v" where
  "hm_get d m k = (case map_of m k of None \<Rightarrow> d | Some v \<Rightarrow> v)"

text \<open>\<open>entry(k).or_default()\<close> followed by an update of the value it refers to.\<close>

definition hm_upd :: "'v \<Rightarrow> 'k \<Rightarrow> ('v \<Rightarrow> 'v) \<Rightarrow> ('k, 'v) hash_map \<Rightarrow> ('k, 'v) hash_map" where
  "hm_upd d k f m = hm_entry k (\<lambda>o'. f (case o' of None \<Rightarrow> d | Some v \<Rightarrow> v)) m"

abbreviation keys_distinct :: "('k, 'v) hash_map \<Rightarrow> bool" where
  "keys_distinct m \<equiv> distinct (map fst m)"

text \<open>The running maximum that a watermark map keeps per key.\<close>

definition hm_max :: "'k \<Rightarrow> 'v::linorder \<Rightarrow> ('k, 'v) hash_map \<Rightarrow> ('k, 'v) hash_map" where
  "hm_max k x m = hm_entry k (\<lambda>o'. case o' of None \<Rightarrow> x | Some y \<Rightarrow> max y x) m"

lemma map_of_hm_entry [map_simps]:
  "map_of (hm_entry k g m) = (map_of m)(k \<mapsto> g (map_of m k))"
  by (induction m) (auto simp: fun_eq_iff)

lemma keys_hm_entry:
  "map fst (hm_entry k g m) = (if k \<in> fst ` set m then map fst m else map fst m @ [k])"
  by (induction m) (auto simp: image_iff, force+)

lemma keys_distinct_hm_entry [simp]: "keys_distinct (hm_entry k g m) = keys_distinct m"
  by (auto simp: keys_hm_entry)

lemma set_keys_hm_entry [simp]: "fst ` set (hm_entry k g m) = insert k (fst ` set m)"
proof -
  have "set (map fst (hm_entry k g m)) = insert k (set (map fst m))"
    unfolding keys_hm_entry by auto
  then show ?thesis by simp
qed

lemma hm_entry_values:
  "(k', v) \<in> set (hm_entry k g m) \<Longrightarrow>
     (k', v) \<in> set m \<or> (k' = k \<and> v = g (map_of m k))"
  by (induction m) (auto split: if_splits)

lemma map_of_hm_remove [map_simps]: "map_of (hm_remove k m) = (map_of m)(k := None)"
  by (induction m) (auto simp: hm_remove_def fun_eq_iff)

lemma keys_distinct_hm_remove [simp]: "keys_distinct m \<Longrightarrow> keys_distinct (hm_remove k m)"
  by (induction m) (auto simp: hm_remove_def)

lemma hm_get_upd [map_simps]:
  "hm_get d (hm_upd d k f m) k' = (if k' = k then f (hm_get d m k) else hm_get d m k')"
  by (simp add: hm_get_def hm_upd_def map_of_hm_entry)

lemma keys_distinct_hm_upd [simp]: "keys_distinct (hm_upd d k f m) = keys_distinct m"
  by (simp add: hm_upd_def)

lemma keys_distinct_hm_max [simp]: "keys_distinct (hm_max k x m) = keys_distinct m"
  by (simp add: hm_max_def)

lemma keys_distinct_hm_insert [simp]: "keys_distinct (hm_insert k v m) = keys_distinct m"
  by (simp add: hm_insert_def)

lemma map_of_hm_insert [map_simps]: "map_of (hm_insert k v m) = (map_of m)(k \<mapsto> v)"
  by (simp add: hm_insert_def map_of_hm_entry)

lemma map_of_hm_max [map_simps]:
  "map_of (hm_max k x m) =
     (map_of m)(k \<mapsto> (case map_of m k of None \<Rightarrow> x | Some y \<Rightarrow> max y x))"
  by (simp add: hm_max_def map_of_hm_entry)

lemma hm_upd_all:
  assumes "(k', v) \<in> set (hm_upd d k f m)"
    and "\<And>v. (k', v) \<in> set m \<Longrightarrow> P v" and "P d" and "\<And>v. P v \<Longrightarrow> P (f v)"
  shows "P v"
  using hm_entry_values [OF assms(1) [unfolded hm_upd_def]] assms(2-4)
  by (auto split: option.splits dest: map_of_SomeD)

section \<open>Options, maxima and sums\<close>

definition opt_max :: "'a::linorder option \<Rightarrow> 'a option \<Rightarrow> 'a option" where
  "opt_max a b = (case a of None \<Rightarrow> b
     | Some x \<Rightarrow> (case b of None \<Rightarrow> Some x | Some y \<Rightarrow> Some (max x y)))"

text \<open>\<open>iter().max()\<close>: \<open>None\<close> on the empty iterator.\<close>

definition list_max :: "'a::linorder list \<Rightarrow> 'a option" where
  "list_max xs = (case xs of [] \<Rightarrow> None | y # ys \<Rightarrow> Some (foldl max y ys))"

lemma foldl_max_Max: "foldl max y ys = Max (insert (y::'a::linorder) (set ys))"
proof -
  have "(\<lambda>a b. max b a) = (max :: 'a \<Rightarrow> 'a \<Rightarrow> 'a)"
    by (simp add: fun_eq_iff max.commute)
  then show ?thesis using Max.set_eq_fold [of y ys] by (simp add: foldl_conv_fold)
qed

lemma list_max_Some: "list_max xs = Some m \<longleftrightarrow> xs \<noteq> [] \<and> m = Max (set xs)"
  by (cases xs) (auto simp: list_max_def foldl_max_Max)

lemma list_max_None [simp]: "list_max xs = None \<longleftrightarrow> xs = []"
  by (cases xs) (auto simp: list_max_def)

lemma list_max_Nil [simp]: "list_max [] = None"
  by (simp add: list_max_def)

lemma Max_insert_max:
  "finite S \<Longrightarrow> Max (insert (max a b) S) = max (a::'a::linorder) (Max (insert b S))"
  by (cases "S = {}") (auto simp: max.assoc)

lemma list_max_ge: "list_max xs = Some m \<Longrightarrow> x \<in> set xs \<Longrightarrow> x \<le> m"
  by (auto simp: list_max_Some)

lemma list_max_mem: "list_max xs = Some m \<Longrightarrow> m \<in> set xs"
  by (auto simp: list_max_Some)

lemma opt_max_None [simp]: "opt_max a None = a" "opt_max None b = b"
  by (auto simp: opt_max_def split: option.splits)

lemma opt_max_assoc: "opt_max (opt_max a b) c = opt_max a (opt_max b c)"
  by (auto simp: opt_max_def max.assoc split: option.splits)

lemma list_max_Cons: "list_max (x # xs) = opt_max (Some x) (list_max xs)"
  by (cases xs) (auto simp: list_max_def opt_max_def foldl_max_Max max.assoc)

lemma list_max_append: "list_max (xs @ ys) = opt_max (list_max xs) (list_max ys)"
  by (induction xs) (auto simp: list_max_Cons opt_max_assoc)

section \<open>Lists of keyed items\<close>

text \<open>Appending an item unless one with the same key is present, the push that every
  deduplicating \<open>Vec\<close> of the source uses.\<close>

definition push_new :: "('a \<Rightarrow> 'k) \<Rightarrow> 'a \<Rightarrow> 'a list \<Rightarrow> 'a list" where
  "push_new key x xs = (if key x \<in> key ` set xs then xs else xs @ [x])"

lemma push_new_distinct [simp]:
  "distinct (map key (push_new key x xs)) = distinct (map key xs)"
  by (auto simp: push_new_def)

lemma set_push_new_subset: "set (push_new key x xs) \<subseteq> insert x (set xs)"
  by (auto simp: push_new_def)

lemma set_push_new_mono: "set xs \<subseteq> set (push_new key x xs)"
  by (auto simp: push_new_def)

lemma keys_push_new [simp]: "key ` set (push_new key x xs) = insert (key x) (key ` set xs)"
  by (auto simp: push_new_def)

lemma foldl_push_new_distinct:
  "distinct (map key xs) \<Longrightarrow> distinct (map key (foldl (\<lambda>acc x. push_new key x acc) xs ys))"
  by (induction ys arbitrary: xs) auto

lemma foldl_push_new_append:
  assumes "distinct (map key (xs @ ys))"
  shows "foldl (\<lambda>acc x. push_new key x acc) xs ys = xs @ ys"
  using assms
proof (induction ys arbitrary: xs)
  case (Cons y ys)
  have "push_new key y xs = xs @ [y]"
    using Cons.prems by (auto simp: push_new_def)
  with Cons show ?case by simp
qed simp

lemma foldl_push_new_present:
  "key ` set ys \<subseteq> key ` set xs \<Longrightarrow> foldl (\<lambda>acc x. push_new key x acc) xs ys = xs"
  by (induction ys arbitrary: xs) (auto simp: push_new_def)

lemma keys_foldl_push_new:
  "key ` set (foldl (\<lambda>acc x. push_new key x acc) xs ys) = key ` set xs \<union> key ` set ys"
  by (induction ys arbitrary: xs) auto

lemma set_foldl_push_new:
  "set (foldl (\<lambda>acc x. push_new key x acc) xs ys) \<subseteq> set xs \<union> set ys"
proof (induction ys arbitrary: xs)
  case (Cons y ys)
  then show ?case using set_push_new_subset [of key y xs] by fastforce
qed simp

lemma distinct_map_filter_keys: "distinct (map f xs) \<Longrightarrow> distinct (map f (filter P xs))"
  by (induction xs) auto

text \<open>A stable sort is determined by the multiset it sorts when the keys are distinct.\<close>

lemma sort_key_mset_unique:
  assumes "mset xs = mset ys" and "inj_on f (set xs)"
  shows "sort_key f xs = sort_key f ys"
proof (rule properties_for_sort_key)
  show "mset (sort_key f ys) = mset xs" using assms(1) by simp
  have eq: "set xs = set ys" using assms(1) by (metis set_mset_mset)
  fix k assume "k \<in> set (sort_key f ys)"
  then have k: "k \<in> set ys" by simp
  have "filter (\<lambda>x. f k = f x) zs = filter (\<lambda>x. k = x) zs" if "set zs = set ys" for zs
    using assms(2) eq k that by (intro filter_cong) (auto dest: inj_onD)
  moreover have "filter (\<lambda>x. k = x) zs = replicate (count (mset zs) k) k" for zs
    by (induction zs) auto
  ultimately show "filter (\<lambda>x. f k = f x) (sort_key f ys) = filter (\<lambda>x. f k = f x) xs"
    using assms(1) eq by simp
qed simp

section \<open>Per-table lists\<close>

text \<open>Two nested maps, database then table, with a \<open>Vec\<close> of items per table.\<close>

type_synonym 'a table_map = "(db_id, (table_id, 'a list) hash_map) hash_map"

definition tm_get :: "'a table_map \<Rightarrow> db_id \<Rightarrow> table_id \<Rightarrow> 'a list" where
  "tm_get m d t = hm_get [] (hm_get [] m d) t"

definition tm_upd :: "db_id \<Rightarrow> table_id \<Rightarrow> ('a list \<Rightarrow> 'a list) \<Rightarrow> 'a table_map \<Rightarrow> 'a table_map" where
  "tm_upd d t f m = hm_upd [] d (hm_upd [] t f) m"

text \<open>The nested iteration over databases, tables and items.\<close>

definition tm_items :: "'a table_map \<Rightarrow> (db_id \<times> table_id \<times> 'a) list" where
  "tm_items m = concat (map (\<lambda>(d, ts). concat (map (\<lambda>(t, xs). map (\<lambda>x. (d, t, x)) xs) ts)) m)"

definition tm_wf :: "'a table_map \<Rightarrow> bool" where
  "tm_wf m \<longleftrightarrow> keys_distinct m \<and> (\<forall>(d, ts) \<in> set m. keys_distinct ts)"

lemma tm_get_Nil [simp]: "tm_get [] d t = []"
  by (simp add: tm_get_def hm_get_def)

lemma tm_wf_Nil [simp]: "tm_wf []"
  by (simp add: tm_wf_def)

lemma tm_get_upd [map_simps]:
  "tm_get (tm_upd d t f m) d' t' = (if d' = d \<and> t' = t then f (tm_get m d t) else tm_get m d' t')"
  by (simp add: tm_get_def tm_upd_def hm_get_upd)

lemma tm_wf_upd [wf_intros, simp]: "tm_wf m \<Longrightarrow> tm_wf (tm_upd d t f m)"
  unfolding tm_wf_def tm_upd_def
  by (auto elim!: hm_upd_all [where P = keys_distinct])

lemma concat_map_at_key:
  "keys_distinct m \<Longrightarrow>
     concat (map (\<lambda>(k', v). if k' = k then g k' v else []) m) =
       (case map_of m k of None \<Rightarrow> [] | Some v \<Rightarrow> g k v)"
proof (induction m)
  case (Cons kv m)
  obtain k' v where kv: "kv = (k', v)" by fastforce
  show ?case
  proof (cases "k' = k")
    case True
    with Cons.prems kv have "map_of m k = None" by (auto simp: map_of_eq_None_iff)
    with Cons kv True show ?thesis by simp
  next
    case False
    with Cons kv show ?thesis by simp
  qed
qed simp

lemma filter_concat_at_key:
  assumes "keys_distinct m" and "\<And>k' v. k' \<noteq> k \<Longrightarrow> filter P (g k' v) = []"
  shows "filter P (concat (map (\<lambda>(k', v). g k' v) m)) =
    (case map_of m k of None \<Rightarrow> [] | Some v \<Rightarrow> filter P (g k v))"
proof -
  have "filter P (concat (map (\<lambda>(k', v). g k' v) m)) =
      concat (map (\<lambda>(k', v). if k' = k then filter P (g k' v) else []) m)"
    using assms(2) by (auto simp: filter_concat o_def intro!: arg_cong [of _ _ concat])
  then show ?thesis using concat_map_at_key [OF assms(1)] by simp
qed

lemma tm_items_at:
  assumes "tm_wf m"
  shows "filter (\<lambda>(d', t', x). d' = d \<and> t' = t) (tm_items m) = map (\<lambda>x. (d, t, x)) (tm_get m d t)"
proof -
  let ?P = "\<lambda>(d', t', x). d' = d \<and> t' = t"
  have inner: "filter ?P (concat (map (\<lambda>(t', xs). map (\<lambda>x. (d, t', x)) xs) ts)) =
      map (\<lambda>x. (d, t, x)) (hm_get [] ts t)" if "keys_distinct ts" for ts :: "(table_id, 'a list) hash_map"
    using filter_concat_at_key [OF that, of t ?P "\<lambda>t' xs. map (\<lambda>x. (d, t', x)) xs"]
    by (auto simp: hm_get_def filter_map o_def split: option.splits)
  have "filter ?P (tm_items m) = (case map_of m d of None \<Rightarrow> []
      | Some ts \<Rightarrow> filter ?P (concat (map (\<lambda>(t', xs). map (\<lambda>x. (d, t', x)) xs) ts)))"
    unfolding tm_items_def
    by (rule filter_concat_at_key) (use assms in \<open>auto simp: tm_wf_def filter_concat filter_map o_def\<close>)
  then show ?thesis using assms inner
    by (auto simp: tm_get_def hm_get_def tm_wf_def split: option.splits dest!: map_of_SomeD)
qed

lemma tm_items_mem:
  assumes "tm_wf m"
  shows "(d, t, x) \<in> set (tm_items m) \<longleftrightarrow> x \<in> set (tm_get m d t)"
proof -
  have "(d, t, x) \<in> set (tm_items m) \<longleftrightarrow>
      (d, t, x) \<in> set (filter (\<lambda>(d', t', x). d' = d \<and> t' = t) (tm_items m))" by auto
  also have "\<dots> \<longleftrightarrow> x \<in> set (tm_get m d t)" unfolding tm_items_at [OF assms] by auto
  finally show ?thesis .
qed

lemma hm_entry_split:
  assumes "keys_distinct m"
  shows "(\<exists>a b v. m = a @ (k, v) # b \<and> hm_entry k g m = a @ (k, g (Some v)) # b \<and> map_of m k = Some v)
    \<or> (map_of m k = None \<and> hm_entry k g m = m @ [(k, g None)])"
  using assms
proof (induction m)
  case (Cons kv m)
  obtain k' v' where kv: "kv = (k', v')" by fastforce
  show ?case
  proof (cases "k' = k")
    case True
    then show ?thesis unfolding kv
      by (intro disjI1 exI [of _ "[]"] exI [of _ m] exI [of _ v']) simp
  next
    case False
    have "keys_distinct m" using Cons.prems by simp
    from Cons.IH [OF this] show ?thesis
    proof (elim disjE exE conjE)
      fix a b v assume "m = a @ (k, v) # b" "hm_entry k g m = a @ (k, g (Some v)) # b" "map_of m k = Some v"
      then show ?thesis unfolding kv using False
        by (intro disjI1 exI [of _ "(k', v') # a"] exI [of _ b] exI [of _ v]) simp
    qed (use False in \<open>auto simp: kv\<close>)
  qed
qed simp

lemma tm_items_append: "tm_items (a @ b) = tm_items a @ tm_items b"
  by (simp add: tm_items_def)

lemma mset_tm_items_push:
  assumes "tm_wf m"
  shows "mset (tm_items (tm_upd d t (\<lambda>xs. xs @ [x]) m)) = add_mset (d, t, x) (mset (tm_items m))"
proof -
  have ts: "mset (concat (map (\<lambda>(t', xs). map (\<lambda>x. (d, t', x)) xs) (hm_upd [] t (\<lambda>xs. xs @ [x]) ts)))
      = add_mset (d, t, x) (mset (concat (map (\<lambda>(t', xs). map (\<lambda>x. (d, t', x)) xs) ts)))"
    if "keys_distinct ts" for ts :: "(table_id, 'a list) hash_map"
    using hm_entry_split [OF that, of t "\<lambda>o'. (case o' of None \<Rightarrow> [] | Some v \<Rightarrow> v) @ [x]"]
    by (auto simp: hm_upd_def)
  have "keys_distinct m" using assms by (simp add: tm_wf_def)
  from hm_entry_split [OF this, of d "\<lambda>o'. hm_upd [] t (\<lambda>xs. xs @ [x]) (case o' of None \<Rightarrow> [] | Some v \<Rightarrow> v)"]
  show ?thesis
  proof (elim disjE exE conjE)
    fix a b v
    assume m: "m = a @ (d, v) # b" and upd: "hm_entry d (\<lambda>o'. hm_upd [] t (\<lambda>xs. xs @ [x])
        (case o' of None \<Rightarrow> [] | Some v \<Rightarrow> v)) m = a @ (d, hm_upd [] t (\<lambda>xs. xs @ [x]) (case Some v of None \<Rightarrow> [] | Some v \<Rightarrow> v)) # b"
    have "keys_distinct v" using assms m by (auto simp: tm_wf_def)
    from ts [OF this] show ?thesis
      by (simp add: tm_upd_def hm_upd_def [of _ d] upd) (simp add: m tm_items_def)
  next
    assume "hm_entry d (\<lambda>o'. hm_upd [] t (\<lambda>xs. xs @ [x]) (case o' of None \<Rightarrow> [] | Some v \<Rightarrow> v)) m
      = m @ [(d, hm_upd [] t (\<lambda>xs. xs @ [x]) (case None of None \<Rightarrow> [] | Some v \<Rightarrow> v))]"
    then show ?thesis
      by (simp add: tm_upd_def hm_upd_def [of _ d] tm_items_append) (simp add: tm_items_def hm_upd_def)
  qed
qed

text \<open>A condition on every stored \<open>Vec\<close>.\<close>

definition tm_all :: "('a list \<Rightarrow> bool) \<Rightarrow> 'a table_map \<Rightarrow> bool" where
  "tm_all P m \<longleftrightarrow> (\<forall>(d, ts) \<in> set m. \<forall>(t, xs) \<in> set ts. P xs)"

lemma tm_all_Nil [simp]: "tm_all P []"
  by (simp add: tm_all_def)

lemma tm_all_upd:
  assumes "tm_all P m" and "P []" and "\<And>xs. P xs \<Longrightarrow> P (f xs)"
  shows "tm_all P (tm_upd d t f m)"
proof -
  let ?Q = "\<lambda>ts. \<forall>(t, xs) \<in> set ts. P xs"
  have "?Q ts" if "(d', ts) \<in> set (tm_upd d t f m)" for d' ts
  proof (rule hm_upd_all [OF that [unfolded tm_upd_def], where P = ?Q])
    fix ts :: "(table_id, 'a list) hash_map" assume "?Q ts"
    then show "?Q (hm_upd [] t f ts)"
      using assms(2,3) by (auto elim!: hm_upd_all [where P = P])
  qed (use assms(1) in \<open>auto simp: tm_all_def\<close>)
  then show ?thesis unfolding tm_all_def by fast
qed

lemma tm_all_get: "tm_all P m \<Longrightarrow> P [] \<Longrightarrow> P (tm_get m d t)"
  by (auto simp: tm_all_def tm_get_def hm_get_def split: option.splits dest!: map_of_SomeD)

lemma tm_all_mono: "tm_all P m \<Longrightarrow> (\<And>xs. P xs \<Longrightarrow> Q xs) \<Longrightarrow> tm_all Q m"
  unfolding tm_all_def by fast

text \<open>Merging one map into another, entry by entry.\<close>

lemma map_of_foldl_hm_entry:
  "keys_distinct kvs \<Longrightarrow>
     map_of (foldl (\<lambda>m (k, v). hm_entry k (g v) m) m0 kvs) k =
       (case map_of kvs k of None \<Rightarrow> map_of m0 k | Some v \<Rightarrow> Some (g v (map_of m0 k)))"
proof (induction kvs arbitrary: m0)
  case (Cons kv kvs)
  obtain k' v' where kv: "kv = (k', v')" by fastforce
  have "k = k' \<Longrightarrow> map_of kvs k = None"
    using Cons.prems kv by (auto simp: map_of_eq_None_iff)
  with Cons kv show ?case by (auto simp: map_of_hm_entry split: option.splits)
qed simp

lemma keys_distinct_foldl_hm_entry [simp]:
  "keys_distinct (foldl (\<lambda>m (k, v). hm_entry k (g v) m) m0 kvs) = keys_distinct m0"
  by (induction kvs arbitrary: m0) (simp_all add: split_beta)

lemma distinct_concat_keyed:
  assumes "keys_distinct m"
    and "\<And>k v. (k, v) \<in> set m \<Longrightarrow> distinct (map f (g k v))"
    and "\<And>k v k' v'. (k, v) \<in> set m \<Longrightarrow> (k', v') \<in> set m \<Longrightarrow> k \<noteq> k' \<Longrightarrow>
           f ` set (g k v) \<inter> f ` set (g k' v') = {}"
  shows "distinct (map f (concat (map (\<lambda>(k, v). g k v) m)))"
  using assms
proof (induction m)
  case (Cons kv m)
  obtain k v where kv: "kv = (k, v)" by fastforce
  have rest: "distinct (map f (concat (map (\<lambda>(k, v). g k v) m)))"
    using Cons.prems by (intro Cons.IH) auto
  have "f ` set (g k v) \<inter> f ` set (g k' v') = {}" if "(k', v') \<in> set m" for k' v'
    using Cons.prems(1) that kv by (intro Cons.prems(3)) (auto simp: rev_image_eqI)
  then have "f ` set (g k v) \<inter> f ` set (concat (map (\<lambda>(k, v). g k v) m)) = {}" by fastforce
  with rest Cons.prems(2) [of k v] show ?case by (simp add: kv)
qed simp

section \<open>Multisets stored in a map\<close>

text \<open>What a map holds, as the sum of what each of its values holds.\<close>

definition hm_sum :: "('k \<Rightarrow> 'v \<Rightarrow> 'a multiset) \<Rightarrow> ('k, 'v) hash_map \<Rightarrow> 'a multiset" where
  "hm_sum h m = sum_list (map (\<lambda>(k, v). h k v) m)"

lemma hm_sum_simps [simp]:
  "hm_sum h [] = {#}" "hm_sum h ((k, v) # m) = h k v + hm_sum h m"
  "hm_sum h (m @ m') = hm_sum h m + hm_sum h m'"
  by (simp_all add: hm_sum_def)

lemma hm_sum_entry:
  assumes "\<And>v. h k (g (Some v)) = h k v + X" and "h k (g None) = X"
  shows "hm_sum h (hm_entry k g m) = hm_sum h m + X"
  using assms by (induction m) (auto simp: ac_simps)

lemma hm_sum_upd:
  assumes "\<And>v. h k (f v) = h k v + X" and "h k d = {#}"
  shows "hm_sum h (hm_upd d k f m) = hm_sum h m + X"
  unfolding hm_upd_def by (rule hm_sum_entry) (simp_all add: assms)

lemma in_hm_sum: "x \<in># hm_sum h m \<longleftrightarrow> (\<exists>(k, v) \<in> set m. x \<in># h k v)"
  by (induction m) auto

lemma hm_sum_cong:
  "(\<And>k v. (k, v) \<in> set m \<Longrightarrow> h k v = h' k v) \<Longrightarrow> hm_sum h m = hm_sum h' m"
  by (induction m) auto

section \<open>Folds over the entries of a map\<close>

text \<open>A loop over the entries of a map that touches only the slot of the entry's key.\<close>

lemma foldl_keyed:
  assumes "keys_distinct kvs"
    and "\<And>acc k v k'. (k, v) \<in> set kvs \<Longrightarrow>
      get (step acc (k, v)) k' = (if k' = k then h k (get acc k) v else get acc k')"
  shows "get (foldl step acc kvs) k =
    (case map_of kvs k of None \<Rightarrow> get acc k | Some v \<Rightarrow> h k (get acc k) v)"
  using assms
proof (induction kvs arbitrary: acc)
  case (Cons kv kvs)
  obtain k' v where kv: "kv = (k', v)" by fastforce
  have none: "k' = k \<Longrightarrow> map_of kvs k = None" using Cons.prems(1) kv by (auto simp: map_of_eq_None_iff)
  have IH: "get (foldl step (step acc kv) kvs) k =
      (case map_of kvs k of None \<Rightarrow> get (step acc kv) k | Some v \<Rightarrow> h k (get (step acc kv) k) v)"
    using Cons by simp
  have "get (step acc kv) k = (if k = k' then h k' (get acc k') v else get acc k)"
    using Cons.prems(2) [of k' v acc k] kv by simp
  then show ?case using IH none kv by (auto split: option.splits)
qed simp

lemma distinct_submset:
  assumes "distinct xs" and "mset ys \<subseteq># mset xs"
  shows "distinct ys"
proof -
  have "count (mset ys) a \<le> count (mset xs) a" for a using assms(2) by (rule mset_subset_eq_count)
  moreover have "count (mset xs) a \<le> 1" for a using assms(1) by (simp add: distinct_count_atmost_1)
  moreover have "a \<in> set ys \<Longrightarrow> 0 < count (mset ys) a" for a by (simp add: count_mset_gt_0)
  ultimately show ?thesis unfolding distinct_count_atmost_1
    by (metis (no_types) One_nat_def Suc_leI count_eq_zero_iff le_antisym le_trans not_gr_zero set_mset_mset)
qed

section \<open>Removal by position\<close>

fun position :: "('a \<Rightarrow> bool) \<Rightarrow> 'a list \<Rightarrow> nat option" where
  "position P [] = None"
| "position P (x # xs) = (if P x then Some 0 else map_option Suc (position P xs))"

text \<open>\<open>Vec::swap_remove\<close> moves the last element into the gap, \<open>Vec::remove\<close> shifts.\<close>

definition swap_remove :: "nat \<Rightarrow> 'a list \<Rightarrow> 'a list" where
  "swap_remove i xs = (if Suc i = length xs then butlast xs else (butlast xs)[i := last xs])"

definition remove_at :: "nat \<Rightarrow> 'a list \<Rightarrow> 'a list" where
  "remove_at i xs = take i xs @ drop (Suc i) xs"

lemma position_Some:
  "position P xs = Some i \<Longrightarrow> i < length xs \<and> P (xs ! i) \<and> (\<forall>j<i. \<not> P (xs ! j))"
proof (induction xs arbitrary: i)
  case (Cons x xs)
  then show ?case by (auto split: if_splits simp: less_Suc_eq_0_disj)
qed simp

lemma position_None: "position P xs = None \<longleftrightarrow> (\<forall>x \<in> set xs. \<not> P x)"
  by (induction xs) auto

lemma mset_swap_remove:
  assumes "i < length xs"
  shows "mset (swap_remove i xs) = mset xs - {#xs ! i#}"
proof -
  obtain ys y where xs: "xs = ys @ [y]" using assms by (metis list.size(3) not_less_zero rev_exhaust)
  show ?thesis
  proof (cases "i = length ys")
    case False
    then have "i < length ys" using assms xs by simp
    then show ?thesis using xs False
      by (simp add: swap_remove_def mset_update nth_append multiset_eq_iff)
  qed (simp add: swap_remove_def xs)
qed

lemma mset_remove_at:
  assumes "i < length xs"
  shows "mset (remove_at i xs) = mset xs - {#xs ! i#}"
proof -
  have "mset xs = mset (take i xs @ xs ! i # drop (Suc i) xs)" using id_take_nth_drop [OF assms] by simp
  then show ?thesis by (simp add: remove_at_def)
qed

text \<open>Where a key occurs at most once, removing its element is a filter.\<close>

lemma filter_key_removed:
  assumes "distinct (map key xs)" and "i < length xs" and "key (xs ! i) = k"
  shows "mset xs - {#xs ! i#} = filter_mset (\<lambda>x. key x \<noteq> k) (mset xs)"
proof -
  have xs: "xs = take i xs @ xs ! i # drop (Suc i) xs" using id_take_nth_drop [OF assms(2)] .
  have d: "distinct (map key (take i xs @ xs ! i # drop (Suc i) xs))" using assms(1) xs by simp
  have "key x \<noteq> k" if "x \<in> set (take i xs) \<union> set (drop (Suc i) xs)" for x
    using d assms(3) imageI [of x _ key] that by fastforce
  then have "filter (\<lambda>x. key x \<noteq> k) (take i xs @ xs ! i # drop (Suc i) xs) = take i xs @ drop (Suc i) xs"
    using assms(3) by (auto intro!: arg_cong2 [where f = append] filter_True)
  then have "filter_mset (\<lambda>x. key x \<noteq> k) (mset (take i xs @ xs ! i # drop (Suc i) xs)) =
      mset (take i xs @ drop (Suc i) xs)"
    by (metis mset_filter)
  moreover have "mset (take i xs @ xs ! i # drop (Suc i) xs) - {#xs ! i#} = mset (take i xs @ drop (Suc i) xs)"
    by simp
  ultimately show ?thesis using xs by metis
qed

section \<open>Signed machine arithmetic\<close>

text \<open>Rust's remainder and division of signed integers truncate toward zero.\<close>

definition rem_i64 :: "int \<Rightarrow> int \<Rightarrow> int" where
  "rem_i64 a b = (if a \<ge> 0 then a mod \<bar>b\<bar> else - (- a mod \<bar>b\<bar>))"

definition div_i64 :: "int \<Rightarrow> int \<Rightarrow> int" where
  "div_i64 a b = sgn a * sgn b * (\<bar>a\<bar> div \<bar>b\<bar>)"

definition in_i64 :: "int \<Rightarrow> bool" where
  "in_i64 t \<longleftrightarrow> i64_min \<le> t \<and> t \<le> i64_max"

lemma rem_i64_bounds:
  assumes "d > 0"
  shows "\<bar>rem_i64 t d\<bar> < d" "t \<ge> 0 \<Longrightarrow> rem_i64 t d \<ge> 0" "t \<le> 0 \<Longrightarrow> rem_i64 t d \<le> 0"
    "\<bar>rem_i64 t d\<bar> \<le> \<bar>t\<bar>"
  using assms pos_mod_bound [of d t] pos_mod_bound [of d "- t"] zmod_le_nonneg_dividend [of t d]
    zmod_le_nonneg_dividend [of "- t" d]
  by (auto simp: rem_i64_def)

lemma rem_i64_dvd: "d dvd t - rem_i64 t d"
proof (cases "t \<ge> 0")
  case True
  have "\<bar>d\<bar> dvd t - t mod \<bar>d\<bar>" by (rule dvd_minus_mod)
  then have "d dvd t - t mod \<bar>d\<bar>" by (simp only: abs_dvd_iff)
  with True show ?thesis by (simp add: rem_i64_def)
next
  case False
  have "\<bar>d\<bar> dvd - t - (- t mod \<bar>d\<bar>)" by (rule dvd_minus_mod)
  then have "d dvd - (- t - (- t mod \<bar>d\<bar>))" by (simp only: dvd_minus_iff abs_dvd_iff)
  with False show ?thesis by (simp add: rem_i64_def algebra_simps)
qed

end
