(* ===== verification/Snapshot_Types.thy ===== *)
theory Snapshot_Types
  imports Prelude
begin

text \<open>
  The data the write path hands to the rest of the system (\<open>influxdb3_write/src/lib.rs\<close>,
  \<open>influxdb3_id/src/lib.rs\<close>): parquet file records, the process-wide allocator of file
  identifiers, the per-snapshot manifest \<open>PersistedSnapshot\<close> and the time bounds of a
  \<open>ChunkFilter\<close>.  The lemmas relate a manifest's totals to the files it lists.
\<close>

section \<open>Parquet files and their identifiers\<close>

record parquet_file =
  pf_id :: nat
  pf_path :: obj_path
  pf_size_bytes :: nat
  pf_row_count :: nat
  pf_chunk_time :: time_ns
  pf_min_time :: time_ns
  pf_max_time :: time_ns

text \<open>The global \<open>NEXT_FILE_ID\<close> is the state; allocation panics when the counter is full.\<close>

definition ParquetFileId_new :: "nat \<Rightarrow> (nat \<times> nat) option" where
  "ParquetFileId_new next_file_id =
     (if next_file_id < u64_max then Some (next_file_id, next_file_id + 1) else None)"

definition ParquetFileId_next_id :: "nat \<Rightarrow> nat" where
  "ParquetFileId_next_id next_file_id = next_file_id"

definition ParquetFileId_set_next_id :: "nat \<Rightarrow> nat \<Rightarrow> nat" where
  "ParquetFileId_set_next_id self_id next_file_id = self_id"

section \<open>Snapshot manifests\<close>

type_synonym database_tables = "(table_id, parquet_file list) hash_map"

record persisted_snapshot =
  ps_node_id :: node_name
  ps_next_file_id :: nat
  ps_snapshot_sequence_number :: nat
  ps_wal_file_sequence_number :: nat
  ps_catalog_sequence_number :: nat
  ps_parquet_size_bytes :: nat
  ps_row_count :: nat
  ps_min_time :: time_ns
  ps_max_time :: time_ns
  ps_databases :: "(db_id, database_tables) hash_map"
  ps_removed_files :: "(db_id, database_tables) hash_map"
  ps_persisted_at :: "int option"

definition PersistedSnapshot_new ::
  "nat \<Rightarrow> node_name \<Rightarrow> nat \<Rightarrow> nat \<Rightarrow> nat \<Rightarrow> persisted_snapshot" where
  "PersistedSnapshot_new next_file_id node_id snap_seq wal_seq catalog_seq =
     \<lparr>ps_node_id = node_id,
      ps_next_file_id = ParquetFileId_next_id next_file_id,
      ps_snapshot_sequence_number = snap_seq,
      ps_wal_file_sequence_number = wal_seq,
      ps_catalog_sequence_number = catalog_seq,
      ps_parquet_size_bytes = 0,
      ps_row_count = 0,
      ps_min_time = i64_max,
      ps_max_time = i64_min,
      ps_databases = [],
      ps_removed_files = [],
      ps_persisted_at = None\<rparr>"

definition add_parquet_file ::
  "nat \<Rightarrow> db_id \<Rightarrow> table_id \<Rightarrow> parquet_file \<Rightarrow> persisted_snapshot \<Rightarrow> persisted_snapshot" where
  "add_parquet_file next_file_id d t f s =
     s\<lparr>ps_next_file_id := ParquetFileId_next_id next_file_id,
       ps_parquet_size_bytes := ps_parquet_size_bytes s + pf_size_bytes f,
       ps_row_count := ps_row_count s + pf_row_count f,
       ps_min_time := min (ps_min_time s) (pf_min_time f),
       ps_max_time := max (ps_max_time s) (pf_max_time f),
       ps_databases := tm_upd d t (\<lambda>fs. fs @ [f]) (ps_databases s)\<rparr>"

text \<open>The three counting loops share one shape, over a \<open>databases\<close> collection.\<close>

definition db_counts :: "parquet_file table_map \<Rightarrow> nat \<times> nat \<times> nat" where
  "db_counts m =
     foldl (\<lambda>(dbs, tbls, files) (d, ts).
              (dbs + 1, tbls + length ts, files + foldl (\<lambda>acc (t, fs). acc + length fs) 0 ts))
           (0, 0, 0) m"

definition db_table_and_file_count :: "persisted_snapshot \<Rightarrow> nat \<times> nat \<times> nat" where
  "db_table_and_file_count s = db_counts (ps_databases s)"

definition removed_db_table_and_file_count :: "persisted_snapshot \<Rightarrow> nat \<times> nat \<times> nat" where
  "removed_db_table_and_file_count s = db_counts (ps_removed_files s)"

definition overall_db_table_file_counts :: "persisted_snapshot list \<Rightarrow> nat \<times> nat \<times> nat" where
  "overall_db_table_file_counts snaps =
     foldl (\<lambda>(a, b, c) s. case db_table_and_file_count s of (x, y, z) \<Rightarrow> (a + x, b + y, c + z))
           (0, 0, 0) snaps"

definition largest_table_by_file_count ::
  "persisted_snapshot \<Rightarrow> (db_id \<times> table_id \<times> nat) option" where
  "largest_table_by_file_count s =
     foldl (\<lambda>worst (d, ts).
        foldl (\<lambda>worst (t, fs).
           (case worst of
              None \<Rightarrow> Some (d, t, length fs)
            | Some (_, _, wc) \<Rightarrow> if length fs > wc then Some (d, t, length fs) else worst))
          worst ts)
       None (ps_databases s @ ps_removed_files s)"

definition distinct_chunk_time_count :: "persisted_snapshot \<Rightarrow> nat" where
  "distinct_chunk_time_count s =
     length (foldl (\<lambda>times (d, t, f). List.insert (pf_chunk_time f) times) [] (tm_items (ps_databases s)))"

section \<open>Chunk filters\<close>

text \<open>The filter expressions themselves are analysed by the query planner; the bounds it
  derives are what the storage code tests files against.\<close>

record chunk_filter =
  time_lower_bound_ns :: "time_ns option"
  time_upper_bound_ns :: "time_ns option"

definition test_time_stamp_min_max :: "chunk_filter \<Rightarrow> time_ns \<Rightarrow> time_ns \<Rightarrow> bool" where
  "test_time_stamp_min_max flt mn mx =
     (case (time_lower_bound_ns flt, time_upper_bound_ns flt) of
        (None, None) \<Rightarrow> True
      | (None, Some u) \<Rightarrow> mn \<le> u
      | (Some l, None) \<Rightarrow> mx \<ge> l
      | (Some l, Some u) \<Rightarrow> mn \<le> u \<and> mx \<ge> l)"

text \<open>The instants a filter selects, the meaning its two bounds stand for.\<close>

definition filter_selects :: "chunk_filter \<Rightarrow> time_ns \<Rightarrow> bool" where
  "filter_selects flt x \<longleftrightarrow>
     (\<forall>l. time_lower_bound_ns flt = Some l \<longrightarrow> l \<le> x) \<and>
     (\<forall>u. time_upper_bound_ns flt = Some u \<longrightarrow> x \<le> u)"

lemma filter_never_drops_match:
  assumes "filter_selects flt x" and "mn \<le> x" and "x \<le> mx"
  shows "test_time_stamp_min_max flt mn mx"
  using assms by (auto simp: test_time_stamp_min_max_def filter_selects_def split: option.splits)

section \<open>Totals of a manifest\<close>

text \<open>A manifest's totals agree with the files it lists; times are the extrema over them.\<close>

definition manifest_files :: "persisted_snapshot \<Rightarrow> parquet_file list" where
  "manifest_files s = map (snd \<circ> snd) (tm_items (ps_databases s))"

definition manifest_ok :: "persisted_snapshot \<Rightarrow> bool" where
  "manifest_ok s \<longleftrightarrow>
     tm_wf (ps_databases s) \<and>
     ps_parquet_size_bytes s = sum_list (map pf_size_bytes (manifest_files s)) \<and>
     ps_row_count s = sum_list (map pf_row_count (manifest_files s)) \<and>
     ps_min_time s = Min (insert i64_max (set (map pf_min_time (manifest_files s)))) \<and>
     ps_max_time s = Max (insert i64_min (set (map pf_max_time (manifest_files s))))"

lemma manifest_ok_new [wf_intros]: "manifest_ok (PersistedSnapshot_new n node s w c)"
  by (simp add: manifest_ok_def PersistedSnapshot_new_def manifest_files_def tm_items_def)

lemma manifest_ok_add [wf_intros]:
  assumes "manifest_ok s"
  shows "manifest_ok (add_parquet_file n d t f s)"
proof -
  let ?s = "add_parquet_file n d t f s"
  have wf: "tm_wf (ps_databases s)" using assms by (simp add: manifest_ok_def)
  have fs: "mset (manifest_files ?s) = add_mset f (mset (manifest_files s))"
    unfolding manifest_files_def mset_map add_parquet_file_def
    by (simp add: mset_tm_items_push [OF wf])
  have sums: "sum_list (map g (manifest_files ?s)) = g f + sum_list (map g (manifest_files s))"
    for g :: "parquet_file \<Rightarrow> nat"
    using fs by (metis image_mset_add_mset mset_map sum_mset.add_mset sum_mset_sum_list)
  have set: "set (manifest_files ?s) = insert f (set (manifest_files s))"
    using fs by (metis set_mset_add_mset_insert set_mset_mset)
  show ?thesis
    using assms unfolding manifest_ok_def sums set_map set
    by (simp add: add_parquet_file_def wf insert_commute [of _ "pf_min_time f"]
        insert_commute [of _ "pf_max_time f"] min.commute max.commute)
qed

end
