(* ===== verification/File_Index.thy ===== *)
theory File_Index
  imports Snapshot_Types
begin

text \<open>
  The in-memory projection of the cluster's shared file log
  (\<open>influxdb3_cluster/src/file_index.rs\<close>): every node's parquet files per table, each with the
  log position that introduced it, the per-node publish watermarks and time watermarks, and the
  rollup snapshot that stands for a prefix of the log.

  The state is the record \<open>file_index\<close>, the code's \<open>Inner\<close>; the lock around it
  makes every operation atomic, so each operation is one function on that record.  The abstract
  view forgets the nesting of the hash maps; the operations refine their specification on views.
\<close>

section \<open>State and operations\<close>

record file_index_delta =
  fd_node_id :: node_name
  fd_db_id :: db_id
  fd_table_id :: table_id
  fd_snapshot_sequence :: nat
  fd_added :: "parquet_file list"
  fd_removed :: "obj_path list"

record file_index_log_entry =
  le_sequence :: nat
  le_deltas :: "file_index_delta list"

record indexed_file =
  if_file :: parquet_file
  added_at :: nat

record file_index =
  fi_nodes :: "(node_name, indexed_file table_map) hash_map"
  fi_sequence :: nat
  fi_watermarks :: "(node_name, nat) hash_map"
  fi_persisted_max_times :: "(node_name, time_ns) hash_map"

record snapshot_entry =
  se_node_id :: node_name
  se_db_id :: db_id
  se_table_id :: table_id
  se_file :: parquet_file
  se_added_at :: nat

record file_index_snapshot =
  sn_sequence :: nat
  sn_files :: "snapshot_entry list"
  sn_watermarks :: "(node_name \<times> nat) list"
  sn_persisted_max_times :: "(node_name \<times> time_ns) list"

definition FileIndex_new :: file_index where
  "FileIndex_new = \<lparr>fi_nodes = [], fi_sequence = 0, fi_watermarks = [], fi_persisted_max_times = []\<rparr>"

definition seq_next :: "nat \<Rightarrow> nat" where
  "seq_next s = s + 1"

abbreviation indexed_path :: "indexed_file \<Rightarrow> obj_path" where
  "indexed_path i \<equiv> pf_path (if_file i)"

text \<open>The three chained \<open>entry(..).or_default()\<close> calls, then an update of the table's list.\<close>

definition upd_table ::
  "node_name \<Rightarrow> db_id \<Rightarrow> table_id \<Rightarrow> (indexed_file list \<Rightarrow> indexed_file list) \<Rightarrow>
   file_index \<Rightarrow> file_index" where
  "upd_table n d t f i = i\<lparr>fi_nodes := hm_upd [] n (tm_upd d t f) (fi_nodes i)\<rparr>"

definition apply_delta_files :: "nat \<Rightarrow> file_index_delta \<Rightarrow> indexed_file list \<Rightarrow> indexed_file list" where
  "apply_delta_files s delta table =
     foldl (\<lambda>tbl file. push_new indexed_path \<lparr>if_file = file, added_at = s\<rparr> tbl)
       (if fd_removed delta \<noteq> []
        then filter (\<lambda>i. indexed_path i \<notin> set (fd_removed delta)) table else table)
       (fd_added delta)"

definition apply_delta :: "nat \<Rightarrow> file_index_delta \<Rightarrow> file_index \<Rightarrow> file_index" where
  "apply_delta s delta i =
     (let n = fd_node_id delta;
          i1 = upd_table n (fd_db_id delta) (fd_table_id delta) (apply_delta_files s delta) i;
          i2 = i1\<lparr>fi_watermarks := hm_upd 0 n (\<lambda>w. max w (fd_snapshot_sequence delta)) (fi_watermarks i1)\<rparr>
      in case list_max (map pf_max_time (fd_added delta)) of
           None \<Rightarrow> i2
         | Some highest \<Rightarrow>
             i2\<lparr>fi_persisted_max_times := hm_max n highest (fi_persisted_max_times i2)\<rparr>)"

definition apply_entry :: "file_index_log_entry \<Rightarrow> file_index \<Rightarrow> file_index" where
  "apply_entry entry i =
     (if le_sequence entry \<le> fi_sequence i then i
      else (foldl (\<lambda>i delta. apply_delta (le_sequence entry) delta i) i (le_deltas entry))
             \<lparr>fi_sequence := le_sequence entry\<rparr>)"

definition persisted_max_time :: "file_index \<Rightarrow> node_name \<Rightarrow> time_ns option" where
  "persisted_max_time i n = map_of (fi_persisted_max_times i) n"

definition published_watermark :: "file_index \<Rightarrow> node_name \<Rightarrow> nat option" where
  "published_watermark i n = map_of (fi_watermarks i) n"

definition get_files_filtered ::
  "file_index \<Rightarrow> db_id \<Rightarrow> table_id \<Rightarrow> chunk_filter \<Rightarrow> node_name option \<Rightarrow> parquet_file list" where
  "get_files_filtered i d t flt exclude_node =
     map if_file
       (sort_key (\<lambda>x. (added_at x, indexed_path x))
         (filter (\<lambda>x. test_time_stamp_min_max flt (pf_min_time (if_file x)) (pf_max_time (if_file x)))
           (concat (map (\<lambda>(n, dbs). tm_get dbs d t)
             (filter (\<lambda>(n, dbs). exclude_node \<noteq> Some n) (fi_nodes i))))))"

definition tables_for_node :: "file_index \<Rightarrow> node_name \<Rightarrow> (db_id \<times> table_id) list" where
  "tables_for_node i n =
     (case map_of (fi_nodes i) n of
        None \<Rightarrow> []
      | Some dbs \<Rightarrow> concat (map (\<lambda>(d, ts). map (\<lambda>(t, fs). (d, t)) ts) dbs))"

definition table_entries :: "file_index \<Rightarrow> node_name \<Rightarrow> db_id \<Rightarrow> table_id \<Rightarrow> indexed_file list" where
  "table_entries i n d t = tm_get (hm_get [] (fi_nodes i) n) d t"

definition files_for_table :: "file_index \<Rightarrow> node_name \<Rightarrow> db_id \<Rightarrow> table_id \<Rightarrow> parquet_file list" where
  "files_for_table i n d t = map if_file (table_entries i n d t)"

definition file_count :: "file_index \<Rightarrow> nat" where
  "file_count i =
     sum_list (concat (map (\<lambda>(n, dbs). concat (map (\<lambda>(d, ts). map (\<lambda>(t, fs). length fs) ts) dbs))
       (fi_nodes i)))"

definition max_file_id :: "file_index \<Rightarrow> node_name \<Rightarrow> db_id \<Rightarrow> table_id \<Rightarrow> nat option" where
  "max_file_id i n d t = list_max (map (\<lambda>x. pf_id (if_file x)) (table_entries i n d t))"

definition to_snapshot :: "file_index \<Rightarrow> file_index_snapshot" where
  "to_snapshot i =
     \<lparr>sn_sequence = fi_sequence i,
      sn_files = concat (map (\<lambda>(n, dbs). map (\<lambda>(d, t, x).
          \<lparr>se_node_id = n, se_db_id = d, se_table_id = t, se_file = if_file x, se_added_at = added_at x\<rparr>)
          (tm_items dbs)) (fi_nodes i)),
      sn_watermarks = fi_watermarks i,
      sn_persisted_max_times = fi_persisted_max_times i\<rparr>"

definition restore_entry :: "snapshot_entry \<Rightarrow> file_index \<Rightarrow> file_index" where
  "restore_entry e i =
     upd_table (se_node_id e) (se_db_id e) (se_table_id e)
       (push_new indexed_path \<lparr>if_file = se_file e, added_at = se_added_at e\<rparr>) i"

definition restore :: "file_index_snapshot \<Rightarrow> file_index \<Rightarrow> file_index" where
  "restore sn i =
     (let i1 = foldl (\<lambda>i e. restore_entry e i) i (sn_files sn);
          i2 = i1\<lparr>fi_watermarks :=
                 foldl (\<lambda>m (n, s). hm_upd 0 n (\<lambda>w. max w s) m) (fi_watermarks i1) (sn_watermarks sn)\<rparr>;
          i3 = i2\<lparr>fi_persisted_max_times :=
                 foldl (\<lambda>m (n, x). hm_max n x m) (fi_persisted_max_times i2) (sn_persisted_max_times sn)\<rparr>
      in i3\<lparr>fi_sequence := max (fi_sequence i3) (sn_sequence sn)\<rparr>)"

definition merge_from :: "file_index \<Rightarrow> file_index \<Rightarrow> file_index" where
  "merge_from other i = restore (to_snapshot other) i"

definition reset_from :: "file_index_snapshot \<Rightarrow> file_index \<Rightarrow> file_index" where
  "reset_from sn i =
     restore sn (i\<lparr>fi_nodes := [], fi_watermarks := [], fi_persisted_max_times := [], fi_sequence := 0\<rparr>)"

text \<open>Replaying a list of log objects in order.\<close>

definition replay :: "file_index_log_entry list \<Rightarrow> file_index \<Rightarrow> file_index" where
  "replay es i = foldl (\<lambda>i e. apply_entry e i) i es"

section \<open>The abstract view\<close>

text \<open>What an index means to its readers: the files of each table in stored order, the position
  and the two watermarks, without the shape of the maps.\<close>

record index_view =
  iv_files :: "node_name \<Rightarrow> db_id \<Rightarrow> table_id \<Rightarrow> indexed_file list"
  iv_sequence :: nat
  iv_watermarks :: "node_name \<rightharpoonup> nat"
  iv_max_times :: "node_name \<rightharpoonup> time_ns"

definition view :: "file_index \<Rightarrow> index_view" where
  "view i = \<lparr>iv_files = table_entries i, iv_sequence = fi_sequence i,
             iv_watermarks = map_of (fi_watermarks i),
             iv_max_times = map_of (fi_persisted_max_times i)\<rparr>"

definition delta_at :: "node_name \<Rightarrow> db_id \<Rightarrow> table_id \<Rightarrow> file_index_delta \<Rightarrow> bool" where
  "delta_at n d t delta \<longleftrightarrow>
     fd_node_id delta = n \<and> fd_db_id delta = d \<and> fd_table_id delta = t"

definition spec_delta :: "nat \<Rightarrow> file_index_delta \<Rightarrow> index_view \<Rightarrow> index_view" where
  "spec_delta s delta v =
     \<lparr>iv_files = (\<lambda>n d t. if delta_at n d t delta then apply_delta_files s delta (iv_files v n d t)
                          else iv_files v n d t),
      iv_sequence = iv_sequence v,
      iv_watermarks = (iv_watermarks v)(fd_node_id delta \<mapsto>
        (case iv_watermarks v (fd_node_id delta) of None \<Rightarrow> fd_snapshot_sequence delta
         | Some w \<Rightarrow> max w (fd_snapshot_sequence delta))),
      iv_max_times = (iv_max_times v)(fd_node_id delta :=
        opt_max (iv_max_times v (fd_node_id delta)) (list_max (map pf_max_time (fd_added delta))))\<rparr>"

definition spec_entry :: "file_index_log_entry \<Rightarrow> index_view \<Rightarrow> index_view" where
  "spec_entry e v =
     (if le_sequence e \<le> iv_sequence v then v
      else (foldl (\<lambda>v delta. spec_delta (le_sequence e) delta v) v (le_deltas e))
             \<lparr>iv_sequence := le_sequence e\<rparr>)"

text \<open>The deltas of a list of log objects, each with the position of its object.\<close>

definition log_deltas :: "file_index_log_entry list \<Rightarrow> (nat \<times> file_index_delta) list" where
  "log_deltas es = concat (map (\<lambda>e. map (Pair (le_sequence e)) (le_deltas e)) es)"

text \<open>A log is read in ascending positions above the reader's own.\<close>

definition log_above :: "nat \<Rightarrow> file_index_log_entry list \<Rightarrow> bool" where
  "log_above s es \<longleftrightarrow> sorted_wrt (<) (s # map le_sequence es)"

text \<open>A path is live in a table when some delta adds it and no later delta removes it.\<close>

definition live_path ::
  "(nat \<times> file_index_delta) list \<Rightarrow> node_name \<Rightarrow> db_id \<Rightarrow> table_id \<Rightarrow> obj_path \<Rightarrow> bool" where
  "live_path ds n d t p \<longleftrightarrow>
     (\<exists>before x after. ds = before @ x # after \<and> delta_at n d t (snd x) \<and>
        p \<in> pf_path ` set (fd_added (snd x)) \<and>
        (\<forall>y \<in> set after. delta_at n d t (snd y) \<longrightarrow> p \<notin> set (fd_removed (snd y))))"

definition fold_table ::
  "node_name \<Rightarrow> db_id \<Rightarrow> table_id \<Rightarrow> (nat \<times> file_index_delta) list \<Rightarrow> indexed_file list \<Rightarrow>
   indexed_file list" where
  "fold_table n d t ds fs =
     foldl (\<lambda>fs (s, delta). if delta_at n d t delta then apply_delta_files s delta fs else fs) fs ds"

section \<open>Predicates on rollups and logs\<close>

definition entry_at :: "node_name \<Rightarrow> db_id \<Rightarrow> table_id \<Rightarrow> snapshot_entry \<Rightarrow> bool" where
  "entry_at n d t e \<longleftrightarrow> se_node_id e = n \<and> se_db_id e = d \<and> se_table_id e = t"

definition entry_indexed :: "snapshot_entry \<Rightarrow> indexed_file" where
  "entry_indexed e = \<lparr>if_file = se_file e, added_at = se_added_at e\<rparr>"

definition snapshot_ok :: "file_index_snapshot \<Rightarrow> bool" where
  "snapshot_ok sn \<longleftrightarrow> (\<forall>e \<in> set (sn_files sn). se_added_at e \<le> sn_sequence sn)"

text \<open>The owner's name is the leading component of every path it publishes.\<close>

definition log_owned :: "file_index_log_entry list \<Rightarrow> bool" where
  "log_owned es \<longleftrightarrow>
     (\<forall>(s, delta) \<in> set (log_deltas es). CHR ''/'' \<notin> set (fd_node_id delta) \<and>
        (\<forall>f \<in> set (fd_added delta).
           take (length (fd_node_id delta) + 1) (pf_path f) = fd_node_id delta @ ''/''))"

definition paths_owned :: "file_index \<Rightarrow> bool" where
  "paths_owned i \<longleftrightarrow>
     (\<forall>n d t. \<forall>x \<in> set (table_entries i n d t).
        CHR ''/'' \<notin> set n \<and> take (length n + 1) (indexed_path x) = n @ ''/'')"

text \<open>The entries a query considers, before they are sorted.\<close>

definition query_candidates ::
  "file_index \<Rightarrow> db_id \<Rightarrow> table_id \<Rightarrow> chunk_filter \<Rightarrow> node_name option \<Rightarrow> indexed_file list" where
  "query_candidates i d t flt exclude_node =
     filter (\<lambda>x. test_time_stamp_min_max flt (pf_min_time (if_file x)) (pf_max_time (if_file x)))
       (concat (map (\<lambda>(n, dbs). tm_get dbs d t)
         (filter (\<lambda>(n, dbs). exclude_node \<noteq> Some n) (fi_nodes i))))"

section \<open>A small log\<close>

text \<open>Two ingesters; the second object retires a file of the first one for a merged file.\<close>

definition ex_file :: "nat \<Rightarrow> obj_path \<Rightarrow> time_ns \<Rightarrow> time_ns \<Rightarrow> parquet_file" where
  "ex_file k p mn mx = \<lparr>pf_id = k, pf_path = p, pf_size_bytes = 10, pf_row_count = 2,
     pf_chunk_time = 0, pf_min_time = mn, pf_max_time = mx\<rparr>"

definition ex_entry1 :: file_index_log_entry where
  "ex_entry1 = \<lparr>le_sequence = 1, le_deltas =
     [\<lparr>fd_node_id = ''n1'', fd_db_id = 0, fd_table_id = 0, fd_snapshot_sequence = 1,
       fd_added = [ex_file 0 ''n1/a'' 0 9, ex_file 1 ''n1/b'' 10 19], fd_removed = []\<rparr>]\<rparr>"

definition ex_entry2 :: file_index_log_entry where
  "ex_entry2 = \<lparr>le_sequence = 2, le_deltas =
     [\<lparr>fd_node_id = ''n1'', fd_db_id = 0, fd_table_id = 0, fd_snapshot_sequence = 2,
       fd_added = [ex_file 2 ''n1/c'' 0 9], fd_removed = [''n1/a'']\<rparr>,
      \<lparr>fd_node_id = ''n2'', fd_db_id = 0, fd_table_id = 0, fd_snapshot_sequence = 7,
       fd_added = [ex_file 0 ''n2/a'' 5 30], fd_removed = []\<rparr>]\<rparr>"

definition ex_flt :: chunk_filter where
  "ex_flt = \<lparr>time_lower_bound_ns = Some 8, time_upper_bound_ns = None\<rparr>"

lemmas ex_defs = ex_file_def ex_entry1_def ex_entry2_def ex_flt_def

section \<open>Well-formedness\<close>

definition table_ok :: "nat \<Rightarrow> indexed_file list \<Rightarrow> bool" where
  "table_ok s fs \<longleftrightarrow> distinct (map indexed_path fs) \<and> (\<forall>f \<in> set fs. added_at f \<le> s)"

definition wf_index :: "file_index \<Rightarrow> bool" where
  "wf_index i \<longleftrightarrow>
     keys_distinct (fi_nodes i) \<and> keys_distinct (fi_watermarks i) \<and>
     keys_distinct (fi_persisted_max_times i) \<and>
     (\<forall>(n, dbs) \<in> set (fi_nodes i). tm_wf dbs \<and> tm_all (table_ok (fi_sequence i)) dbs)"

lemma table_ok_Nil [simp]: "table_ok s []"
  by (simp add: table_ok_def)

lemma table_ok_mono: "table_ok s fs \<Longrightarrow> s \<le> s' \<Longrightarrow> table_ok s' fs"
  by (auto simp: table_ok_def)

lemma table_ok_push: "table_ok s fs \<Longrightarrow> added_at x \<le> s \<Longrightarrow> table_ok s (push_new indexed_path x fs)"
  using set_push_new_subset [of indexed_path x fs] by (auto simp: table_ok_def)

lemma table_ok_foldl_push:
  "table_ok s fs \<Longrightarrow> (\<And>x. x \<in> set xs \<Longrightarrow> added_at (g x) \<le> s) \<Longrightarrow>
     table_ok s (foldl (\<lambda>tbl x. push_new indexed_path (g x) tbl) fs xs)"
  by (induction xs arbitrary: fs) (auto intro: table_ok_push)

lemma table_ok_filter: "table_ok s fs \<Longrightarrow> table_ok s (filter P fs)"
  by (auto simp: table_ok_def distinct_map_filter_keys)

lemma table_ok_apply_delta_files:
  "table_ok s fs \<Longrightarrow> table_ok s (apply_delta_files s delta fs)"
  by (auto simp: apply_delta_files_def intro!: table_ok_foldl_push table_ok_filter)

lemma wf_index_new [wf_intros, simp]: "wf_index FileIndex_new"
  by (simp add: wf_index_def FileIndex_new_def)

text \<open>Raising the position only weakens what is asked of the files.\<close>

definition wf_upto :: "nat \<Rightarrow> file_index \<Rightarrow> bool" where
  "wf_upto s i \<longleftrightarrow> wf_index (i\<lparr>fi_sequence := s\<rparr>)"

lemma wf_upto_mono: "wf_index i \<Longrightarrow> fi_sequence i \<le> s \<Longrightarrow> wf_upto s i"
  unfolding wf_upto_def wf_index_def
  by (auto intro: tm_all_mono table_ok_mono)

lemma wf_upto_upd_table:
  assumes "wf_upto s i" and "\<And>fs. table_ok s fs \<Longrightarrow> table_ok s (f fs)"
  shows "wf_upto s (upd_table n d t f i)"
proof -
  let ?P = "\<lambda>dbs. tm_wf dbs \<and> tm_all (table_ok s) dbs"
  have "?P dbs" if "(n', dbs) \<in> set (hm_upd [] n (tm_upd d t f) (fi_nodes i))" for n' dbs
    by (rule hm_upd_all [OF that, where P = ?P])
      (use assms in \<open>auto simp: wf_upto_def wf_index_def intro: tm_all_upd\<close>)
  with assms(1) show ?thesis by (auto simp: wf_upto_def wf_index_def upd_table_def)
qed

lemma wf_upto_apply_delta:
  assumes "wf_upto s i"
  shows "wf_upto s (apply_delta s delta i)"
proof -
  have "wf_upto s (upd_table (fd_node_id delta) (fd_db_id delta) (fd_table_id delta)
      (apply_delta_files s delta) i)"
    by (rule wf_upto_upd_table [OF assms table_ok_apply_delta_files])
  then show ?thesis
    by (auto simp: apply_delta_def Let_def wf_upto_def wf_index_def split: option.splits)
qed

lemma wf_apply_entry [wf_intros, simp]:
  assumes "wf_index i"
  shows "wf_index (apply_entry e i)"
proof (cases "le_sequence e \<le> fi_sequence i")
  case False
  let ?s = "le_sequence e"
  have step: "wf_upto ?s (foldl (\<lambda>i delta. apply_delta ?s delta i) j ds)" if "wf_upto ?s j" for j ds
    using that by (induction ds arbitrary: j) (auto intro: wf_upto_apply_delta)
  have "wf_upto ?s i" using wf_upto_mono assms False by simp
  from step [OF this] show ?thesis using False by (simp add: apply_entry_def wf_upto_def)
qed (simp add: apply_entry_def assms)

lemma wf_replay [wf_intros, simp]: "wf_index i \<Longrightarrow> wf_index (replay es i)"
  unfolding replay_def by (induction es arbitrary: i) auto

section \<open>Refinement of the view\<close>

lemma table_entries_upd_table [map_simps]:
  "table_entries (upd_table n d t f i) n' d' t' =
     (if n' = n \<and> d' = d \<and> t' = t then f (table_entries i n d t) else table_entries i n' d' t')"
  by (simp add: table_entries_def upd_table_def hm_get_upd tm_get_upd)

lemma table_entries_frame [simp]:
  "table_entries (i\<lparr>fi_sequence := s\<rparr>) = table_entries i"
  "table_entries (i\<lparr>fi_watermarks := w\<rparr>) = table_entries i"
  "table_entries (i\<lparr>fi_persisted_max_times := m\<rparr>) = table_entries i"
  by (simp_all add: table_entries_def fun_eq_iff)

lemma upd_table_frame [simp]:
  "fi_sequence (upd_table n d t f i) = fi_sequence i"
  "fi_watermarks (upd_table n d t f i) = fi_watermarks i"
  "fi_persisted_max_times (upd_table n d t f i) = fi_persisted_max_times i"
  by (simp_all add: upd_table_def)

lemma apply_delta_fields [simp]:
  "table_entries (apply_delta s delta i) n d t =
     (if delta_at n d t delta then apply_delta_files s delta (table_entries i n d t)
      else table_entries i n d t)"
  "fi_sequence (apply_delta s delta i) = fi_sequence i"
  "fi_watermarks (apply_delta s delta i) =
     hm_upd 0 (fd_node_id delta) (\<lambda>w. max w (fd_snapshot_sequence delta)) (fi_watermarks i)"
  "map_of (fi_persisted_max_times (apply_delta s delta i)) =
     (map_of (fi_persisted_max_times i))(fd_node_id delta :=
        opt_max (map_of (fi_persisted_max_times i) (fd_node_id delta))
          (list_max (map pf_max_time (fd_added delta))))"
  by (auto simp: apply_delta_def Let_def table_entries_upd_table delta_at_def map_of_hm_max
      opt_max_def fun_eq_iff split: option.splits)

text \<open>The concrete operations refine the specification on views.\<close>

lemma view_apply_delta: "view (apply_delta s delta i) = spec_delta s delta (view i)"
  by (auto simp: view_def spec_delta_def fun_eq_iff hm_upd_def map_of_hm_entry split: option.splits)

lemma view_foldl_apply_delta:
  "view (foldl (\<lambda>i delta. apply_delta s delta i) i ds) =
     foldl (\<lambda>v delta. spec_delta s delta v) (view i) ds"
  by (induction ds arbitrary: i) (auto simp: view_apply_delta)

lemma view_sequence_upd [simp]: "view (i\<lparr>fi_sequence := s\<rparr>) = (view i)\<lparr>iv_sequence := s\<rparr>"
  by (simp add: view_def)

lemma view_sequence [simp]: "iv_sequence (view i) = fi_sequence i"
  by (simp add: view_def)

lemma view_apply_entry: "view (apply_entry e i) = spec_entry e (view i)"
  by (simp add: apply_entry_def spec_entry_def view_foldl_apply_delta)

lemma view_replay: "view (replay es i) = foldl (\<lambda>v e. spec_entry e v) (view i) es"
  unfolding replay_def by (induction es arbitrary: i) (auto simp: view_apply_entry)

lemma view_replay_cong: "view i = view j \<Longrightarrow> view (replay es i) = view (replay es j)"
  by (simp add: view_replay)

section \<open>Replay\<close>

lemma apply_entry_sequence [simp]:
  "fi_sequence (apply_entry e i) = max (fi_sequence i) (le_sequence e)"
  by (auto simp: apply_entry_def)

lemma replay_Cons [simp]: "replay (e # es) i = replay es (apply_entry e i)"
  by (simp add: replay_def)

lemma replay_Nil [simp]: "replay [] i = i"
  by (simp add: replay_def)

lemma replay_append: "replay (a @ b) i = replay b (replay a i)"
  by (simp add: replay_def)

lemma replay_sequence:
  "fi_sequence (replay es i) = Max (insert (fi_sequence i) (set (map le_sequence es)))"
  by (induction es arbitrary: i) (auto simp: Max_insert_max)

lemma replay_old:
  "(\<And>e. e \<in> set es \<Longrightarrow> le_sequence e \<le> fi_sequence i) \<Longrightarrow> replay es i = i"
  by (induction es) (auto simp: apply_entry_def)

lemma log_above_Cons:
  "log_above s (e # es) \<longleftrightarrow> s < le_sequence e \<and> log_above (le_sequence e) es"
  by (auto simp: log_above_def)

lemma log_above_append:
  "log_above s (a @ b) \<Longrightarrow> log_above s a"
  by (auto simp: log_above_def sorted_wrt_append)

lemma log_deltas_simps [simp]:
  "log_deltas [] = []"
  "log_deltas (e # es) = map (Pair (le_sequence e)) (le_deltas e) @ log_deltas es"
  by (simp_all add: log_deltas_def)

lemma fold_table_simps [simp]:
  "fold_table n d t [] fs = fs"
  "fold_table n d t (ds @ ds') fs = fold_table n d t ds' (fold_table n d t ds fs)"
  "fold_table n d t ((s, delta) # ds) fs =
     fold_table n d t ds (if delta_at n d t delta then apply_delta_files s delta fs else fs)"
  by (simp_all add: fold_table_def)

lemma table_entries_foldl_delta:
  "table_entries (foldl (\<lambda>i delta. apply_delta s delta i) i ds) n d t =
     fold_table n d t (map (Pair s) ds) (table_entries i n d t)"
  by (induction ds arbitrary: i) auto

lemma table_entries_replay:
  "log_above (fi_sequence i) es \<Longrightarrow>
     table_entries (replay es i) n d t = fold_table n d t (log_deltas es) (table_entries i n d t)"
proof (induction es arbitrary: i)
  case (Cons e es)
  then have new: "fi_sequence i < le_sequence e" and rest: "log_above (le_sequence e) es"
    by (auto simp: log_above_Cons)
  from rest new have "log_above (fi_sequence (apply_entry e i)) es" by (simp add: max_absorb2)
  from Cons.IH [OF this] new show ?case
    by (simp add: apply_entry_def table_entries_foldl_delta)
qed simp

lemma keys_apply_delta_files:
  "indexed_path ` set (apply_delta_files s delta fs) =
     (indexed_path ` set fs - set (fd_removed delta)) \<union> pf_path ` set (fd_added delta)"
proof -
  have push: "indexed_path ` set (foldl (\<lambda>tbl file. push_new indexed_path \<lparr>if_file = file, added_at = s\<rparr> tbl) gs as)
      = indexed_path ` set gs \<union> pf_path ` set as" for gs as
    by (induction as arbitrary: gs) auto
  show ?thesis unfolding apply_delta_files_def push by auto
qed

lemma live_path_snoc:
  "live_path (ds @ [(s, delta)]) n d t p \<longleftrightarrow>
     (if delta_at n d t delta
      then p \<in> pf_path ` set (fd_added delta) \<or> (live_path ds n d t p \<and> p \<notin> set (fd_removed delta))
      else live_path ds n d t p)"
proof -
  have "(\<exists>b x a. ds @ [(s, delta)] = b @ x # a \<and> Q x \<and> (\<forall>y\<in>set a. R y)) \<longleftrightarrow>
      Q (s, delta) \<or> ((\<exists>b x a. ds = b @ x # a \<and> Q x \<and> (\<forall>y\<in>set a. R y)) \<and> R (s, delta))" for Q R
  proof (intro iffI; elim disjE exE conjE)
    fix b x a assume eq: "ds @ [(s, delta)] = b @ x # a" and "Q x" "\<forall>y\<in>set a. R y"
    then show "Q (s, delta) \<or> ((\<exists>b x a. ds = b @ x # a \<and> Q x \<and> (\<forall>y\<in>set a. R y)) \<and> R (s, delta))"
    proof (cases a rule: rev_cases)
      case (snoc ys y)
      with eq have "ds = b @ x # ys" "y = (s, delta)" by auto
      with snoc \<open>Q x\<close> \<open>\<forall>y\<in>set a. R y\<close>
      have "ds = b @ x # ys \<and> Q x \<and> (\<forall>y\<in>set ys. R y)" and "R (s, delta)" by simp_all
      then show ?thesis by blast
    qed (use eq \<open>Q x\<close> in auto)
  next
    assume "Q (s, delta)"
    then show "\<exists>b x a. ds @ [(s, delta)] = b @ x # a \<and> Q x \<and> (\<forall>y\<in>set a. R y)" by fastforce
  next
    fix b x a assume "R (s, delta)" "ds = b @ x # a" "Q x" "\<forall>y\<in>set a. R y"
    then show "\<exists>b x a. ds @ [(s, delta)] = b @ x # a \<and> Q x \<and> (\<forall>y\<in>set a. R y)"
      by (intro exI [of _ b] exI [of _ x] exI [of _ "a @ [(s, delta)]"]) auto
  qed
  from this [of "\<lambda>x. delta_at n d t (snd x) \<and> p \<in> pf_path ` set (fd_added (snd x))"
      "\<lambda>y. delta_at n d t (snd y) \<longrightarrow> p \<notin> set (fd_removed (snd y))"]
  show ?thesis unfolding live_path_def by auto
qed

lemma keys_fold_table:
  "indexed_path ` set (fold_table n d t ds []) = {p. live_path ds n d t p}"
proof (induction ds rule: rev_induct)
  case Nil
  then show ?case by (simp add: live_path_def)
next
  case (snoc x ds)
  obtain s delta where x: "x = (s, delta)" by fastforce
  show ?case unfolding x fold_table_simps live_path_snoc
    using snoc keys_apply_delta_files by auto
qed

section \<open>Rollup snapshots\<close>

lemma indexed_file_eta [simp]: "\<lparr>if_file = if_file x, added_at = added_at x\<rparr> = x"
  by (cases x) simp

lemma table_entries_restore_entries:
  "table_entries (foldl (\<lambda>i e. restore_entry e i) i es) n d t =
     foldl (\<lambda>acc x. push_new indexed_path x acc) (table_entries i n d t)
       (map entry_indexed (filter (entry_at n d t) es))"
  by (induction es arbitrary: i)
    (auto simp: restore_entry_def table_entries_upd_table entry_at_def entry_indexed_def)

lemma restore_entries_frame [simp]:
  "fi_sequence (foldl (\<lambda>i e. restore_entry e i) i es) = fi_sequence i"
  "fi_watermarks (foldl (\<lambda>i e. restore_entry e i) i es) = fi_watermarks i"
  "fi_persisted_max_times (foldl (\<lambda>i e. restore_entry e i) i es) = fi_persisted_max_times i"
  by (induction es arbitrary: i) (auto simp: restore_entry_def)

lemma wf_indexD:
  assumes "wf_index i"
  shows "keys_distinct (fi_nodes i)" "keys_distinct (fi_watermarks i)"
    "keys_distinct (fi_persisted_max_times i)" "tm_wf (hm_get [] (fi_nodes i) n)"
    "table_ok (fi_sequence i) (table_entries i n d t)"
proof -
  have "tm_wf (hm_get [] (fi_nodes i) n) \<and> tm_all (table_ok (fi_sequence i)) (hm_get [] (fi_nodes i) n)"
    using assms by (auto simp: wf_index_def hm_get_def split: option.splits dest!: map_of_SomeD)
  then show "tm_wf (hm_get [] (fi_nodes i) n)" "table_ok (fi_sequence i) (table_entries i n d t)"
    unfolding table_entries_def by (auto intro: tm_all_get)
qed (use assms in \<open>auto simp: wf_index_def\<close>)

text \<open>The rollup lists each table's files in stored order.\<close>

lemma to_snapshot_files_at:
  assumes "wf_index i"
  shows "map entry_indexed (filter (entry_at n d t) (sn_files (to_snapshot i))) = table_entries i n d t"
proof -
  let ?mk = "\<lambda>n (d, t, x). \<lparr>se_node_id = n, se_db_id = d, se_table_id = t, se_file = if_file x,
      se_added_at = added_at x\<rparr>"
  have "filter (entry_at n d t) (sn_files (to_snapshot i)) =
      (case map_of (fi_nodes i) n of None \<Rightarrow> []
       | Some dbs \<Rightarrow> filter (entry_at n d t) (map (?mk n) (tm_items dbs)))"
    unfolding to_snapshot_def file_index_snapshot.simps
    by (rule filter_concat_at_key)
      (use assms in \<open>auto simp: wf_index_def entry_at_def filter_empty_conv\<close>)
  also have "\<dots> = filter (entry_at n d t) (map (?mk n) (tm_items (hm_get [] (fi_nodes i) n)))"
    by (auto simp: hm_get_def tm_items_def split: option.splits)
  also have "\<dots> = map (?mk n) (filter (\<lambda>(d', t', x). d' = d \<and> t' = t) (tm_items (hm_get [] (fi_nodes i) n)))"
    unfolding filter_map by (intro arg_cong [of _ _ "map (?mk n)"] filter_cong) (auto simp: entry_at_def)
  also have "\<dots> = map (\<lambda>x. ?mk n (d, t, x)) (table_entries i n d t)"
    unfolding tm_items_at [OF wf_indexD(4) [OF assms]] table_entries_def by (simp add: o_def)
  finally show ?thesis by (simp add: entry_indexed_def o_def)
qed

lemma restore_fields:
  assumes "keys_distinct (sn_watermarks sn)" "keys_distinct (sn_persisted_max_times sn)"
  shows "table_entries (restore sn i) n d t =
      foldl (\<lambda>acc x. push_new indexed_path x acc) (table_entries i n d t)
        (map entry_indexed (filter (entry_at n d t) (sn_files sn)))"
    and "fi_sequence (restore sn i) = max (fi_sequence i) (sn_sequence sn)"
    and "map_of (fi_watermarks (restore sn i)) n =
      opt_max (map_of (fi_watermarks i) n) (map_of (sn_watermarks sn) n)"
    and "map_of (fi_persisted_max_times (restore sn i)) n =
      opt_max (map_of (fi_persisted_max_times i) n) (map_of (sn_persisted_max_times sn) n)"
proof -
  show "table_entries (restore sn i) n d t =
      foldl (\<lambda>acc x. push_new indexed_path x acc) (table_entries i n d t)
        (map entry_indexed (filter (entry_at n d t) (sn_files sn)))"
    by (simp add: restore_def Let_def table_entries_restore_entries)
  show "map_of (fi_watermarks (restore sn i)) n =
      opt_max (map_of (fi_watermarks i) n) (map_of (sn_watermarks sn) n)"
    using map_of_foldl_hm_entry [OF assms(1), of "\<lambda>s o'. max (case o' of None \<Rightarrow> 0 | Some w \<Rightarrow> w) s"]
    by (auto simp: restore_def Let_def hm_upd_def opt_max_def split: option.splits)
  show "map_of (fi_persisted_max_times (restore sn i)) n =
      opt_max (map_of (fi_persisted_max_times i) n) (map_of (sn_persisted_max_times sn) n)"
    using map_of_foldl_hm_entry [OF assms(2),
        of "\<lambda>x o'. case o' of None \<Rightarrow> x | Some y \<Rightarrow> max y x"]
    by (auto simp: restore_def Let_def hm_max_def opt_max_def split: option.splits)
qed (simp add: restore_def Let_def)

lemma reset_from_view:
  assumes "wf_index i"
  shows "view (reset_from (to_snapshot i) j) = view i"
proof -
  let ?z = "j\<lparr>fi_nodes := [], fi_watermarks := [], fi_persisted_max_times := [], fi_sequence := 0\<rparr>"
  have sn: "sn_watermarks (to_snapshot i) = fi_watermarks i" "sn_sequence (to_snapshot i) = fi_sequence i"
      "sn_persisted_max_times (to_snapshot i) = fi_persisted_max_times i"
    by (simp_all add: to_snapshot_def)
  have d: "keys_distinct (sn_watermarks (to_snapshot i))"
      "keys_distinct (sn_persisted_max_times (to_snapshot i))"
    using assms by (simp_all add: sn wf_indexD)
  have "table_entries ?z n d t = []" for n d t by (simp add: table_entries_def hm_get_def)
  moreover have "distinct (map indexed_path (table_entries i n d t))" for n d t
    using wf_indexD(5) [OF assms] by (simp add: table_ok_def)
  ultimately have "table_entries (reset_from (to_snapshot i) j) n d t = table_entries i n d t" for n d t
    unfolding reset_from_def restore_fields(1) [OF d] to_snapshot_files_at [OF assms]
    by (simp add: foldl_push_new_append)
  then show ?thesis
    using restore_fields(2-4) [OF d, of ?z] sn
    by (simp add: view_def fun_eq_iff reset_from_def)
qed

lemma snapshot_ok_to_snapshot: "wf_index i \<Longrightarrow> snapshot_ok (to_snapshot i)"
proof -
  assume wf: "wf_index i"
  have "se_added_at e \<le> fi_sequence i" if "e \<in> set (sn_files (to_snapshot i))" for e
  proof -
    have "entry_indexed e \<in> set (table_entries i (se_node_id e) (se_db_id e) (se_table_id e))"
      unfolding to_snapshot_files_at [OF wf, symmetric] using that by (simp add: entry_at_def)
    then show ?thesis
      using wf_indexD(5) [OF wf] by (fastforce simp: table_ok_def entry_indexed_def)
  qed
  then show "snapshot_ok (to_snapshot i)" by (simp add: snapshot_ok_def to_snapshot_def)
qed

lemma wf_upto_restore_entry:
  "wf_upto s i \<Longrightarrow> se_added_at e \<le> s \<Longrightarrow> wf_upto s (restore_entry e i)"
  by (auto simp: restore_entry_def intro!: wf_upto_upd_table table_ok_push)

lemma wf_restore [wf_intros]:
  assumes "wf_index i" and "snapshot_ok sn"
  shows "wf_index (restore sn i)"
proof -
  let ?s = "max (fi_sequence i) (sn_sequence sn)"
  have "wf_upto ?s (foldl (\<lambda>i e. restore_entry e i) j es)"
    if "wf_upto ?s j" and "\<And>e. e \<in> set es \<Longrightarrow> se_added_at e \<le> ?s" for j es
    using that
    by (induction es arbitrary: j) (auto intro: wf_upto_restore_entry)
  from this [OF wf_upto_mono [OF assms(1)], of "sn_files sn"] assms(2)
  have "wf_upto ?s (foldl (\<lambda>i e. restore_entry e i) i (sn_files sn))"
    by (auto simp: snapshot_ok_def le_max_iff_disj)
  then show ?thesis
    by (auto simp: restore_def Let_def wf_upto_def wf_index_def hm_upd_def hm_max_def)
qed

lemma wf_reset_from [wf_intros]: "snapshot_ok sn \<Longrightarrow> wf_index (reset_from sn i)"
  unfolding reset_from_def by (rule wf_restore) (simp_all add: wf_index_def)

section \<open>Files for a query\<close>

lemma get_files_filtered_alt:
  "get_files_filtered i d t flt ex =
     map if_file (sort_key (\<lambda>x. (added_at x, indexed_path x)) (query_candidates i d t flt ex))"
  by (simp add: get_files_filtered_def query_candidates_def)

lemma table_entries_node:
  "keys_distinct (fi_nodes i) \<Longrightarrow> (n, dbs) \<in> set (fi_nodes i) \<Longrightarrow> tm_get dbs d t = table_entries i n d t"
  by (simp add: table_entries_def hm_get_def)

lemma set_query_candidates:
  assumes "wf_index i"
  shows "set (query_candidates i d t flt ex) =
    {x. \<exists>n. ex \<noteq> Some n \<and> x \<in> set (table_entries i n d t) \<and>
       test_time_stamp_min_max flt (pf_min_time (if_file x)) (pf_max_time (if_file x))}"
proof -
  have *: "x \<in> set (table_entries i n d t) \<longleftrightarrow> (\<exists>dbs. (n, dbs) \<in> set (fi_nodes i) \<and> x \<in> set (tm_get dbs d t))" for n x
  proof
    assume "x \<in> set (table_entries i n d t)"
    then show "\<exists>dbs. (n, dbs) \<in> set (fi_nodes i) \<and> x \<in> set (tm_get dbs d t)"
      by (auto simp: table_entries_def hm_get_def split: option.splits dest: map_of_SomeD)
  qed (auto simp: table_entries_node [OF wf_indexD(1) [OF assms]])
  show ?thesis unfolding query_candidates_def * by auto
qed

lemma take_prefix_inj:
  assumes "take (length a + 1) p = a @ [c]" "take (length b + 1) p = b @ [c]" "c \<notin> set a" "c \<notin> set b"
  shows "a = b"
proof -
  have *: "False" if "length x < length y" "take (length x + 1) p = x @ [c]" "take (length y + 1) p = y @ [c]" "c \<notin> set y"
    for x y :: "'a list"
  proof -
    have "x @ [c] = take (length x + 1) (y @ [c])"
      using that(1) unfolding that(2,3) [symmetric] by (simp add: min_def)
    also have "\<dots> = take (length x + 1) y" using that(1) by simp
    finally have "c \<in> set (take (length x + 1) y)" by (metis in_set_conv_decomp)
    with that(4) show False by (meson in_set_takeD)
  qed
  from * [of a b] * [of b a] assms have "length a = length b" by (meson linorder_neqE_nat)
  with assms(1,2) show ?thesis by simp
qed

lemma query_candidates_distinct:
  assumes "wf_index i" and "paths_owned i"
  shows "distinct (map indexed_path (query_candidates i d t flt ex))"
  unfolding query_candidates_def
proof (intro distinct_map_filter_keys distinct_concat_keyed)
  let ?m = "filter (\<lambda>(n, dbs). ex \<noteq> Some n) (fi_nodes i)"
  show "keys_distinct (fi_nodes i)" using wf_indexD(1) [OF assms(1)] .
  fix n dbs assume n: "(n, dbs) \<in> set ?m"
  then have node: "(n, dbs) \<in> set (fi_nodes i)" by simp
  show "distinct (map indexed_path (tm_get dbs d t))"
    using wf_indexD(5) [OF assms(1)]
    by (simp add: table_entries_node [OF wf_indexD(1) [OF assms(1)] node] table_ok_def)
  fix n' dbs' assume n': "(n', dbs') \<in> set ?m" and "n \<noteq> n'"
  have owned: "CHR ''/'' \<notin> set k \<and> take (length k + 1) (indexed_path x) = k @ ''/''"
    if "(k, v) \<in> set ?m" and "x \<in> set (tm_get v d t)" for k v x
    using assms(2) that table_entries_node [OF wf_indexD(1) [OF assms(1)], of k v d t]
    by (auto simp: paths_owned_def)
  show "indexed_path ` set (tm_get dbs d t) \<inter> indexed_path ` set (tm_get dbs' d t) = {}"
  proof (rule equals0I)
    fix p assume "p \<in> indexed_path ` set (tm_get dbs d t) \<inter> indexed_path ` set (tm_get dbs' d t)"
    then have "take (length n + 1) p = n @ ''/''" "take (length n' + 1) p = n' @ ''/''"
        "CHR ''/'' \<notin> set n" "CHR ''/'' \<notin> set n'"
      using owned [OF n] owned [OF n'] by auto
    then show False using take_prefix_inj \<open>n \<noteq> n'\<close> by metis
  qed
qed

section \<open>Logs whose paths name their owner\<close>

lemma foldl_push_indexed:
  "set (foldl (\<lambda>tbl file. push_new indexed_path \<lparr>if_file = file, added_at = s\<rparr> tbl) gs as)
     \<subseteq> set gs \<union> (\<lambda>file. \<lparr>if_file = file, added_at = s\<rparr>) ` set as"
proof (induction as arbitrary: gs)
  case (Cons a as)
  then show ?case
    using set_push_new_subset [of indexed_path "\<lparr>if_file = a, added_at = s\<rparr>" gs] by fastforce
qed simp

lemma set_apply_delta_files:
  "set (apply_delta_files s delta fs) \<subseteq>
     set fs \<union> (\<lambda>file. \<lparr>if_file = file, added_at = s\<rparr>) ` set (fd_added delta)"
  unfolding apply_delta_files_def
  using foldl_push_indexed [of s "if fd_removed delta \<noteq> []
      then filter (\<lambda>i. indexed_path i \<notin> set (fd_removed delta)) fs else fs" "fd_added delta"]
  by (auto split: if_splits)

lemma fold_table_source:
  "x \<in> set (fold_table n d t ds fs) \<Longrightarrow> x \<in> set fs \<or>
     (\<exists>(s, delta) \<in> set ds. delta_at n d t delta \<and> added_at x = s \<and> if_file x \<in> set (fd_added delta))"
proof (induction ds arbitrary: fs)
  case (Cons sd ds)
  obtain s delta where sd: "sd = (s, delta)" by fastforce
  from Cons.IH [of "if delta_at n d t delta then apply_delta_files s delta fs else fs"] Cons.prems
  show ?case
    using set_apply_delta_files [of s delta fs] by (auto simp: sd split: if_splits)
qed simp

lemma table_entries_new [simp]: "table_entries FileIndex_new n d t = []"
  by (simp add: table_entries_def FileIndex_new_def hm_get_def)

lemma fi_sequence_new [simp]: "fi_sequence FileIndex_new = 0"
  by (simp add: FileIndex_new_def)

lemma paths_owned_replay:
  assumes "log_above 0 es" and "log_owned es"
  shows "paths_owned (replay es FileIndex_new)"
  unfolding paths_owned_def
proof (intro allI ballI)
  fix n d t x assume "x \<in> set (table_entries (replay es FileIndex_new) n d t)"
  then have "x \<in> set (fold_table n d t (log_deltas es) [])"
    using table_entries_replay [of FileIndex_new es] assms(1) by simp
  from fold_table_source [OF this] assms(2)
  show "CHR ''/'' \<notin> set n \<and> take (length n + 1) (indexed_path x) = n @ ''/''"
    by (fastforce simp: log_owned_def delta_at_def)
qed

lemma query_agrees:
  assumes "wf_index i" "wf_index j" "view i = view j" "paths_owned i"
  shows "get_files_filtered i d t flt ex = get_files_filtered j d t flt ex"
proof -
  have same: "table_entries i = table_entries j" using assms(3) by (simp add: view_def)
  have "paths_owned j" using assms(4) by (simp add: paths_owned_def same)
  then have dj: "distinct (map indexed_path (query_candidates j d t flt ex))"
    by (rule query_candidates_distinct [OF assms(2)])
  have di: "distinct (map indexed_path (query_candidates i d t flt ex))"
    by (rule query_candidates_distinct [OF assms(1,4)])
  have "set (query_candidates i d t flt ex) = set (query_candidates j d t flt ex)"
    by (simp add: set_query_candidates assms(1,2) same)
  with di dj have "mset (query_candidates i d t flt ex) = mset (query_candidates j d t flt ex)"
    by (simp add: distinct_map set_eq_iff_mset_eq_distinct)
  moreover have "inj_on (\<lambda>x. (added_at x, indexed_path x)) (set (query_candidates i d t flt ex))"
    using di by (auto simp: distinct_map inj_on_def)
  ultimately show ?thesis
    by (simp add: get_files_filtered_alt sort_key_mset_unique)
qed

lemma marks_foldl_delta:
  "map_of (fi_watermarks (foldl (\<lambda>i delta. apply_delta s delta i) i ds)) n =
     opt_max (map_of (fi_watermarks i) n)
       (list_max (map fd_snapshot_sequence (filter (\<lambda>x. fd_node_id x = n) ds)))"
  "map_of (fi_persisted_max_times (foldl (\<lambda>i delta. apply_delta s delta i) i ds)) n =
     opt_max (map_of (fi_persisted_max_times i) n)
       (list_max (map pf_max_time (concat (map fd_added (filter (\<lambda>x. fd_node_id x = n) ds)))))"
proof (induction ds arbitrary: i)
  case (Cons a ds)
  { case 1
    show ?case using Cons(1) [of "apply_delta s a i"]
      by (auto simp: hm_upd_def map_of_hm_entry list_max_Cons opt_max_def max.assoc split: option.splits)
  next
    case 2
    show ?case using Cons(2) [of "apply_delta s a i"]
      by (auto simp: list_max_append opt_max_assoc) }
qed simp_all

lemma marks_replay:
  assumes "log_above (fi_sequence i) es"
  shows "map_of (fi_watermarks (replay es i)) n =
      opt_max (map_of (fi_watermarks i) n)
        (list_max (map fd_snapshot_sequence (filter (\<lambda>x. fd_node_id x = n) (map snd (log_deltas es)))))"
    and "map_of (fi_persisted_max_times (replay es i)) n =
      opt_max (map_of (fi_persisted_max_times i) n)
        (list_max (map pf_max_time (concat (map fd_added (filter (\<lambda>x. fd_node_id x = n) (map snd (log_deltas es)))))))"
  using assms
proof (induction es arbitrary: i)
  case (Cons e es)
  have pairs: "map snd (map (Pair (le_sequence e)) (le_deltas e)) = le_deltas e"
    by (simp add: o_def)
  { case 1
    then have "log_above (fi_sequence (apply_entry e i)) es" by (simp add: log_above_Cons max_absorb2)
    from Cons(1) [OF this] 1 show ?case
      by (simp add: apply_entry_def log_above_Cons marks_foldl_delta list_max_append opt_max_assoc o_def)
  next
    case 2
    then have "log_above (fi_sequence (apply_entry e i)) es" by (simp add: log_above_Cons max_absorb2)
    from Cons(2) [OF this] 2 show ?case
      by (simp add: apply_entry_def log_above_Cons marks_foldl_delta list_max_append opt_max_assoc o_def) }
qed simp_all

section \<open>Properties\<close>

text \<open>Claim C3. The index built from the shared log lists, for every node, database and table,
  exactly the paths that some delta of the log added and no later delta removed, and it lists each
  of them once.\<close>

theorem index_lists_live_files:
  assumes "log_above 0 es"
  shows "indexed_path ` set (table_entries (replay es FileIndex_new) n d t) =
           {p. live_path (log_deltas es) n d t p} \<and>
         distinct (map indexed_path (table_entries (replay es FileIndex_new) n d t))"
proof
  show "indexed_path ` set (table_entries (replay es FileIndex_new) n d t) =
      {p. live_path (log_deltas es) n d t p}"
    using table_entries_replay [of FileIndex_new es] assms by (simp add: keys_fold_table)
  show "distinct (map indexed_path (table_entries (replay es FileIndex_new) n d t))"
    using wf_indexD(5) [OF wf_replay [OF wf_index_new]] by (simp add: table_ok_def)
qed

theorem index_lists_live_files_witness:
  "log_above 0 [ex_entry1, ex_entry2] \<and>
   {p. live_path (log_deltas [ex_entry1, ex_entry2]) ''n1'' 0 0 p} = {''n1/b'', ''n1/c''}"
proof -
  have above: "log_above 0 [ex_entry1, ex_entry2]" by code_simp
  have "map indexed_path (table_entries (replay [ex_entry1, ex_entry2] FileIndex_new) ''n1'' 0 0) =
      [''n1/b'', ''n1/c'']" by code_simp
  then have "indexed_path ` set (table_entries (replay [ex_entry1, ex_entry2] FileIndex_new) ''n1'' 0 0) =
      {''n1/b'', ''n1/c''}" by (metis list.set_map list.simps(15) empty_set)
  with index_lists_live_files [OF above, of "''n1''" 0 0] above show ?thesis by simp
qed

text \<open>Replay is idempotent over any overlap: a reader that has replayed \<open>a @ b\<close> and
  then re-reads from an earlier position, receiving \<open>b\<close> again before the new objects \<open>c\<close>, ends in
  the same index as a reader that saw every object once.\<close>

theorem replay_overlap_idempotent:
  "replay (b @ c) (replay (a @ b) i) = replay (a @ b @ c) i"
proof -
  have "replay b (replay (a @ b) i) = replay (a @ b) i"
    by (rule replay_old) (auto simp: replay_sequence)
  then show ?thesis by (simp add: replay_append)
qed

text \<open>Claim C11. A rollup snapshot stands for the log prefix it was taken from: a reader that
  discards its contents \<open>j\<close> and restores the rollup of the prefix \<open>a\<close>, then replays the rest \<open>b\<close>,
  holds the same files in the same order at the same log positions, and the same watermarks, as
  one that replays the whole log.\<close>

theorem rollup_stands_for_log:
  "view (replay b (reset_from (to_snapshot (replay a FileIndex_new)) j)) =
     view (replay (a @ b) FileIndex_new)"
  unfolding replay_append
  by (rule view_replay_cong) (simp add: reset_from_view)

text \<open>Claim C18. Two nodes that reached the same log position by different routes, one through a
  rollup and one through the log, hand the query planner the same files in the same order, however
  their hash maps iterate, as long as the paths a node publishes begin with its own name.\<close>

theorem nodes_agree_on_query_files:
  assumes "log_above 0 (a @ b)" and "log_owned (a @ b)"
  shows "get_files_filtered (replay b (reset_from (to_snapshot (replay a FileIndex_new)) j)) d t flt ex =
         get_files_filtered (replay (a @ b) FileIndex_new) d t flt ex"
proof -
  let ?l = "replay b (reset_from (to_snapshot (replay a FileIndex_new)) j)"
  have wf: "wf_index ?l"
    by (intro wf_replay wf_reset_from snapshot_ok_to_snapshot wf_index_new)
  have "view ?l = view (replay (a @ b) FileIndex_new)"
    unfolding replay_append by (rule view_replay_cong) (simp add: reset_from_view)
  then show ?thesis
    using query_agrees [OF wf_replay [OF wf_index_new] wf _ paths_owned_replay [OF assms]] by simp
qed

theorem nodes_agree_on_query_files_witness:
  "log_above 0 ([ex_entry1] @ [ex_entry2]) \<and> log_owned ([ex_entry1] @ [ex_entry2]) \<and>
   map pf_path (get_files_filtered
     (replay [ex_entry2] (reset_from (to_snapshot (replay [ex_entry1] FileIndex_new)) FileIndex_new))
     0 0 ex_flt None) = [''n1/b'', ''n1/c'', ''n2/a'']"
proof -
  have hyps: "log_above 0 ([ex_entry1] @ [ex_entry2])" "log_owned ([ex_entry1] @ [ex_entry2])"
    by code_simp+
  have "map pf_path (get_files_filtered (replay ([ex_entry1] @ [ex_entry2]) FileIndex_new) 0 0 ex_flt None) =
      [''n1/b'', ''n1/c'', ''n2/a'']" by code_simp
  with nodes_agree_on_query_files [OF hyps, of FileIndex_new 0 0 ex_flt None] hyps
  show ?thesis by simp
qed

text \<open>What a query reads from the index: every file of the table whose time range
  overlaps the filter, except those of the excluded node, each once, ordered by log position and
  then by path, so that the file published last is last and wins deduplication.\<close>

theorem query_files_contract:
  assumes "log_above 0 es" and "log_owned es" and "i = replay es FileIndex_new"
  shows "\<exists>xs. get_files_filtered i d t flt ex = map if_file xs \<and>
     sorted (map (\<lambda>x. (added_at x, indexed_path x)) xs) \<and>
     distinct (map indexed_path xs) \<and>
     set xs = {x. \<exists>n. ex \<noteq> Some n \<and> x \<in> set (table_entries i n d t) \<and>
                test_time_stamp_min_max flt (pf_min_time (if_file x)) (pf_max_time (if_file x))}"
proof (intro exI [of _ "sort_key (\<lambda>x. (added_at x, indexed_path x)) (query_candidates i d t flt ex)"] conjI)
  have wf: "wf_index i" using assms(3) by simp
  have "distinct (map indexed_path (query_candidates i d t flt ex))"
    using query_candidates_distinct [OF wf] paths_owned_replay [OF assms(1,2)] assms(3) by simp
  then show "distinct (map indexed_path
      (sort_key (\<lambda>x. (added_at x, indexed_path x)) (query_candidates i d t flt ex)))"
    by (simp add: distinct_map)
  show "set (sort_key (\<lambda>x. (added_at x, indexed_path x)) (query_candidates i d t flt ex)) =
      {x. \<exists>n. ex \<noteq> Some n \<and> x \<in> set (table_entries i n d t) \<and>
         test_time_stamp_min_max flt (pf_min_time (if_file x)) (pf_max_time (if_file x))}"
    using set_query_candidates [OF wf] by simp
qed (simp_all add: get_files_filtered_alt)

theorem query_files_contract_witness:
  "log_above 0 [ex_entry1, ex_entry2] \<and> log_owned [ex_entry1, ex_entry2] \<and>
   (\<exists>xs. get_files_filtered (replay [ex_entry1, ex_entry2] FileIndex_new) 0 0 ex_flt (Some ''n1'') =
      map if_file xs \<and> distinct (map indexed_path xs)) \<and>
   map pf_path (get_files_filtered (replay [ex_entry1, ex_entry2] FileIndex_new) 0 0 ex_flt (Some ''n1'')) =
     [''n2/a'']"
proof -
  have hyps: "log_above 0 [ex_entry1, ex_entry2]" "log_owned [ex_entry1, ex_entry2]"
    by code_simp+
  have "map pf_path (get_files_filtered (replay [ex_entry1, ex_entry2] FileIndex_new) 0 0 ex_flt (Some ''n1'')) =
      [''n2/a'']" by code_simp
  with query_files_contract [OF hyps refl, of 0 0 ex_flt "Some ''n1''"] hyps show ?thesis by auto
qed

text \<open>The watermarks are maxima over the whole history of the log: a node's publish
  watermark is the highest snapshot sequence of its deltas, and its time watermark is the highest
  \<open>max_time\<close> of any file it ever added, removed or not; both are absent for a node the log does not
  mention.\<close>

theorem watermarks_are_history_maxima:
  assumes "log_above 0 es"
  shows "published_watermark (replay es FileIndex_new) n =
           list_max (map fd_snapshot_sequence (filter (\<lambda>x. fd_node_id x = n) (map snd (log_deltas es)))) \<and>
         persisted_max_time (replay es FileIndex_new) n =
           list_max (map pf_max_time (concat (map fd_added
             (filter (\<lambda>x. fd_node_id x = n) (map snd (log_deltas es))))))"
  using marks_replay [of FileIndex_new es] assms
  by (simp add: published_watermark_def persisted_max_time_def FileIndex_new_def)

theorem watermarks_are_history_maxima_witness:
  "log_above 0 [ex_entry1, ex_entry2] \<and>
   published_watermark (replay [ex_entry1, ex_entry2] FileIndex_new) ''n2'' = Some 7 \<and>
   persisted_max_time (replay [ex_entry1, ex_entry2] FileIndex_new) ''n1'' = Some 19"
proof -
  have above: "log_above 0 [ex_entry1, ex_entry2]" by code_simp
  have "list_max (map fd_snapshot_sequence (filter (\<lambda>x. fd_node_id x = ''n2'')
      (map snd (log_deltas [ex_entry1, ex_entry2])))) = Some 7" by code_simp
  moreover have "list_max (map pf_max_time (concat (map fd_added (filter (\<lambda>x. fd_node_id x = ''n1'')
      (map snd (log_deltas [ex_entry1, ex_entry2])))))) = Some 19" by code_simp
  ultimately show ?thesis
    using watermarks_are_history_maxima [OF above, of "''n1''"]
      watermarks_are_history_maxima [OF above, of "''n2''"] above by simp
qed

end
