(* ===== verification/Object_Store.thy ===== *)
theory Object_Store
  imports Prelude
begin

text \<open>
  The object store as the rest of the system sees it.  The backend is the \<open>object_store\<close> crate
  over S3, GCS, Azure or a disk: it is a parameter, a record of operations on an abstract state, and
  the locale \<open>object_store_laws\<close> states what the documentation of that crate promises about it,
  including that a failed write may or may not have landed.  On top of it this theory models the
  retry layer (\<open>object_store_utils/src/retryable_object_store.rs\<close>) and the store that recognises its
  own conditional creates (\<open>object_store_utils/src/self_verifying_create.rs\<close>), and proves that the
  latter keeps the laws and turns hidden successes into reported ones.
\<close>

section \<open>The interface\<close>

datatype store_error = NotFound | AlreadyExists | Precondition | NotModified | Generic | OtherError

type_synonym attributes = "(string, string) hash_map"

record 'b stored_object =
  so_body :: 'b
  so_attrs :: attributes

datatype put_mode = Create | Overwrite | Update

text \<open>The marker is the \<open>SelfVerifyingCreate\<close> value in the options' extensions, with its nonce.\<close>

record put_options =
  po_mode :: put_mode
  po_attributes :: attributes
  po_marker :: "string option option"

type_synonym ('s, 'a) store_op = "'s \<Rightarrow> (store_error + 'a) \<times> 's"

record ('s, 'b) object_store =
  os_get :: "obj_path \<Rightarrow> ('s, 'b stored_object) store_op"
  os_head :: "obj_path \<Rightarrow> ('s, attributes) store_op"
  os_put :: "obj_path \<Rightarrow> 'b \<Rightarrow> ('s, unit) store_op"
  os_put_opts :: "obj_path \<Rightarrow> 'b \<Rightarrow> put_options \<Rightarrow> ('s, unit) store_op"
  os_list :: "obj_path \<Rightarrow> ('s, obj_path list) store_op"
  os_list_with_offset :: "obj_path \<Rightarrow> obj_path \<Rightarrow> ('s, obj_path list) store_op"
  os_delete :: "obj_path \<Rightarrow> ('s, unit) store_op"

definition under :: "obj_path \<Rightarrow> obj_path \<Rightarrow> bool" where
  "under pre p \<longleftrightarrow> take (length pre + 1) p = pre @ ''/''"

section \<open>Retries\<close>

text \<open>At most \<open>k\<close> further attempts, while the predicate allows another one.\<close>

fun retry_operation :: "nat \<Rightarrow> (store_error \<Rightarrow> bool) \<Rightarrow> ('s, 'a) store_op \<Rightarrow> ('s, 'a) store_op" where
  "retry_operation 0 w op s = op s"
| "retry_operation (Suc k) w op s =
     (case op s of
        (Inl e, s') \<Rightarrow> if w e then retry_operation k w op s' else (Inl e, s')
      | (Inr x, s') \<Rightarrow> (Inr x, s'))"

definition get_with_retries ::
  "('s, 'b) object_store \<Rightarrow> nat \<Rightarrow> obj_path \<Rightarrow> ('s, 'b stored_object) store_op" where
  "get_with_retries st k p = retry_operation k (\<lambda>e. e \<noteq> NotFound) (os_get st p)"

text \<open>The only use with \<open>head: true\<close> reads the attributes.\<close>

definition get_opts_with_retries ::
  "('s, 'b) object_store \<Rightarrow> nat \<Rightarrow> obj_path \<Rightarrow> ('s, attributes) store_op" where
  "get_opts_with_retries st k p =
     retry_operation k (\<lambda>e. \<not> (e = NotFound \<or> e = Precondition)) (os_head st p)"

definition put_opts_with_retries ::
  "('s, 'b) object_store \<Rightarrow> nat \<Rightarrow> obj_path \<Rightarrow> 'b \<Rightarrow> put_options \<Rightarrow> ('s, unit) store_op" where
  "put_opts_with_retries st k p b opts =
     retry_operation k (\<lambda>e. \<not> (e = NotFound \<or> e = Precondition \<or> e = AlreadyExists))
       (os_put_opts st p b opts)"

definition put_with_retries ::
  "('s, 'b) object_store \<Rightarrow> nat \<Rightarrow> obj_path \<Rightarrow> 'b \<Rightarrow> ('s, unit) store_op" where
  "put_with_retries st k p b = retry_operation k (\<lambda>e. True) (os_put st p b)"

definition raw_delete_with_retries ::
  "('s, 'b) object_store \<Rightarrow> nat \<Rightarrow> obj_path \<Rightarrow> ('s, unit) store_op" where
  "raw_delete_with_retries st k p = retry_operation k (\<lambda>e. e \<noteq> NotFound) (os_delete st p)"

definition delete_with_retries ::
  "('s, 'b) object_store \<Rightarrow> nat \<Rightarrow> obj_path \<Rightarrow> ('s, unit) store_op" where
  "delete_with_retries st k p s =
     (case raw_delete_with_retries st k p s of
        (Inl NotFound, s') \<Rightarrow> (Inr (), s')
      | other \<Rightarrow> other)"

section \<open>Self-verifying creates\<close>

definition PUT_NONCE_METADATA_KEY :: string where
  "PUT_NONCE_METADATA_KEY = ''influxdb3_put_nonce''"

definition SelfVerifyingCreate_with_nonce :: "string \<Rightarrow> string option" where
  "SelfVerifyingCreate_with_nonce nonce = Some nonce"

definition SelfVerifyingCreate_put_options :: "string option \<Rightarrow> put_options" where
  "SelfVerifyingCreate_put_options marker =
     \<lparr>po_mode = Create, po_attributes = [], po_marker = Some marker\<rparr>"

definition into_nonce :: "string \<Rightarrow> string option \<Rightarrow> string" where
  "into_nonce generated marker = (case marker of None \<Rightarrow> generated | Some n \<Rightarrow> n)"

datatype nonce_verdict = Ours | Foreign | Absent

definition nonce_check :: "attributes \<Rightarrow> string \<Rightarrow> nonce_verdict" where
  "nonce_check attrs nonce =
     (case map_of attrs PUT_NONCE_METADATA_KEY of
        None \<Rightarrow> Absent
      | Some stored \<Rightarrow> if stored = nonce then Ours else Foreign)"

definition READ_BACK_ATTEMPTS :: nat where
  "READ_BACK_ATTEMPTS = 3"

definition verify :: "('s, 'b) object_store \<Rightarrow> obj_path \<Rightarrow> string \<Rightarrow> ('s, unit) store_op" where
  "verify inner p nonce s =
     (case get_opts_with_retries inner (READ_BACK_ATTEMPTS - 1) p s of
        (Inl source, s') \<Rightarrow> (Inl AlreadyExists, s')
      | (Inr attrs, s') \<Rightarrow>
          (case nonce_check attrs nonce of
             Ours \<Rightarrow> (Inr (), s')
           | Foreign \<Rightarrow> (Inl AlreadyExists, s')
           | Absent \<Rightarrow> (Inl AlreadyExists, s')))"

text \<open>The three shapes a colliding conditional create has on the different backends.\<close>

definition is_conflict :: "store_error \<Rightarrow> bool" where
  "is_conflict e \<longleftrightarrow> e = AlreadyExists \<or> e = Precondition \<or> e = NotModified"

definition self_verifying_put_opts ::
  "('s, 'b) object_store \<Rightarrow> string \<Rightarrow> obj_path \<Rightarrow> 'b \<Rightarrow> put_options \<Rightarrow> ('s, unit) store_op" where
  "self_verifying_put_opts inner generated p b opts s =
     (case po_marker opts of
        None \<Rightarrow> os_put_opts inner p b opts s
      | Some marker \<Rightarrow>
          (let opts1 = opts\<lparr>po_marker := None\<rparr> in
           if po_mode opts1 \<noteq> Create then os_put_opts inner p b opts1 s
           else
             let nonce = into_nonce generated marker;
                 opts2 = opts1\<lparr>po_attributes := hm_insert PUT_NONCE_METADATA_KEY nonce (po_attributes opts1)\<rparr>
             in case os_put_opts inner p b opts2 s of
                  (Inl e, s') \<Rightarrow>
                    if is_conflict e then verify inner p nonce s' else (Inl e, s')
                | (Inr x, s') \<Rightarrow> (Inr x, s')))"

definition SelfVerifyingCreateStore :: "string \<Rightarrow> ('s, 'b) object_store \<Rightarrow> ('s, 'b) object_store" where
  "SelfVerifyingCreateStore generated inner =
     inner\<lparr>os_put_opts := self_verifying_put_opts inner generated\<rparr>"

section \<open>A store in memory\<close>

text \<open>Every request succeeds or fails for the documented reason; used to run the definitions.\<close>

type_synonym 'b mem = "(obj_path, 'b stored_object) hash_map"

definition mem_store :: "('b mem, 'b) object_store" where
  "mem_store =
     \<lparr>os_get = (\<lambda>p m. (case map_of m p of None \<Rightarrow> Inl NotFound | Some x \<Rightarrow> Inr x, m)),
      os_head = (\<lambda>p m. (case map_of m p of None \<Rightarrow> Inl NotFound | Some x \<Rightarrow> Inr (so_attrs x), m)),
      os_put = (\<lambda>p b m. (Inr (), hm_insert p \<lparr>so_body = b, so_attrs = []\<rparr> m)),
      os_put_opts = (\<lambda>p b opts m.
        if po_mode opts = Create \<and> map_of m p \<noteq> None then (Inl AlreadyExists, m)
        else (Inr (), hm_insert p \<lparr>so_body = b, so_attrs = po_attributes opts\<rparr> m)),
      os_list = (\<lambda>pre m. (Inr (remdups (map fst (filter (\<lambda>(p, x). under pre p) m))), m)),
      os_list_with_offset = (\<lambda>pre off m.
        (Inr (remdups (map fst (filter (\<lambda>(p, x). under pre p \<and> off < p) m))), m)),
      os_delete = (\<lambda>p m. (if map_of m p = None then Inl NotFound else Inr (), hm_remove p m))\<rparr>"

text \<open>A backend whose client retried a create that had already landed: the object is written and
  the reply is a conflict.\<close>

definition hidden_success_store :: "('b mem, 'b) object_store" where
  "hidden_success_store = mem_store\<lparr>os_put_opts := (\<lambda>p b opts m.
     if po_mode opts = Create \<and> map_of m p \<noteq> None then (Inl AlreadyExists, m)
     else (Inl AlreadyExists, hm_insert p \<lparr>so_body = b, so_attrs = po_attributes opts\<rparr> m))\<rparr>"

section \<open>Laws\<close>

definition nonce_fresh :: "(obj_path \<rightharpoonup> 'b stored_object) \<Rightarrow> string \<Rightarrow> bool" where
  "nonce_fresh c n \<longleftrightarrow> (\<forall>p x. c p = Some x \<longrightarrow> nonce_check (so_attrs x) n \<noteq> Ours)"

text \<open>The nonces the options of a put may leave on the object.\<close>

definition carries_nonce :: "put_options \<Rightarrow> string \<Rightarrow> bool" where
  "carries_nonce opts n \<longleftrightarrow>
     po_marker opts = Some (Some n) \<or> map_of (po_attributes opts) PUT_NONCE_METADATA_KEY = Some n"

definition created ::
  "obj_path \<Rightarrow> 'b \<Rightarrow> put_options \<Rightarrow> (obj_path \<rightharpoonup> 'b stored_object) \<Rightarrow> (obj_path \<rightharpoonup> 'b stored_object) \<Rightarrow> bool" where
  "created p b opts c c' \<longleftrightarrow> c p = None \<and>
     (\<exists>a. c' = c(p \<mapsto> \<lparr>so_body = b, so_attrs = a\<rparr>) \<and> (\<forall>n. nonce_check a n = Ours \<longrightarrow> carries_nonce opts n))"

text \<open>The read-back succeeds after \<open>j\<close> transient failures.\<close>

primrec reads_back :: "nat \<Rightarrow> ('s, 'b) object_store \<Rightarrow> obj_path \<Rightarrow> 's \<Rightarrow> bool" where
  "reads_back 0 st p s \<longleftrightarrow> (\<exists>a s'. os_head st p s = (Inr a, s'))"
| "reads_back (Suc j) st p s \<longleftrightarrow> (\<exists>s'. os_head st p s = (Inl OtherError, s') \<and> reads_back j st p s')"

text \<open>A create that carries a nonce of its own may only be relied on while the nonce is unused.\<close>

definition marker_usable :: "(obj_path \<rightharpoonup> 'b stored_object) \<Rightarrow> put_options \<Rightarrow> bool" where
  "marker_usable c opts \<longleftrightarrow>
     (case po_marker opts of None \<Rightarrow> True | Some None \<Rightarrow> False | Some (Some n) \<Rightarrow> nonce_fresh c n)"

locale object_store_reads =
  fixes st :: "('s, 'b) object_store"
    and contents :: "'s \<Rightarrow> obj_path \<rightharpoonup> 'b stored_object"
  assumes get_ok: "os_get st p s = (Inr x, s') \<Longrightarrow> contents s p = Some x"
    and get_not_found: "os_get st p s = (Inl NotFound, s') \<Longrightarrow> contents s p = None"
    and get_frame: "os_get st p s = (r, s') \<Longrightarrow> contents s' = contents s"
    and head_ok: "os_head st p s = (Inr a, s') \<Longrightarrow> \<exists>x. contents s p = Some x \<and> so_attrs x = a"
    and head_frame: "os_head st p s = (ra, s') \<Longrightarrow> contents s' = contents s"
    and list_ok: "os_list st pre s = (Inr ps, s') \<Longrightarrow>
          distinct ps \<and> set ps = {p. contents s p \<noteq> None \<and> under pre p}"
    and list_frame: "os_list st pre s = (rl, s') \<Longrightarrow> contents s' = contents s"
    and list_offset_ok: "os_list_with_offset st pre off s = (Inr ps, s') \<Longrightarrow>
          distinct ps \<and> set ps = {p. contents s p \<noteq> None \<and> under pre p \<and> off < p}"
    and list_offset_frame: "os_list_with_offset st pre off s = (rl, s') \<Longrightarrow> contents s' = contents s"

locale object_store_laws = object_store_reads +
  assumes put_ok: "os_put st p b s = (Inr u, s') \<Longrightarrow>
          contents s' = (contents s)(p \<mapsto> \<lparr>so_body = b, so_attrs = []\<rparr>)"
    and put_failed: "os_put st p b s = (Inl e, s') \<Longrightarrow>
          contents s' = contents s \<or> contents s' = (contents s)(p \<mapsto> \<lparr>so_body = b, so_attrs = []\<rparr>)"
    and create_ok: "os_put_opts st p b opts s = (Inr u, s') \<Longrightarrow> po_mode opts = Create \<Longrightarrow>
          marker_usable (contents s) opts \<Longrightarrow> created p b opts (contents s) (contents s')"
    and create_failed: "os_put_opts st p b opts s = (Inl e, s') \<Longrightarrow> po_mode opts = Create \<Longrightarrow>
          po_marker opts \<noteq> Some None \<Longrightarrow>
          contents s' = contents s \<or> created p b opts (contents s) (contents s')"
    and create_conflict: "os_put_opts st p b opts s = (Inl e, s') \<Longrightarrow> is_conflict e \<Longrightarrow>
          po_mode opts = Create \<Longrightarrow> contents s' p \<noteq> None"
    and delete_ok: "os_delete st p s = (Inr u, s') \<Longrightarrow> contents s' = (contents s)(p := None)"
    and delete_failed: "os_delete st p s = (Inl e, s') \<Longrightarrow>
          contents s' = contents s \<or> contents s' = (contents s)(p := None)"


section \<open>The retry layer keeps the laws of a read\<close>

lemma retry_invariant:
  assumes "\<And>s r s'. op s = (r, s') \<Longrightarrow> P s \<Longrightarrow> P s'" and "P s" and "retry_operation k w op s = (r, s')"
  shows "P s'"
  using assms(2,3)
proof (induction k arbitrary: s)
  case 0
  then show ?case using assms(1) by simp
next
  case (Suc k)
  then show ?case
    using assms(1) by (auto split: prod.splits sum.splits if_splits)
qed

text \<open>The result of a retried operation is the result of one of its attempts.\<close>

lemma retry_result:
  assumes "\<And>a b c. op a = (b, c) \<Longrightarrow> P a \<Longrightarrow> P c" and "P s" and "retry_operation k w op s = (r, s')"
  shows "\<exists>s0. op s0 = (r, s') \<and> P s0"
  using assms(2,3)
proof (induction k arbitrary: s)
  case 0
  then show ?case by auto
next
  case (Suc k)
  obtain r1 s1 where op: "op s = (r1, s1)" by fastforce
  then have "P s1" using assms(1) Suc.prems(1) by blast
  with Suc op show ?case by (cases r1) (auto split: if_splits)
qed

lemma retry_first_ok: "op s = (Inr x, s') \<Longrightarrow> retry_operation k w op s = (Inr x, s')"
  by (cases k) auto

lemma self_verifying_fields [simp]:
  "os_get (SelfVerifyingCreateStore g st) = os_get st"
  "os_head (SelfVerifyingCreateStore g st) = os_head st"
  "os_put (SelfVerifyingCreateStore g st) = os_put st"
  "os_put_opts (SelfVerifyingCreateStore g st) = self_verifying_put_opts st g"
  "os_list (SelfVerifyingCreateStore g st) = os_list st"
  "os_list_with_offset (SelfVerifyingCreateStore g st) = os_list_with_offset st"
  "os_delete (SelfVerifyingCreateStore g st) = os_delete st"
  by (simp_all add: SelfVerifyingCreateStore_def)

context object_store_reads
begin

lemma head_retries_frame:
  assumes "get_opts_with_retries st k p s = (r, s')"
  shows "contents s' = contents s"
  using retry_invariant [of "os_head st p" "\<lambda>x. contents x = contents s"] assms
  unfolding get_opts_with_retries_def by (metis head_frame)

lemma head_retries_ok:
  assumes "get_opts_with_retries st k p s = (Inr a, s')"
  shows "\<exists>x. contents s p = Some x \<and> so_attrs x = a"
proof -
  obtain s0 where "os_head st p s0 = (Inr a, s')" "contents s0 = contents s"
    using retry_result [of "os_head st p" "\<lambda>x. contents x = contents s",
        OF _ refl assms [unfolded get_opts_with_retries_def]] head_frame by fastforce
  then show ?thesis using head_ok by metis
qed

lemma verify_frame: "verify st p n s = (r, s') \<Longrightarrow> contents s' = contents s"
  using head_retries_frame [of "READ_BACK_ATTEMPTS - 1" p s]
  by (auto simp: verify_def split: prod.splits sum.splits nonce_verdict.splits)

lemma verify_ok:
  "verify st p n s = (Inr u, s') \<Longrightarrow> \<exists>x. contents s p = Some x \<and> nonce_check (so_attrs x) n = Ours"
  using head_retries_ok [of "READ_BACK_ATTEMPTS - 1" p s]
  by (auto simp: verify_def split: prod.splits sum.splits nonce_verdict.splits)

lemma verify_failed: "verify st p n s = (Inl e, s') \<Longrightarrow> e = AlreadyExists"
  by (auto simp: verify_def split: prod.splits sum.splits nonce_verdict.splits)

end

section \<open>The verifying store keeps the laws\<close>

text \<open>The cases of a marked create: the backend's own reply, or the verdict of the read-back.\<close>

lemma marked_create_cases:
  assumes "self_verifying_put_opts st g p b opts s = (r, s')" and "po_marker opts = Some m"
    and "po_mode opts = Create"
  obtains (reply) o' where "os_put_opts st p b o' s = (r, s')" "po_mode o' = Create" "po_marker o' = None"
      "\<And>e. r = Inl e \<Longrightarrow> \<not> is_conflict e"
      "map_of (po_attributes o') PUT_NONCE_METADATA_KEY = Some (into_nonce g m)"
  | (verified) o' e s1 where "os_put_opts st p b o' s = (Inl e, s1)" "po_mode o' = Create"
      "po_marker o' = None" "is_conflict e" "verify st p (into_nonce g m) s1 = (r, s')"
      "map_of (po_attributes o') PUT_NONCE_METADATA_KEY = Some (into_nonce g m)"
proof -
  let ?o = "(opts\<lparr>po_marker := None\<rparr>)
     \<lparr>po_attributes := hm_insert PUT_NONCE_METADATA_KEY (into_nonce g m) (po_attributes opts)\<rparr>"
  obtain r1 s1 where put: "os_put_opts st p b ?o s = (r1, s1)" by fastforce
  have attr: "map_of (po_attributes ?o) PUT_NONCE_METADATA_KEY = Some (into_nonce g m)"
    by (simp add: map_of_hm_insert)
  show thesis
  proof (cases "\<exists>e. r1 = Inl e \<and> is_conflict e")
    case True
    then obtain e where e: "r1 = Inl e" "is_conflict e" by blast
    have "verify st p (into_nonce g m) s1 = (r, s')"
      using assms put e by (simp add: self_verifying_put_opts_def Let_def)
    with put e attr assms(3) show thesis by (intro verified [of ?o e s1]) simp_all
  next
    case False
    then have "(r1, s1) = (r, s')"
      using assms put by (auto simp: self_verifying_put_opts_def Let_def split: sum.splits if_splits)
    with put False assms(3) attr show thesis by (intro reply [of ?o]) auto
  qed
qed

text \<open>The options handed to the backend carry no nonce but the marker's.\<close>

lemma created_inner:
  assumes "created p b o' c c'" and "po_marker o' = None" and "po_marker opts = Some m" and "m = Some n"
    and "map_of (po_attributes o') PUT_NONCE_METADATA_KEY = Some (into_nonce g m)"
  shows "created p b opts c c'"
  using assms by (auto simp: created_def carries_nonce_def into_nonce_def)

context object_store_laws
begin

lemma self_verifying_create_ok:
  assumes put: "self_verifying_put_opts st g p b opts s = (Inr u, s')" and mode: "po_mode opts = Create"
    and usable: "marker_usable (contents s) opts"
  shows "created p b opts (contents s) (contents s')"
proof (cases "po_marker opts")
  case None
  then show ?thesis using put create_ok mode usable by (simp add: self_verifying_put_opts_def)
next
  case (Some m)
  with usable obtain n where n: "m = Some n" "nonce_fresh (contents s) n"
    by (auto simp: marker_usable_def split: option.splits)
  from put Some mode show ?thesis
  proof (cases rule: marked_create_cases)
    case (reply o')
    then have "created p b o' (contents s) (contents s')"
      using create_ok [of p b o'] by (simp add: marker_usable_def)
    then show ?thesis by (auto intro: created_inner [OF _ reply(3) Some n(1) reply(5)])
  next
    case (verified o' e s1)
    from verify_ok [OF verified(5)] obtain x where
      "contents s1 p = Some x" "nonce_check (so_attrs x) n = Ours"
      by (auto simp: n into_nonce_def)
    with n(2) have "contents s1 \<noteq> contents s" by (auto simp: nonce_fresh_def)
    with create_failed [OF verified(1,2)] verified(3)
    have "created p b o' (contents s) (contents s1)" by simp
    then have "created p b opts (contents s) (contents s1)"
      by (auto intro: created_inner [OF _ verified(3) Some n(1) verified(6)])
    then show ?thesis using verify_frame [OF verified(5)] by simp
  qed
qed

lemma self_verifying_create_failed:
  assumes put: "self_verifying_put_opts st g p b opts s = (Inl e, s')" and mode: "po_mode opts = Create"
    and marker: "po_marker opts \<noteq> Some None"
  shows "contents s' = contents s \<or> created p b opts (contents s) (contents s')"
proof (cases "po_marker opts")
  case None
  then show ?thesis using put create_failed mode marker by (simp add: self_verifying_put_opts_def)
next
  case (Some m)
  with marker obtain n where n: "m = Some n" by auto
  from put Some mode show ?thesis
  proof (cases rule: marked_create_cases)
    case (reply o')
    then have "contents s' = contents s \<or> created p b o' (contents s) (contents s')"
      using create_failed [of p b o' s e] by simp
    then show ?thesis by (auto intro: created_inner [OF _ reply(3) Some n reply(5)])
  next
    case (verified o' e1 s1)
    then have "contents s1 = contents s \<or> created p b o' (contents s) (contents s1)"
      using create_failed [OF verified(1,2)] by simp
    then have "contents s1 = contents s \<or> created p b opts (contents s) (contents s1)"
      by (auto intro: created_inner [OF _ verified(3) Some n verified(6)])
    then show ?thesis using verify_frame [OF verified(5)] by simp
  qed
qed

lemma self_verifying_create_conflict:
  assumes put: "self_verifying_put_opts st g p b opts s = (Inl e, s')" and "is_conflict e"
    and mode: "po_mode opts = Create"
  shows "contents s' p \<noteq> None"
proof (cases "po_marker opts")
  case None
  then show ?thesis using assms create_conflict by (simp add: self_verifying_put_opts_def)
next
  case (Some m)
  from put Some mode show ?thesis
  proof (cases rule: marked_create_cases)
    case (verified o' e1 s1)
    then show ?thesis
      using create_conflict [OF verified(1,4,2)] verify_frame [OF verified(5)] by simp
  qed (use assms(2) in simp)
qed

lemma self_verifying_laws: "object_store_laws (SelfVerifyingCreateStore g st) contents"
proof (unfold_locales, unfold self_verifying_fields)
  fix p b opts s u s'
  assume "self_verifying_put_opts st g p b opts s = (Inr u, s')" "po_mode opts = Create"
    "marker_usable (contents s) opts"
  then show "created p b opts (contents s) (contents s')" by (rule self_verifying_create_ok)
next
  fix p b opts s e s'
  assume "self_verifying_put_opts st g p b opts s = (Inl e, s')" "po_mode opts = Create"
    "po_marker opts \<noteq> Some None"
  then show "contents s' = contents s \<or> created p b opts (contents s) (contents s')"
    by (rule self_verifying_create_failed)
next
  fix p b opts s e s'
  assume "self_verifying_put_opts st g p b opts s = (Inl e, s')" "is_conflict e" "po_mode opts = Create"
  then show "contents s' p \<noteq> None" by (rule self_verifying_create_conflict)
qed (erule get_ok get_not_found get_frame head_ok head_frame list_ok list_frame list_offset_ok
    list_offset_frame put_ok put_failed delete_ok delete_failed)+

end

lemma mem_store_fields [simp]:
  "os_get mem_store p m = (case map_of m p of None \<Rightarrow> Inl NotFound | Some x \<Rightarrow> Inr x, m)"
  "os_head mem_store p m = (case map_of m p of None \<Rightarrow> Inl NotFound | Some x \<Rightarrow> Inr (so_attrs x), m)"
  "os_put mem_store p b m = (Inr (), hm_insert p \<lparr>so_body = b, so_attrs = []\<rparr> m)"
  "os_put_opts mem_store p b opts m =
     (if po_mode opts = Create \<and> map_of m p \<noteq> None then (Inl AlreadyExists, m)
      else (Inr (), hm_insert p \<lparr>so_body = b, so_attrs = po_attributes opts\<rparr> m))"
  "os_list mem_store pre m = (Inr (remdups (map fst (filter (\<lambda>(p, x). under pre p) m))), m)"
  "os_list_with_offset mem_store pre off m =
     (Inr (remdups (map fst (filter (\<lambda>(p, x). under pre p \<and> off < p) m))), m)"
  "os_delete mem_store p m = (if map_of m p = None then Inl NotFound else Inr (), hm_remove p m)"
  by (simp_all add: mem_store_def)

lemma map_of_not_None: "map_of m p \<noteq> None \<longleftrightarrow> p \<in> fst ` set m"
  by (simp add: map_of_eq_None_iff)

lemma set_mem_listing:
  "set (remdups (map fst (filter (\<lambda>(p, x). P p) m))) = {p. map_of m p \<noteq> None \<and> P p}"
proof -
  have "set (remdups (map fst (filter (\<lambda>(p, x). P p) m))) = {p \<in> fst ` set m. P p}" by force
  then show ?thesis by (simp only: map_of_not_None)
qed

interpretation mem: object_store_laws mem_store map_of
proof (unfold_locales, goal_cases)
  case (6 pre s ps s')
  then show ?case using set_mem_listing [of "under pre" s] by auto
next
  case (8 pre off s ps s')
  then show ?case using set_mem_listing [of "\<lambda>p. under pre p \<and> off < p" s] by auto
qed (auto simp: map_of_hm_insert map_of_hm_remove created_def nonce_check_def carries_nonce_def
    split: option.splits if_splits)

interpretation sv_mem: object_store_laws "SelfVerifyingCreateStore g mem_store" map_of for g
  by (rule mem.self_verifying_laws)

lemma reads_back_retries:
  "reads_back j st p s \<Longrightarrow> j \<le> k \<Longrightarrow> \<exists>a s'. get_opts_with_retries st k p s = (Inr a, s')"
proof (induction j arbitrary: s k)
  case 0
  then show ?case by (auto simp: get_opts_with_retries_def retry_first_ok)
next
  case (Suc j)
  then obtain s1 k' where "os_head st p s = (Inl OtherError, s1)" "reads_back j st p s1" "k = Suc k'" "j \<le> k'"
    by (cases k) auto
  with Suc.IH [of s1 k'] show ?case by (simp add: get_opts_with_retries_def)
qed

section \<open>Properties\<close>

text \<open>Claim C16. A marked create over any backend that keeps its documented laws, with a nonce no stored
  object carries, reports success only when the path was free and now holds the writer's own body,
  and nothing else changed; when it reports a failure the store is unchanged or holds exactly that
  write, and when it reports a conflict the path is occupied.  No other writer's object is ever
  taken for the caller's.\<close>

theorem self_verifying_create_sound:
  assumes "object_store_laws st contents" and "nonce_fresh (contents s) n"
    and "opts = SelfVerifyingCreate_put_options (SelfVerifyingCreate_with_nonce n)"
    and "os_put_opts (SelfVerifyingCreateStore g st) p b opts s = (r, s')"
  shows "(case r of
            Inr u \<Rightarrow> created p b opts (contents s) (contents s')
          | Inl e \<Rightarrow> (contents s' = contents s \<or> created p b opts (contents s) (contents s')) \<and>
                    (is_conflict e \<longrightarrow> contents s' p \<noteq> None))"
proof -
  have o: "po_mode opts = Create" "marker_usable (contents s) opts" "po_marker opts \<noteq> Some None"
    using assms(2)
    by (simp_all add: assms(3) SelfVerifyingCreate_put_options_def SelfVerifyingCreate_with_nonce_def
        marker_usable_def)
  note put = assms(4) [unfolded self_verifying_fields]
  show ?thesis
  proof (cases r)
    case (Inl e)
    then show ?thesis
      using object_store_laws.self_verifying_create_failed [OF assms(1) put [unfolded Inl] o(1,3)]
        object_store_laws.self_verifying_create_conflict [OF assms(1) put [unfolded Inl] _ o(1)] by simp
  next
    case (Inr u)
    then show ?thesis
      using object_store_laws.self_verifying_create_ok [OF assms(1) put [unfolded Inr] o(1,2)] by simp
  qed
qed

theorem self_verifying_create_sound_witness:
  "created ''a'' (1::nat) (SelfVerifyingCreate_put_options (SelfVerifyingCreate_with_nonce ''n''))
     (map_of []) (map_of (snd (os_put_opts (SelfVerifyingCreateStore ''g'' mem_store)
     ''a'' 1 (SelfVerifyingCreate_put_options (SelfVerifyingCreate_with_nonce ''n'')) [])))"
proof -
  let ?put = "os_put_opts (SelfVerifyingCreateStore ''g'' mem_store) ''a'' (1::nat)
     (SelfVerifyingCreate_put_options (SelfVerifyingCreate_with_nonce ''n'')) []"
  have "nonce_fresh (map_of []) ''n''" by (simp add: nonce_fresh_def)
  moreover have "?put = (Inr (), snd ?put)"
    by (simp add: self_verifying_put_opts_def SelfVerifyingCreate_put_options_def)
  ultimately show ?thesis
    using self_verifying_create_sound [OF mem.object_store_laws_axioms, of "[]" "''n''" _ "''g''" "''a''" 1, OF _ refl]
    by fastforce
qed

text \<open>A create that landed although the backend replied with a conflict, because its client
  had retried internally, is reported as a success: the backend retains object metadata and the
  read-back succeeds within its three attempts.\<close>

theorem hidden_success_is_reported:
  assumes "object_store_laws st contents"
    and "os_put_opts st p b \<lparr>po_mode = Create, po_attributes = [(PUT_NONCE_METADATA_KEY, n)],
           po_marker = None\<rparr> s = (Inl e, s1)" and "is_conflict e"
    and "contents s1 p = Some \<lparr>so_body = b, so_attrs = [(PUT_NONCE_METADATA_KEY, n)]\<rparr>"
    and "reads_back j st p s1" and "j < READ_BACK_ATTEMPTS"
  shows "\<exists>s'. os_put_opts (SelfVerifyingCreateStore g st) p b
           (SelfVerifyingCreate_put_options (SelfVerifyingCreate_with_nonce n)) s = (Inr (), s') \<and>
         contents s' = contents s1"
proof -
  from reads_back_retries [OF assms(5), of "READ_BACK_ATTEMPTS - 1"] assms(6)
  obtain a s' where read: "get_opts_with_retries st (READ_BACK_ATTEMPTS - 1) p s1 = (Inr a, s')"
    by (auto simp: less_eq_Suc_le [symmetric] READ_BACK_ATTEMPTS_def)
  have reads: "object_store_reads st contents"
    using assms(1) by (simp add: object_store_laws_def)
  from object_store_reads.head_retries_ok [OF reads read] assms(4)
  have "a = [(PUT_NONCE_METADATA_KEY, n)]" by auto
  with read have "verify st p n s1 = (Inr (), s')"
    by (simp add: verify_def nonce_check_def)
  moreover have "contents s' = contents s1"
    using object_store_reads.head_retries_frame [OF reads read] .
  ultimately show ?thesis
    using assms(2,3)
    by (simp add: self_verifying_put_opts_def SelfVerifyingCreate_put_options_def
        SelfVerifyingCreate_with_nonce_def into_nonce_def hm_insert_def Let_def)
qed

lemma hidden_success_fields [simp]:
  "os_get hidden_success_store = os_get mem_store"
  "os_head hidden_success_store = os_head mem_store"
  "os_put hidden_success_store = os_put mem_store"
  "os_list hidden_success_store = os_list mem_store"
  "os_list_with_offset hidden_success_store = os_list_with_offset mem_store"
  "os_delete hidden_success_store = os_delete mem_store"
  "os_put_opts hidden_success_store p b opts m =
     (if po_mode opts = Create \<and> map_of m p \<noteq> None then (Inl AlreadyExists, m)
      else (Inl AlreadyExists, hm_insert p \<lparr>so_body = b, so_attrs = po_attributes opts\<rparr> m))"
  by (simp_all add: hidden_success_store_def)

interpretation hidden: object_store_laws hidden_success_store map_of
proof (unfold_locales, unfold hidden_success_fields(1-6))
qed (erule mem.get_ok mem.get_not_found mem.get_frame mem.head_ok mem.head_frame mem.list_ok
      mem.list_frame mem.list_offset_ok mem.list_offset_frame mem.put_ok mem.put_failed
      mem.delete_ok mem.delete_failed |
    auto simp: map_of_hm_insert map_of_hm_remove created_def nonce_check_def carries_nonce_def
      split: if_splits option.splits)+

theorem hidden_success_is_reported_witness:
  "\<exists>s'. os_put_opts (SelfVerifyingCreateStore ''g'' hidden_success_store) ''a'' (1::nat)
     (SelfVerifyingCreate_put_options (SelfVerifyingCreate_with_nonce ''n'')) [] = (Inr (), s')"
proof -
  let ?s1 = "[(''a'', \<lparr>so_body = 1::nat, so_attrs = [(PUT_NONCE_METADATA_KEY, ''n'')]\<rparr>)]"
  have put: "os_put_opts hidden_success_store ''a'' (1::nat)
      \<lparr>po_mode = Create, po_attributes = [(PUT_NONCE_METADATA_KEY, ''n'')], po_marker = None\<rparr> []
      = (Inl AlreadyExists, ?s1)" by (simp add: hm_insert_def)
  have "\<exists>s'. os_put_opts (SelfVerifyingCreateStore ''g'' hidden_success_store) ''a'' (1::nat)
      (SelfVerifyingCreate_put_options (SelfVerifyingCreate_with_nonce ''n'')) [] = (Inr (), s') \<and>
      map_of s' = map_of ?s1"
    by (rule hidden_success_is_reported [OF hidden.object_store_laws_axioms put, where j = 0])
      (simp_all add: is_conflict_def READ_BACK_ATTEMPTS_def)
  then show ?thesis by blast
qed

end
