(* ===== verification/Path_Names.thy ===== *)
theory Path_Names
  imports Prelude
begin

text \<open>
  Object names.  Several parts of the system order work by listing a prefix of the object store, so
  the names they build must sort as the numbers in them do: the shared log and the write-ahead log
  ascending, snapshots and checkpoints descending through an inverted stem
  (\<open>influxdb3_cluster/src/file_index/log.rs\<close>, \<open>influxdb3_write/src/paths.rs\<close>,
  \<open>influxdb3_wal/src/object_store.rs\<close>).  Decimal formatting and integer parsing are those of Rust's
  standard library; the calendar text of a chunk time comes from the \<open>chrono\<close> crate and is a
  parameter of the one name that contains it.
\<close>

section \<open>Decimal text\<close>

definition digit_char :: "nat \<Rightarrow> char" where
  "digit_char d = char_of (48 + d)"

definition is_digit :: "char \<Rightarrow> bool" where
  "is_digit c \<longleftrightarrow> 48 \<le> (of_char c :: nat) \<and> (of_char c :: nat) \<le> 57"

definition digit_value :: "char \<Rightarrow> nat" where
  "digit_value c = of_char c - 48"

fun show_nat :: "nat \<Rightarrow> string" where
  "show_nat n = (if n < 10 then [digit_char n] else show_nat (n div 10) @ [digit_char (n mod 10)])"

declare show_nat.simps [simp del]

text \<open>The format \<open>{:0w}\<close>: at least \<open>w\<close> characters, zeros on the left.\<close>

definition pad0 :: "nat \<Rightarrow> nat \<Rightarrow> string" where
  "pad0 w n = (let s = show_nat n in replicate (w - length s) (CHR ''0'') @ s)"

fun parse_digits :: "nat \<Rightarrow> string \<Rightarrow> nat option" where
  "parse_digits acc [] = Some acc"
| "parse_digits acc (c # cs) =
     (if is_digit c then parse_digits (acc * 10 + digit_value c) cs else None)"

text \<open>\<open>str::parse\<close> for an unsigned integer: one leading plus sign is accepted, an empty digit
  string and an overflow are errors.\<close>

definition parse_uint :: "nat \<Rightarrow> string \<Rightarrow> nat option" where
  "parse_uint max_value s =
     (let ds = (case s of [] \<Rightarrow> [] | c # cs \<Rightarrow> if c = CHR ''+'' \<and> cs \<noteq> [] then cs else s)
      in if ds = [] then None
         else case parse_digits 0 ds of
                None \<Rightarrow> None
              | Some v \<Rightarrow> if v \<le> max_value then Some v else None)"

definition strip_suffix :: "string \<Rightarrow> string \<Rightarrow> string option" where
  "strip_suffix suf s =
     (if length suf \<le> length s \<and> drop (length s - length suf) s = suf
      then Some (take (length s - length suf) s) else None)"

text \<open>\<open>split('/')\<close>: one more part than there are separators.\<close>

fun split_slash :: "string \<Rightarrow> string list" where
  "split_slash [] = [[]]"
| "split_slash (c # cs) =
     (if c = CHR ''/'' then [] # split_slash cs
      else (case split_slash cs of [] \<Rightarrow> [[c]] | p # ps \<Rightarrow> (c # p) # ps))"

definition filename :: "obj_path \<Rightarrow> string" where
  "filename p = last (split_slash p)"

section \<open>Names of the shared log\<close>

definition snapshot_path :: "string \<Rightarrow> obj_path" where
  "snapshot_path pre = pre @ ''/file-index/snapshot.json''"

definition logs_dir :: "string \<Rightarrow> obj_path" where
  "logs_dir pre = pre @ ''/file-index/logs''"

definition log_path :: "string \<Rightarrow> nat \<Rightarrow> obj_path" where
  "log_path pre s = pre @ ''/file-index/logs/'' @ pad0 20 s @ ''.json''"

text \<open>The position a log object's file name states, as the pruner reads it back.\<close>

definition log_seq_of_path :: "obj_path \<Rightarrow> nat option" where
  "log_seq_of_path p =
     (case strip_suffix ''.json'' (filename p) of
        None \<Rightarrow> None
      | Some ds \<Rightarrow> parse_uint u64_max ds)"

section \<open>Names of the write-ahead log\<close>

definition wal_path :: "string \<Rightarrow> nat \<Rightarrow> obj_path" where
  "wal_path pre n = pre @ ''/wal/'' @ pad0 11 n @ ''.wal''"

lemma strip_suffix_shorter: "strip_suffix suf s = Some s' \<Longrightarrow> suf \<noteq> [] \<Longrightarrow> length s' < length s"
  by (cases suf; cases s) (auto simp: strip_suffix_def split: if_splits)

text \<open>\<open>trim_end_matches\<close> removes the suffix as often as it occurs.\<close>

function trim_end_matches :: "string \<Rightarrow> string \<Rightarrow> string" where
  "trim_end_matches suf s =
     (if suf = [] then s
      else case strip_suffix suf s of None \<Rightarrow> s | Some s' \<Rightarrow> trim_end_matches suf s')"
  by pat_completeness auto
termination
  by (relation "measure (\<lambda>(suf, s). length s)") (auto simp: strip_suffix_shorter)

declare trim_end_matches.simps [simp del]

definition wal_seq_of_path :: "obj_path \<Rightarrow> nat option" where
  "wal_seq_of_path p =
     (let parts = split_slash p
      in if length parts \<noteq> 3 then None
         else parse_uint u64_max (trim_end_matches ''.wal'' (parts ! 2)))"

section \<open>Names of snapshots, checkpoints and parquet files\<close>

definition object_store_file_stem :: "nat \<Rightarrow> nat" where
  "object_store_file_stem n = u64_max - n"

definition SnapshotInfoFilePath_new :: "string \<Rightarrow> nat \<Rightarrow> obj_path" where
  "SnapshotInfoFilePath_new host s =
     host @ ''/snapshots/'' @ pad0 20 (object_store_file_stem s) @ ''.info.json''"

definition SnapshotInfoFilePath_dir :: "string \<Rightarrow> obj_path" where
  "SnapshotInfoFilePath_dir host = host @ ''/snapshots''"

definition snapshot_parse_sequence_number :: "string \<Rightarrow> nat option" where
  "snapshot_parse_sequence_number name =
     (case strip_suffix ''.info.json'' (filename name) of
        None \<Rightarrow> None
      | Some ds \<Rightarrow> map_option (\<lambda>inverted. u64_max - inverted) (parse_uint u64_max ds))"

record year_month =
  ym_year :: nat
  ym_month :: nat

definition show_year_month :: "year_month \<Rightarrow> string" where
  "show_year_month ym = pad0 4 (ym_year ym) @ ''-'' @ pad0 2 (ym_month ym)"

datatype year_month_error = InvalidMonth nat | InvalidFormat string

definition parse_year_month :: "string \<Rightarrow> year_month_error + year_month" where
  "parse_year_month s =
     (if length s \<noteq> 7 \<or> s ! 4 \<noteq> CHR ''-'' then Inl (InvalidFormat s)
      else case parse_uint (2 ^ 16 - 1) (take 4 s) of
             None \<Rightarrow> Inl (InvalidFormat s)
           | Some y \<Rightarrow>
               (case parse_uint (2 ^ 8 - 1) (drop 5 s) of
                  None \<Rightarrow> Inl (InvalidFormat s)
                | Some m \<Rightarrow>
                    if 1 \<le> m \<and> m \<le> 12 then Inr \<lparr>ym_year = y, ym_month = m\<rparr>
                    else Inl (InvalidMonth m)))"

definition SnapshotCheckpointPath_new :: "string \<Rightarrow> year_month \<Rightarrow> nat \<Rightarrow> obj_path" where
  "SnapshotCheckpointPath_new host ym s =
     host @ ''/snapshot-checkpoints/'' @ show_year_month ym @ ''/'' @
     pad0 20 (object_store_file_stem s) @ ''.checkpoint.json''"

definition SnapshotCheckpointPath_dir :: "string \<Rightarrow> obj_path" where
  "SnapshotCheckpointPath_dir host = host @ ''/snapshot-checkpoints''"

text \<open>A path drops the empty segment after a final slash.\<close>

definition SnapshotCheckpointPath_month_dir :: "string \<Rightarrow> year_month \<Rightarrow> obj_path" where
  "SnapshotCheckpointPath_month_dir host ym =
     host @ ''/snapshot-checkpoints/'' @ show_year_month ym"

definition checkpoint_parse_sequence_number :: "string \<Rightarrow> nat option" where
  "checkpoint_parse_sequence_number name =
     (case strip_suffix ''.checkpoint.json'' (filename name) of
        None \<Rightarrow> None
      | Some ds \<Rightarrow> map_option (\<lambda>inverted. u64_max - inverted) (parse_uint u64_max ds))"

definition ParquetFilePath_new_with_chunk_ordinal ::
  "(time_ns \<Rightarrow> string) \<Rightarrow> string \<Rightarrow> nat \<Rightarrow> nat \<Rightarrow> time_ns \<Rightarrow> nat \<Rightarrow> nat \<Rightarrow> obj_path" where
  "ParquetFilePath_new_with_chunk_ordinal date_string host d t chunk_time wal_seq ord =
     host @ ''/dbs/'' @ show_nat d @ ''/'' @ show_nat t @ ''/'' @ date_string chunk_time @ ''/'' @
     pad0 10 wal_seq @ (if ord = 0 then [] else ''-'' @ show_nat ord) @ ''.parquet''"

definition ParquetFilePath_new ::
  "(time_ns \<Rightarrow> string) \<Rightarrow> string \<Rightarrow> nat \<Rightarrow> nat \<Rightarrow> time_ns \<Rightarrow> nat \<Rightarrow> obj_path" where
  "ParquetFilePath_new date_string host d t chunk_time wal_seq =
     ParquetFilePath_new_with_chunk_ordinal date_string host d t chunk_time wal_seq 0"

section \<open>Decimal text: lemmas\<close>

text \<open>Exactly \<open>w\<close> digits, the shape a padded number has while it fits.\<close>

primrec fixed_digits :: "nat \<Rightarrow> nat \<Rightarrow> string" where
  "fixed_digits 0 n = []"
| "fixed_digits (Suc w) n = fixed_digits w (n div 10) @ [digit_char (n mod 10)]"

lemma length_fixed_digits [simp]: "length (fixed_digits w n) = w"
  by (induction w arbitrary: n) auto

lemma of_digit_char: "d < 10 \<Longrightarrow> (of_char (digit_char d) :: nat) = 48 + d"
  by (simp add: digit_char_def)

lemma digit_char_less: "d < e \<Longrightarrow> e < 10 \<Longrightarrow> digit_char d < digit_char e"
  by (simp add: less_char_def of_digit_char)

lemma is_digit_digit_char [simp]: "d < 10 \<Longrightarrow> is_digit (digit_char d)"
  by (simp add: is_digit_def of_digit_char)

lemma digit_value_digit_char [simp]: "d < 10 \<Longrightarrow> digit_value (digit_char d) = d"
  by (simp add: digit_value_def of_digit_char)

lemma digit_char_0: "digit_char 0 = CHR ''0''"
  by code_simp

lemma fixed_digits_0: "fixed_digits w 0 = replicate w (CHR ''0'')"
  by (induction w) (auto simp: digit_char_0 replicate_append_same)

lemma show_nat_fixed: "0 < w \<Longrightarrow> n < 10 ^ w \<Longrightarrow> length (show_nat n) \<le> w \<and>
    replicate (w - length (show_nat n)) (CHR ''0'') @ show_nat n = fixed_digits w n"
proof (induction n arbitrary: w rule: show_nat.induct)
  case (1 n)
  obtain v where w: "w = Suc v" using \<open>0 < w\<close> by (cases w) auto
  show ?case
  proof (cases "n < 10")
    case True
    then show ?thesis by (simp add: show_nat.simps w fixed_digits_0)
  next
    case False
    then have v: "0 < v" using 1(3) w by (cases v) auto
    have "n div 10 < 10 ^ v" using 1(3) w by (simp add: less_mult_imp_div_less mult.commute)
    from 1(1) [OF False v this] False show ?thesis
      by (simp add: show_nat.simps [of n] w Suc_diff_le)
  qed
qed

lemma pad0_fixed: "0 < w \<Longrightarrow> n < 10 ^ w \<Longrightarrow> pad0 w n = fixed_digits w n"
  using show_nat_fixed by (simp add: pad0_def)

lemma append_less_same_length:
  "length a = length b \<Longrightarrow> a < b \<Longrightarrow> a @ x < b @ (y :: 'a::linorder list)"
proof (induction a b rule: list_induct2)
  case (Cons x xs y ys)
  then show ?case by auto
qed simp

lemma append_less_cancel: "(p @ a < p @ b) = (a < (b :: 'a::linorder list))"
  by (induction p) auto

lemma fixed_digits_less: "m < n \<Longrightarrow> n < 10 ^ w \<Longrightarrow> fixed_digits w m < fixed_digits w n"
proof (induction w arbitrary: m n)
  case (Suc w)
  show ?case
  proof (cases "m div 10 < n div 10")
    case True
    have "n div 10 < 10 ^ w" using Suc.prems(2) by (simp add: less_mult_imp_div_less mult.commute)
    from append_less_same_length [OF _ Suc.IH [OF True this]] show ?thesis by simp
  next
    case False
    with Suc.prems(1) have eq: "m div 10 = n div 10"
      by (meson div_le_mono le_less_trans less_or_eq_imp_le linorder_neqE_nat not_less)
    with Suc.prems(1) have "m mod 10 < n mod 10"
      by (metis div_mult_mod_eq nat_add_left_cancel_less)
    then have "digit_char (m mod 10) < digit_char (n mod 10)" by (rule digit_char_less) simp
    then show ?thesis unfolding fixed_digits.simps eq append_less_cancel by simp
  qed
qed simp

lemma parse_digits_append:
  "parse_digits acc (a @ b) = (case parse_digits acc a of None \<Rightarrow> None | Some v \<Rightarrow> parse_digits v b)"
  by (induction a arbitrary: acc) auto

lemma parse_fixed_digits: "n < 10 ^ w \<Longrightarrow> parse_digits 0 (fixed_digits w n) = Some n"
proof (induction w arbitrary: n)
  case (Suc w)
  then have "n div 10 < 10 ^ w" by (simp add: less_mult_imp_div_less mult.commute)
  from Suc.IH [OF this] show ?case by (simp add: parse_digits_append)
qed simp

lemma fixed_digits_all_digits: "c \<in> set (fixed_digits w n) \<Longrightarrow> is_digit c"
  by (induction w arbitrary: n) auto

lemma parse_uint_pad0:
  assumes "0 < w" "n < 10 ^ w" "n \<le> mx"
  shows "parse_uint mx (pad0 w n) = Some n"
proof -
  have "fixed_digits w n \<noteq> []" using assms(1) by (metis length_fixed_digits less_numeral_extra(3) list.size(3))
  then obtain c cs where c: "fixed_digits w n = c # cs" by (meson neq_Nil_conv)
  have "is_digit c" using fixed_digits_all_digits [of c w n] c by simp
  then have "c \<noteq> CHR ''+''" by (auto simp: is_digit_def)
  with c parse_fixed_digits [OF assms(2)] assms(3) show ?thesis
    by (simp add: parse_uint_def pad0_fixed assms(1,2))
qed

lemma strip_suffix_append [simp]: "strip_suffix suf (s @ suf) = Some s"
  by (simp add: strip_suffix_def)

lemma split_slash_no_slash: "CHR ''/'' \<notin> set s \<Longrightarrow> split_slash s = [s]"
  by (induction s) auto

lemma split_slash_not_Nil [simp]: "split_slash s \<noteq> []"
  by (induction s) (auto split: list.splits)

lemma split_slash_append: "split_slash (a @ CHR ''/'' # b) = split_slash a @ split_slash b"
  by (induction a) (auto split: list.splits)

lemma filename_append:
  "CHR ''/'' \<notin> set b \<Longrightarrow> filename (a @ CHR ''/'' # b) = b"
  by (simp add: filename_def split_slash_append split_slash_no_slash)

lemma fixed_digits_no_slash: "CHR ''/'' \<notin> set (fixed_digits w n)"
  using fixed_digits_all_digits [of "CHR ''/''" w n] by (auto simp: is_digit_def)

lemma u64_max_less: "u64_max < 10 ^ 20"
  by (simp add: u64_max_def)

lemma stem_less: "object_store_file_stem n < 10 ^ 20"
  using u64_max_less by (simp add: object_store_file_stem_def)

section \<open>Order and round trips of the names\<close>

lemma log_path_fixed:
  "s \<le> u64_max \<Longrightarrow> log_path pre s = pre @ ''/file-index/logs/'' @ fixed_digits 20 s @ ''.json''"
  using u64_max_less by (simp add: log_path_def pad0_fixed)

lemma log_path_less_iff:
  assumes "m \<le> u64_max" "n \<le> u64_max"
  shows "log_path pre m < log_path pre n \<longleftrightarrow> m < n"
proof -
  have less: "log_path pre a < log_path pre b" if "a < b" "b \<le> u64_max" for a b
    using that u64_max_less
    by (simp add: log_path_fixed append_less_cancel append_less_same_length fixed_digits_less)
  show ?thesis
    using less [of m n] less [of n m] assms by (metis less_asym linorder_neqE_nat order_less_irrefl)
qed

lemma log_path_inj:
  "m \<le> u64_max \<Longrightarrow> n \<le> u64_max \<Longrightarrow> log_path pre m = log_path pre n \<longleftrightarrow> m = n"
  using log_path_less_iff by (metis linorder_neqE_nat order_less_irrefl)

lemma filename_in_dir: "p = dir @ CHR ''/'' # name \<Longrightarrow> CHR ''/'' \<notin> set name \<Longrightarrow> filename p = name"
  using filename_append by blast

lemma parse_fixed: "0 < w \<Longrightarrow> n < 10 ^ w \<Longrightarrow> n \<le> mx \<Longrightarrow> parse_uint mx (fixed_digits w n) = Some n"
  using parse_uint_pad0 pad0_fixed by metis

lemma log_seq_of_log_path:
  assumes "s \<le> u64_max"
  shows "log_seq_of_path (log_path pre s) = Some s"
proof -
  have "filename (log_path pre s) = fixed_digits 20 s @ ''.json''"
    by (rule filename_in_dir [of _ "pre @ ''/file-index/logs''"])
      (simp_all add: log_path_fixed assms fixed_digits_no_slash)
  then show ?thesis
    using assms u64_max_less by (simp add: log_seq_of_path_def parse_fixed)
qed

lemma stem_stem: "s \<le> u64_max \<Longrightarrow> u64_max - object_store_file_stem s = s"
  by (simp add: object_store_file_stem_def)

lemma parse_stem: "parse_uint u64_max (fixed_digits 20 (object_store_file_stem s)) = Some (object_store_file_stem s)"
  by (rule parse_fixed) (simp_all add: stem_less [simplified], simp add: object_store_file_stem_def)

lemma snapshot_name_parse:
  assumes "s \<le> u64_max"
  shows "snapshot_parse_sequence_number (SnapshotInfoFilePath_new pre s) = Some s"
proof -
  have "filename (SnapshotInfoFilePath_new pre s) =
      fixed_digits 20 (object_store_file_stem s) @ ''.info.json''"
    by (rule filename_in_dir [of _ "pre @ ''/snapshots''"])
      (simp_all add: SnapshotInfoFilePath_new_def pad0_fixed stem_less [simplified] fixed_digits_no_slash)
  then show ?thesis
    using stem_stem [OF assms] by (simp add: snapshot_parse_sequence_number_def parse_stem)
qed

lemma checkpoint_name_parse:
  assumes "s \<le> u64_max"
  shows "checkpoint_parse_sequence_number (SnapshotCheckpointPath_new pre ym s) = Some s"
proof -
  have "filename (SnapshotCheckpointPath_new pre ym s) =
      fixed_digits 20 (object_store_file_stem s) @ ''.checkpoint.json''"
    by (rule filename_in_dir [of _ "pre @ ''/snapshot-checkpoints/'' @ show_year_month ym"])
      (simp_all add: SnapshotCheckpointPath_new_def pad0_fixed stem_less [simplified] fixed_digits_no_slash)
  then show ?thesis
    using stem_stem [OF assms] by (simp add: checkpoint_parse_sequence_number_def parse_stem)
qed

lemma strip_suffix_digits:
  assumes "\<And>c. c \<in> set s \<Longrightarrow> is_digit c" and "\<exists>c \<in> set suf. \<not> is_digit c"
  shows "strip_suffix suf s = None"
proof (rule ccontr)
  assume "strip_suffix suf s \<noteq> None"
  then have "suf = drop (length s - length suf) s" by (auto simp: strip_suffix_def split: if_splits)
  then have "set suf \<subseteq> set s" by (metis set_drop_subset)
  with assms show False by blast
qed

lemma trim_wal_digits: "trim_end_matches ''.wal'' (fixed_digits w n @ ''.wal'') = fixed_digits w n"
proof -
  have "\<exists>c \<in> set ''.wal''. \<not> is_digit c" by (auto simp: is_digit_def)
  then have "strip_suffix ''.wal'' (fixed_digits w n) = None"
    by (intro strip_suffix_digits fixed_digits_all_digits)
  then show ?thesis
    by (simp add: trim_end_matches.simps [of _ "fixed_digits w n @ _"] trim_end_matches.simps [of _ "fixed_digits w n"])
qed

lemma wal_name_parse:
  assumes "CHR ''/'' \<notin> set pre" and "s < 10 ^ 11"
  shows "wal_seq_of_path (wal_path pre s) = Some s"
proof -
  have "wal_path pre s = pre @ CHR ''/'' # (''wal'' @ CHR ''/'' # (fixed_digits 11 s @ ''.wal''))"
    using assms(2) by (simp add: wal_path_def pad0_fixed)
  then have "split_slash (wal_path pre s) = [pre, ''wal'', fixed_digits 11 s @ ''.wal'']"
    using assms(1) fixed_digits_no_slash
    by (simp only: split_slash_append) (simp add: split_slash_no_slash)
  moreover have "s \<le> u64_max" using assms(2) by (simp add: u64_max_def)
  ultimately show ?thesis
    using assms(2) parse_fixed [of 11 s u64_max] by (simp add: wal_seq_of_path_def trim_wal_digits)
qed

lemma year_month_parse:
  assumes "ym_year ym < 10 ^ 4" "1 \<le> ym_month ym" "ym_month ym \<le> 12"
  shows "parse_year_month (show_year_month ym) = Inr ym"
proof -
  have "show_year_month ym = fixed_digits 4 (ym_year ym) @ CHR ''-'' # fixed_digits 2 (ym_month ym)"
    using assms by (simp add: show_year_month_def pad0_fixed)
  then show ?thesis
    using parse_fixed [of 4 "ym_year ym" 65535] parse_fixed [of 2 "ym_month ym" 255] assms
    by (simp add: parse_year_month_def nth_append)
qed

lemma snapshot_name_less:
  assumes "m < n" and "n \<le> u64_max"
  shows "SnapshotInfoFilePath_new pre n < SnapshotInfoFilePath_new pre m"
proof -
  have stem: "object_store_file_stem n < object_store_file_stem m"
    using assms by (simp add: object_store_file_stem_def)
  show ?thesis using fixed_digits_less [OF stem stem_less] stem_less
    by (simp add: SnapshotInfoFilePath_new_def pad0_fixed append_less_cancel append_less_same_length)
qed

lemma snapshot_name_inj:
  "m \<le> u64_max \<Longrightarrow> n \<le> u64_max \<Longrightarrow> SnapshotInfoFilePath_new pre m = SnapshotInfoFilePath_new pre n \<longleftrightarrow> m = n"
  using snapshot_name_less by (metis linorder_neqE_nat order_less_irrefl)

text \<open>Claim C26. Listing the write-ahead, snapshot and shared-log prefixes in name order is listing by
  number: shared-log and WAL names ascend with their sequence, snapshot names descend, for every
  64-bit snapshot or log sequence and every WAL sequence of at most eleven digits.\<close>

theorem object_names_sort_by_sequence:
  assumes "m < n" and "n \<le> u64_max"
  shows "log_path pre m < log_path pre n \<and>
         SnapshotInfoFilePath_new pre n < SnapshotInfoFilePath_new pre m \<and>
         SnapshotCheckpointPath_new pre ym n < SnapshotCheckpointPath_new pre ym m \<and>
         (n < 10 ^ 11 \<longrightarrow> wal_path pre m < wal_path pre n)"
proof -
  have stem: "object_store_file_stem n < object_store_file_stem m"
    using assms by (simp add: object_store_file_stem_def)
  have "fixed_digits 20 (object_store_file_stem n) < fixed_digits 20 (object_store_file_stem m)"
    using fixed_digits_less [OF stem stem_less] .
  moreover have "wal_path pre m < wal_path pre n" if "n < 10 ^ 11"
    using that assms fixed_digits_less [of m n 11]
    by (simp add: wal_path_def pad0_fixed append_less_cancel append_less_same_length)
  ultimately show ?thesis
    using assms log_path_less_iff [of m n] stem_less
    by (simp add: SnapshotInfoFilePath_new_def SnapshotCheckpointPath_new_def pad0_fixed
        append_less_cancel append_less_same_length)
qed

theorem object_names_sort_by_sequence_witness:
  "9 < (10::nat) \<and> 10 \<le> u64_max \<and> log_path ''c'' 9 < log_path ''c'' 10 \<and>
   wal_path ''c'' 9 < wal_path ''c'' 10"
proof -
  have "10 \<le> u64_max" by (simp add: u64_max_def)
  from object_names_sort_by_sequence [of 9 10, OF _ this] this show ?thesis by simp
qed

text \<open>Claim C27. The number in an object name reads back: the pruner recovers the position from a
  shared-log name, start-up recovers the sequence from a snapshot, checkpoint or WAL name, and a
  year and month read back from the text that names a checkpoint directory.\<close>

theorem object_names_parse_back:
  assumes "s \<le> u64_max" and "CHR ''/'' \<notin> set pre" and "ym_year ym < 10 ^ 4"
    and "1 \<le> ym_month ym" and "ym_month ym \<le> 12"
  shows "log_seq_of_path (log_path pre s) = Some s \<and>
         snapshot_parse_sequence_number (SnapshotInfoFilePath_new pre s) = Some s \<and>
         checkpoint_parse_sequence_number (SnapshotCheckpointPath_new pre ym s) = Some s \<and>
         (s < 10 ^ 11 \<longrightarrow> wal_seq_of_path (wal_path pre s) = Some s) \<and>
         parse_year_month (show_year_month ym) = Inr ym"
  using assms log_seq_of_log_path snapshot_name_parse checkpoint_name_parse wal_name_parse
    year_month_parse by simp

theorem object_names_parse_back_witness:
  "snapshot_parse_sequence_number (SnapshotInfoFilePath_new ''node'' 7) = Some 7 \<and>
   wal_seq_of_path (wal_path ''node'' 7) = Some 7"
  using object_names_parse_back [of 7 "''node''" "\<lparr>ym_year = 2026, ym_month = 3\<rparr>"]
  by (simp add: u64_max_def)

end
