(* ===== verification/File_Index_Log.thy ===== *)
theory File_Index_Log
  imports File_Index Object_Store Path_Names
begin

text \<open>
  The shared log itself (\<open>influxdb3_cluster/src/file_index/log.rs\<close>): one object per position under
  \<open>{cluster}/file-index/logs\<close> and one rollup at \<open>{cluster}/file-index/snapshot.json\<close>.  Every node
  loads, follows and appends to it through the object store of the theory \<open>Object_Store\<close>; the JSON
  codec is a parameter.  Operations thread the store's state and the caller's index explicitly and
  return the error the code returns.

  The correctness statement is over a ghost history: the list of all entries ever appended, pruned
  or not.  \<open>log_inv\<close> says what the objects in the store have to do with it, \<open>index_at\<close> that an
  index is the replay of a prefix of it.
\<close>

section \<open>Operations\<close>

text \<open>\<open>serde_json\<close>: encoding may fail, decoding fails on malformed bytes.\<close>

record 'b serde =
  to_vec_entry :: "file_index_log_entry \<Rightarrow> 'b option"
  from_slice_entry :: "'b \<Rightarrow> file_index_log_entry option"
  to_vec_snapshot :: "file_index_snapshot \<Rightarrow> 'b option"
  from_slice_snapshot :: "'b \<Rightarrow> file_index_snapshot option"

datatype file_index_log_error =
    ObjectStoreError store_error
  | Malformed obj_path
  | Serialize
  | TooManyCollisions nat

record ('s, 'b) file_index_log =
  fl_store :: "('s, 'b) object_store"
  fl_codec :: "'b serde"
  fl_prefix :: string
  fl_snapshot_interval :: nat

definition MAX_APPEND_ATTEMPTS :: nat where
  "MAX_APPEND_ATTEMPTS = 16"

definition DEFAULT_SNAPSHOT_INTERVAL :: nat where
  "DEFAULT_SNAPSHOT_INTERVAL = 500"

definition FileIndexLog_new ::
  "('s, 'b) object_store \<Rightarrow> 'b serde \<Rightarrow> string \<Rightarrow> ('s, 'b) file_index_log" where
  "FileIndexLog_new st codec cluster_id =
     \<lparr>fl_store = st, fl_codec = codec, fl_prefix = cluster_id,
      fl_snapshot_interval = DEFAULT_SNAPSHOT_INTERVAL\<rparr>"

definition with_snapshot_interval :: "nat \<Rightarrow> ('s, 'b) file_index_log \<Rightarrow> ('s, 'b) file_index_log" where
  "with_snapshot_interval n log = log\<lparr>fl_snapshot_interval := n\<rparr>"

fun fetch_entries ::
  "('s, 'b) file_index_log \<Rightarrow> obj_path list \<Rightarrow> 's \<Rightarrow>
   (file_index_log_error + file_index_log_entry list) \<times> 's" where
  "fetch_entries log [] s = (Inr [], s)"
| "fetch_entries log (p # ps) s =
     (case os_get (fl_store log) p s of
        (Inl e, s1) \<Rightarrow> (Inl (ObjectStoreError e), s1)
      | (Inr x, s1) \<Rightarrow>
          (case from_slice_entry (fl_codec log) (so_body x) of
             None \<Rightarrow> (Inl (Malformed p), s1)
           | Some entry \<Rightarrow>
               (case fetch_entries log ps s1 of
                  (Inl e, s2) \<Rightarrow> (Inl e, s2)
                | (Inr es, s2) \<Rightarrow> (Inr (entry # es), s2))))"

definition load_after ::
  "('s, 'b) file_index_log \<Rightarrow> nat \<Rightarrow> 's \<Rightarrow>
   (file_index_log_error + file_index_log_entry list) \<times> 's" where
  "load_after log after s =
     (case os_list_with_offset (fl_store log) (logs_dir (fl_prefix log))
             (log_path (fl_prefix log) after) s of
        (Inl e, s1) \<Rightarrow> (Inl (ObjectStoreError e), s1)
      | (Inr locations, s1) \<Rightarrow> fetch_entries log locations s1)"

text \<open>Reading the rollup object; a missing one is not an error for either caller.\<close>

definition read_snapshot ::
  "('s, 'b) file_index_log \<Rightarrow> 's \<Rightarrow> (file_index_log_error + file_index_snapshot option) \<times> 's" where
  "read_snapshot log s =
     (case os_get (fl_store log) (snapshot_path (fl_prefix log)) s of
        (Inr x, s1) \<Rightarrow>
          (case from_slice_snapshot (fl_codec log) (so_body x) of
             None \<Rightarrow> (Inl (Malformed (snapshot_path (fl_prefix log))), s1)
           | Some sn \<Rightarrow> (Inr (Some sn), s1))
      | (Inl e, s1) \<Rightarrow> if e = NotFound then (Inr None, s1) else (Inl (ObjectStoreError e), s1))"

definition restore_from_snapshot ::
  "('s, 'b) file_index_log \<Rightarrow> file_index \<Rightarrow> 's \<Rightarrow> (file_index_log_error + unit) \<times> file_index \<times> 's" where
  "restore_from_snapshot log i s =
     (case read_snapshot log s of
        (Inl e, s1) \<Rightarrow> (Inl e, i, s1)
      | (Inr None, s1) \<Rightarrow> (Inr (), i, s1)
      | (Inr (Some sn), s1) \<Rightarrow> (Inr (), reset_from sn i, s1))"

definition sync ::
  "('s, 'b) file_index_log \<Rightarrow> file_index \<Rightarrow> 's \<Rightarrow> (file_index_log_error + nat) \<times> file_index \<times> 's" where
  "sync log i s =
     (case load_after log (fi_sequence i) s of
        (Inl e, s1) \<Rightarrow> (Inl e, i, s1)
      | (Inr es, s1) \<Rightarrow>
          (let entries = sort_key le_sequence es;
               gap = (case entries of [] \<Rightarrow> False | f # _ \<Rightarrow> le_sequence f > fi_sequence i + 1)
           in if gap
              then (case restore_from_snapshot log i s1 of
                      (Inl e, i1, s2) \<Rightarrow> (Inl e, i1, s2)
                    | (Inr u, i1, s2) \<Rightarrow> (Inr (length entries), replay entries i1, s2))
              else (Inr (length entries), replay entries i, s1)))"

definition load ::
  "('s, 'b) file_index_log \<Rightarrow> 's \<Rightarrow> (file_index_log_error + file_index) \<times> 's" where
  "load log s =
     (case read_snapshot log s of
        (Inl e, s1) \<Rightarrow> (Inl e, s1)
      | (Inr o', s1) \<Rightarrow>
          (let i = (case o' of None \<Rightarrow> FileIndex_new | Some sn \<Rightarrow> restore sn FileIndex_new)
           in case sync log i s1 of
                (Inl e, i1, s2) \<Rightarrow> (Inl e, s2)
              | (Inr n, i1, s2) \<Rightarrow> (Inr i1, s2)))"

definition covered :: "nat \<Rightarrow> obj_path \<Rightarrow> bool" where
  "covered through p = (case log_seq_of_path p of None \<Rightarrow> False | Some k \<Rightarrow> k \<le> through)"

text \<open>Failed deletes are logged and skipped.\<close>

fun delete_all :: "('s, 'b) object_store \<Rightarrow> obj_path list \<Rightarrow> 's \<Rightarrow> nat \<times> 's" where
  "delete_all st [] s = (0, s)"
| "delete_all st (p # ps) s =
     (case os_delete st p s of
        (Inr u, s1) \<Rightarrow> (case delete_all st ps s1 of (n, s2) \<Rightarrow> (n + 1, s2))
      | (Inl e, s1) \<Rightarrow> delete_all st ps s1)"

definition prune_logs_through ::
  "('s, 'b) file_index_log \<Rightarrow> nat \<Rightarrow> 's \<Rightarrow> (file_index_log_error + nat) \<times> 's" where
  "prune_logs_through log through s =
     (case os_list (fl_store log) (logs_dir (fl_prefix log)) s of
        (Inl e, s1) \<Rightarrow> (Inl (ObjectStoreError e), s1)
      | (Inr locations, s1) \<Rightarrow>
          (case delete_all (fl_store log) (filter (covered through) locations) s1 of
             (n, s2) \<Rightarrow> (Inr n, s2)))"

definition write_snapshot ::
  "('s, 'b) file_index_log \<Rightarrow> file_index \<Rightarrow> 's \<Rightarrow> (file_index_log_error + unit) \<times> 's" where
  "write_snapshot log i s =
     (let sn = to_snapshot i in
      case to_vec_snapshot (fl_codec log) sn of
        None \<Rightarrow> (Inl Serialize, s)
      | Some body \<Rightarrow>
          (case os_put (fl_store log) (snapshot_path (fl_prefix log)) body s of
             (Inl e, s1) \<Rightarrow> (Inl (ObjectStoreError e), s1)
           | (Inr u, s1) \<Rightarrow>
               (case prune_logs_through log (sn_sequence sn) s1 of
                  (Inl e, s2) \<Rightarrow> (Inl e, s2)
                | (Inr n, s2) \<Rightarrow> (Inr (), s2))))"

definition maybe_snapshot :: "('s, 'b) file_index_log \<Rightarrow> file_index \<Rightarrow> 's \<Rightarrow> 's" where
  "maybe_snapshot log i s =
     (if fl_snapshot_interval log = 0 \<or> \<not> fl_snapshot_interval log dvd fi_sequence i then s
      else snd (write_snapshot log i s))"

text \<open>The bounded retry loop of \<open>append\<close>: \<open>k\<close> attempts remain; attempt \<open>j\<close> draws the nonce
  \<open>nonces j\<close>.\<close>

fun append_loop ::
  "('s, 'b) file_index_log \<Rightarrow> (nat \<Rightarrow> string) \<Rightarrow> file_index_delta list \<Rightarrow> nat \<Rightarrow> nat \<Rightarrow>
   file_index \<Rightarrow> 's \<Rightarrow> (file_index_log_error + nat) \<times> file_index \<times> 's" where
  "append_loop log nonces deltas 0 j i s = (Inl (TooManyCollisions MAX_APPEND_ATTEMPTS), i, s)"
| "append_loop log nonces deltas (Suc k) j i s =
     (case sync log i s of
        (Inl e, i1, s1) \<Rightarrow> (Inl e, i1, s1)
      | (Inr n, i1, s1) \<Rightarrow>
          (let q = seq_next (fi_sequence i1);
               entry = \<lparr>le_sequence = q, le_deltas = deltas\<rparr>
           in case to_vec_entry (fl_codec log) entry of
                None \<Rightarrow> (Inl Serialize, i1, s1)
              | Some body \<Rightarrow>
                  (case os_put_opts (fl_store log) (log_path (fl_prefix log) q) body
                          (SelfVerifyingCreate_put_options (SelfVerifyingCreate_with_nonce (nonces j))) s1 of
                     (Inr u, s2) \<Rightarrow>
                       (let i2 = apply_entry entry i1 in (Inr q, i2, maybe_snapshot log i2 s2))
                   | (Inl e, s2) \<Rightarrow>
                       if e = AlreadyExists then append_loop log nonces deltas k (j + 1) i1 s2
                       else (Inl (ObjectStoreError e), i1, s2))))"

declare append_loop.simps [simp del]

definition append_deltas ::
  "('s, 'b) file_index_log \<Rightarrow> (nat \<Rightarrow> string) \<Rightarrow> file_index_delta list \<Rightarrow>
   file_index \<Rightarrow> 's \<Rightarrow> (file_index_log_error + nat) \<times> file_index \<times> 's" where
  "append_deltas log nonces deltas i s =
     (if deltas = [] then (Inr (fi_sequence i), i, s)
      else append_loop log nonces deltas MAX_APPEND_ATTEMPTS 0 i s)"

text \<open>The background follower: an initial load merged into the long-lived index, then one \<open>sync\<close>
  per tick; failures are logged.\<close>

definition file_index_sync_start ::
  "('s, 'b) file_index_log \<Rightarrow> file_index \<Rightarrow> 's \<Rightarrow> file_index \<times> 's" where
  "file_index_sync_start log i s =
     (case load log s of
        (Inr loaded, s1) \<Rightarrow> (merge_from loaded i, s1)
      | (Inl e, s1) \<Rightarrow> (i, s1))"

definition file_index_sync_tick ::
  "('s, 'b) file_index_log \<Rightarrow> file_index \<Rightarrow> 's \<Rightarrow> file_index \<times> 's" where
  "file_index_sync_tick log i s = (case sync log i s of (r, i1, s1) \<Rightarrow> (i1, s1))"

section \<open>History, store invariant and position\<close>

definition history_ok :: "file_index_log_entry list \<Rightarrow> bool" where
  "history_ok H \<longleftrightarrow> (\<forall>k < length H. le_sequence (H ! k) = k + 1) \<and> length H \<le> u64_max"

definition snapshot_for :: "file_index_log_entry list \<Rightarrow> nat \<Rightarrow> file_index_snapshot \<Rightarrow> bool" where
  "snapshot_for H S sn \<longleftrightarrow> sn_sequence sn = S \<and> snapshot_ok sn \<and>
     view (restore sn FileIndex_new) = view (replay (take S H) FileIndex_new)"

definition log_present :: "string \<Rightarrow> (obj_path \<rightharpoonup> 'b stored_object) \<Rightarrow> nat \<Rightarrow> bool" where
  "log_present pre c k \<longleftrightarrow> c (log_path pre k) \<noteq> None"

text \<open>The objects of the store are those of the history \<open>H\<close>, rolled up to position \<open>S\<close>.\<close>

definition log_inv ::
  "'b serde \<Rightarrow> string \<Rightarrow> file_index_log_entry list \<Rightarrow> nat \<Rightarrow> (obj_path \<rightharpoonup> 'b stored_object) \<Rightarrow> bool" where
  "log_inv sd pre H S c \<longleftrightarrow>
     history_ok H \<and> S \<le> length H \<and>
     (\<forall>p. c p \<noteq> None \<and> under (logs_dir pre) p \<longrightarrow> (\<exists>k. 1 \<le> k \<and> k \<le> length H \<and> p = log_path pre k)) \<and>
     (\<forall>k x. 1 \<le> k \<and> k \<le> length H \<and> c (log_path pre k) = Some x \<longrightarrow>
        from_slice_entry sd (so_body x) = Some (H ! (k - 1))) \<and>
     (\<forall>k. S < k \<and> k \<le> length H \<longrightarrow> log_present pre c k) \<and>
     (case c (snapshot_path pre) of
        None \<Rightarrow> S = 0
      | Some x \<Rightarrow> \<exists>sn. from_slice_snapshot sd (so_body x) = Some sn \<and> snapshot_for H S sn)"

definition index_at :: "file_index_log_entry list \<Rightarrow> nat \<Rightarrow> file_index \<Rightarrow> bool" where
  "index_at H m i \<longleftrightarrow> wf_index i \<and> m \<le> length H \<and> view i = view (replay (take m H) FileIndex_new)"

text \<open>Above the reader's position the surviving objects are a contiguous suffix.\<close>

definition no_holes ::
  "string \<Rightarrow> file_index_log_entry list \<Rightarrow> (obj_path \<rightharpoonup> 'b stored_object) \<Rightarrow> nat \<Rightarrow> bool" where
  "no_holes pre H c m \<longleftrightarrow>
     (\<forall>k k'. m < k \<and> k \<le> k' \<and> k' \<le> length H \<and> log_present pre c k \<longrightarrow> log_present pre c k')"

text \<open>A JSON document in memory, to run the definitions.\<close>

datatype json_doc = EntryDoc file_index_log_entry | SnapshotDoc file_index_snapshot

definition json_codec :: "json_doc serde" where
  "json_codec =
     \<lparr>to_vec_entry = (\<lambda>e. Some (EntryDoc e)),
      from_slice_entry = (\<lambda>b. case b of EntryDoc e \<Rightarrow> Some e | _ \<Rightarrow> None),
      to_vec_snapshot = (\<lambda>sn. Some (SnapshotDoc sn)),
      from_slice_snapshot = (\<lambda>b. case b of SnapshotDoc sn \<Rightarrow> Some sn | _ \<Rightarrow> None)\<rparr>"

text \<open>What the log relies on: a lawful store and a codec that reads back what it wrote.\<close>

locale shared_log = object_store_laws st contents
  for st :: "('s, 'b) object_store" and contents :: "'s \<Rightarrow> obj_path \<rightharpoonup> 'b stored_object" +
  fixes codec :: "'b serde"
  assumes entry_roundtrip: "to_vec_entry codec e = Some b \<Longrightarrow> from_slice_entry codec b = Some e"
    and snapshot_roundtrip: "to_vec_snapshot codec sn = Some b \<Longrightarrow> from_slice_snapshot codec b = Some sn"

section \<open>Histories\<close>

lemma history_okD: "history_ok H \<Longrightarrow> k < length H \<Longrightarrow> le_sequence (H ! k) = k + 1"
  by (simp add: history_ok_def)

lemma history_ok_seqs: "history_ok H \<Longrightarrow> le_sequence ` set (take m H) = {1..min m (length H)}"
proof (intro equalityI subsetI)
  fix q assume H: "history_ok H" and "q \<in> {1..min m (length H)}"
  then have "q - 1 < length (take m H)" "q = le_sequence (take m H ! (q - 1))"
    using history_okD [OF H, of "q - 1"] by auto
  then show "q \<in> le_sequence ` set (take m H)" by (metis image_eqI nth_mem)
qed (auto simp: set_conv_nth history_okD)

lemma replay_take_sequence:
  assumes "history_ok H" and "m \<le> length H"
  shows "fi_sequence (replay (take m H) FileIndex_new) = m"
proof -
  have "Max (insert 0 {1..m}) = m" by (rule Max_eqI) (auto intro: Nat.gr0I)
  then show ?thesis
    using history_ok_seqs [OF assms(1), of m] assms(2) by (simp add: replay_sequence)
qed

lemma index_at_sequence: "history_ok H \<Longrightarrow> index_at H m i \<Longrightarrow> fi_sequence i = m"
  unfolding index_at_def by (metis replay_take_sequence view_sequence)

lemma index_at_wf: "index_at H m i \<Longrightarrow> wf_index i"
  by (simp add: index_at_def)

lemma index_at_replay_all: "index_at H m (replay (take m H) FileIndex_new) \<longleftrightarrow> m \<le> length H"
  by (simp add: index_at_def)

text \<open>Replaying the history from a position at or below the reader's brings it to the end.\<close>

lemma index_at_catch_up:
  assumes H: "history_ok H" and i: "index_at H m i" and f: "f \<le> m"
  shows "index_at H (length H) (replay (drop f H) i)"
proof -
  have m: "m \<le> length H" using i by (simp add: index_at_def)
  have split: "drop f H = take (m - f) (drop f H) @ drop m H"
    using append_take_drop_id [of "m - f" "drop f H"] f by simp
  have "replay (take (m - f) (drop f H)) i = i"
  proof (rule replay_old)
    fix e assume "e \<in> set (take (m - f) (drop f H))"
    then have "e \<in> set (drop f (take m H))" using f by (simp add: drop_take)
    then have "e \<in> set (take m H)" by (rule in_set_dropD)
    then show "le_sequence e \<le> fi_sequence i"
      using history_ok_seqs [OF H, of m] index_at_sequence [OF H i] m by auto
  qed
  then have "replay (drop f H) i = replay (drop m H) i" by (subst split) (simp add: replay_append)
  moreover have "view (replay (drop m H) i) = view (replay (drop m H) (replay (take m H) FileIndex_new))"
    using i by (intro view_replay_cong) (simp add: index_at_def)
  ultimately have "view (replay (drop f H) i) = view (replay H FileIndex_new)"
    by (simp flip: replay_append)
  then show ?thesis using index_at_wf [OF i] by (simp add: index_at_def)
qed

lemma index_at_extend: "index_at H m i \<Longrightarrow> index_at (H @ es) m i"
  by (auto simp: index_at_def)

lemma history_ok_snoc:
  "history_ok H \<Longrightarrow> le_sequence e = length H + 1 \<Longrightarrow> length H < u64_max \<Longrightarrow> history_ok (H @ [e])"
  by (auto simp: history_ok_def nth_append less_Suc_eq)

lemma index_at_apply:
  assumes "history_ok (H @ [e])" and "index_at H (length H) i"
  shows "index_at (H @ [e]) (length H + 1) (apply_entry e i)"
proof -
  have "view (replay [e] i) = view (replay [e] (replay H FileIndex_new))"
    using assms(2) by (intro view_replay_cong) (simp add: index_at_def)
  then show ?thesis using index_at_wf [OF assms(2)] by (simp add: index_at_def replay_append)
qed

lemma reset_from_restore: "reset_from sn i = restore sn FileIndex_new"
proof -
  have "i\<lparr>fi_nodes := [], fi_watermarks := [], fi_persisted_max_times := [], fi_sequence := 0\<rparr> = FileIndex_new"
    by (cases i) (simp add: FileIndex_new_def)
  then show ?thesis by (simp add: reset_from_def)
qed

lemma snapshot_for_index_at:
  "snapshot_for H S sn \<Longrightarrow> S \<le> length H \<Longrightarrow> index_at H S (restore sn FileIndex_new)"
  by (simp add: snapshot_for_def index_at_def wf_restore)

lemma snapshot_for_to_snapshot:
  "history_ok H \<Longrightarrow> index_at H m i \<Longrightarrow> snapshot_for H m (to_snapshot i)"
  using reset_from_view [of i FileIndex_new] index_at_sequence [of H m i]
  by (simp add: snapshot_for_def index_at_def snapshot_ok_to_snapshot reset_from_restore) (simp add: to_snapshot_def)

lemma under_log_path: "under (logs_dir pre) (log_path pre k)"
  by (simp add: under_def logs_dir_def log_path_def)

lemma snapshot_path_not_log: "\<not> under (logs_dir pre) (snapshot_path pre)"
  by (simp add: under_def logs_dir_def snapshot_path_def)

lemma snapshot_path_neq_log: "snapshot_path pre \<noteq> log_path pre k"
  using under_log_path snapshot_path_not_log by metis

section \<open>Reading the log\<close>

lemma sort_entries_history:
  assumes H: "history_ok H" and K: "K \<subseteq> {1..length H}"
    and es: "set es = (\<lambda>k. H ! (k - 1)) ` K" and d: "distinct es"
  shows "sort_key le_sequence es = map (\<lambda>k. H ! (k - 1)) (sorted_list_of_set K)"
proof -
  have fin: "finite K" using K finite_subset by blast
  let ?ys = "map (\<lambda>k. H ! (k - 1)) (sorted_list_of_set K)"
  have seq: "le_sequence (H ! (k - 1)) = k" if "k \<in> K" for k
    using history_okD [OF H, of "k - 1"] K that by fastforce
  then have inj: "inj_on (\<lambda>k. H ! (k - 1)) K" by (intro inj_onI) metis
  then have "distinct ?ys" using fin by (simp add: distinct_map)
  moreover have "set ?ys = set es" using fin es by simp
  ultimately have "mset es = mset ?ys" using d set_eq_iff_mset_eq_distinct by blast
  moreover have "inj_on le_sequence (set es)" unfolding es using seq by (auto simp: inj_on_def)
  ultimately have "sort_key le_sequence es = sort_key le_sequence ?ys" by (rule sort_key_mset_unique)
  moreover have "map le_sequence ?ys = sorted_list_of_set K"
    unfolding map_map by (rule map_idI) (use fin seq in simp)
  then have "sorted (map le_sequence ?ys)" by simp
  then have "sort_key le_sequence ?ys = ?ys" by (rule sort_key_id_if_sorted)
  ultimately show ?thesis by simp
qed

context shared_log
begin

lemma fetch_entries_ok:
  assumes "fetch_entries log ps s = (Inr es, s')" and "fl_store log = st" and "fl_codec log = codec"
  shows "contents s' = contents s \<and>
    es = map (\<lambda>p. the (from_slice_entry codec (so_body (the (contents s p))))) ps"
  using assms(1)
proof (induction ps arbitrary: s es)
  case (Cons p ps)
  from Cons.prems assms(2,3) obtain x s1 e es' where
    get: "os_get st p s = (Inr x, s1)" and dec: "from_slice_entry codec (so_body x) = Some e"
    and rest: "fetch_entries log ps s1 = (Inr es', s')" and es: "es = e # es'"
    by (auto split: prod.splits sum.splits option.splits)
  have "contents s1 = contents s" "contents s p = Some x"
    using get_frame [OF get] get_ok [OF get] by auto
  with Cons.IH [OF rest] dec es show ?case by simp
qed simp

text \<open>The names listed above a position are those of the surviving objects above it.\<close>

lemma listed_positions:
  assumes "os_list_with_offset st (logs_dir pre) (log_path pre m) s = (Inr locs, s1)"
    and inv: "log_inv codec pre H S (contents s)" and m: "m \<le> length H"
  shows "distinct locs \<and>
    set locs = log_path pre ` {k. m < k \<and> k \<le> length H \<and> log_present pre (contents s) k}"
proof -
  let ?c = "contents s"
  have len: "length H \<le> u64_max" using inv by (simp add: log_inv_def history_ok_def)
  have order: "log_path pre m < log_path pre k \<longleftrightarrow> m < k" if "k \<le> length H" for k
    using log_path_less_iff [of m k] m len that by simp
  have names: "\<exists>k. 1 \<le> k \<and> k \<le> length H \<and> p = log_path pre k"
    if "?c p \<noteq> None" "under (logs_dir pre) p" for p
    using inv that unfolding log_inv_def by blast
  have locs: "distinct locs" "set locs = {p. ?c p \<noteq> None \<and> under (logs_dir pre) p \<and> log_path pre m < p}"
    using list_offset_ok [OF assms(1)] by auto
  have "set locs = log_path pre ` {k. m < k \<and> k \<le> length H \<and> log_present pre ?c k}"
  proof (intro equalityI subsetI)
    fix p assume "p \<in> set locs"
    then have p: "?c p \<noteq> None" "under (logs_dir pre) p" "log_path pre m < p" using locs(2) by auto
    from names [OF p(1,2)] obtain k where "k \<le> length H" "p = log_path pre k" by blast
    with p order show "p \<in> log_path pre ` {k. m < k \<and> k \<le> length H \<and> log_present pre ?c k}"
      by (auto simp: log_present_def)
  qed (auto simp: locs(2) order under_log_path log_present_def)
  with locs(1) show ?thesis by simp
qed

lemma load_after_ok:
  assumes load: "load_after log m s = (Inr es, s')" and log: "fl_store log = st" "fl_codec log = codec"
    and inv: "log_inv codec (fl_prefix log) H S (contents s)" and m: "m \<le> length H"
  shows "contents s' = contents s \<and>
    sort_key le_sequence es =
      map (\<lambda>k. H ! (k - 1)) (sorted_list_of_set {k. m < k \<and> k \<le> length H \<and> log_present (fl_prefix log) (contents s) k})"
proof -
  let ?pre = "fl_prefix log" and ?c = "contents s"
  let ?K = "{k. m < k \<and> k \<le> length H \<and> log_present ?pre ?c k}"
  let ?dec = "\<lambda>p. the (from_slice_entry codec (so_body (the (?c p))))"
  from load log obtain locs s1 where
    listed: "os_list_with_offset st (logs_dir ?pre) (log_path ?pre m) s = (Inr locs, s1)"
    and fetch: "fetch_entries log locs s1 = (Inr es, s')"
    by (auto simp: load_after_def split: prod.splits sum.splits)
  from list_offset_frame [OF listed] have s1: "contents s1 = ?c" .
  note locs = listed_positions [OF listed inv m]
  have H: "history_ok H" using inv by (simp add: log_inv_def)
  have es: "es = map ?dec locs" and s': "contents s' = ?c"
    using fetch_entries_ok [OF fetch log] by (simp_all add: s1)
  have dec: "?dec (log_path ?pre k) = H ! (k - 1)" if "k \<in> ?K" for k
  proof -
    from that obtain x where "?c (log_path ?pre k) = Some x" "1 \<le> k" "k \<le> length H"
      by (auto simp: log_present_def)
    with inv have "from_slice_entry codec (so_body x) = Some (H ! (k - 1))"
      unfolding log_inv_def by blast
    with \<open>?c (log_path ?pre k) = Some x\<close> show ?thesis by simp
  qed
  have seq: "le_sequence (?dec (log_path ?pre k)) = k" if "k \<in> ?K" for k
    using history_okD [OF H, of "k - 1"] dec [OF that] that by auto
  have "inj_on ?dec (set locs)"
    using locs seq by (auto simp: inj_on_def) (metis (no_types, lifting))+
  then have "distinct es" using es locs by (simp add: distinct_map)
  moreover have "set es = (\<lambda>k. H ! (k - 1)) ` ?K"
    using es locs dec by (auto simp: image_image)
  ultimately show ?thesis using sort_entries_history [OF H, of ?K es] s' by fastforce
qed

end

section \<open>Following the log\<close>

lemma suffix_positions:
  assumes "no_holes pre H c m" and "k0 \<in> {k. m < k \<and> k \<le> length H \<and> log_present pre c k}"
  shows "\<exists>f. m \<le> f \<and> f < length H \<and> (f = m \<or> \<not> log_present pre c f) \<and>
    {k. m < k \<and> k \<le> length H \<and> log_present pre c k} = {f + 1..length H}"
proof -
  let ?K = "{k. m < k \<and> k \<le> length H \<and> log_present pre c k}"
  obtain f where f: "f \<in> ?K" and least: "\<And>k. k \<in> ?K \<Longrightarrow> f \<le> k"
    using exists_least_iff [of "\<lambda>k. k \<in> ?K"] assms(2) by (meson not_less)
  have "log_present pre c k" if "f \<le> k" "k \<le> length H" for k
    using assms(1) f that unfolding no_holes_def by blast
  then have K: "?K = {f - 1 + 1..length H}" using f least by force
  have "f - 1 = m \<or> \<not> log_present pre c (f - 1)"
  proof (rule ccontr)
    assume "\<not> (f - 1 = m \<or> \<not> log_present pre c (f - 1))"
    then have "f - 1 \<in> ?K" using f by auto
    from least [OF this] f show False by auto
  qed
  moreover have "m \<le> f - 1" "f - 1 < length H" using f by auto
  ultimately show ?thesis using K by blast
qed

lemma history_positions:
  assumes "f \<le> length H"
  shows "map (\<lambda>k. H ! (k - 1)) (sorted_list_of_set {f + 1..length H}) = drop f H"
proof -
  have "{f + 1..length H} = {f + 1..<Suc (length H)}" by auto
  then have "sorted_list_of_set {f + 1..length H} = [f + 1..<Suc (length H)]"
    by (simp only: sorted_list_of_set_range)
  with assms show ?thesis by (intro nth_equalityI) (auto simp del: upt_Suc)
qed

context shared_log
begin

lemma read_snapshot_ok:
  assumes read: "read_snapshot log s = (Inr o', s')" and log: "fl_store log = st" "fl_codec log = codec"
    and inv: "log_inv codec (fl_prefix log) H S (contents s)"
  shows "contents s' = contents s \<and>
    (case o' of None \<Rightarrow> S = 0 | Some sn \<Rightarrow> snapshot_for H S sn)"
proof -
  let ?p = "snapshot_path (fl_prefix log)"
  obtain r s1 where get: "os_get st ?p s = (r, s1)" by fastforce
  have frame: "contents s1 = contents s" using get_frame [OF get] .
  have snap: "case contents s ?p of None \<Rightarrow> S = 0
      | Some x \<Rightarrow> \<exists>sn. from_slice_snapshot codec (so_body x) = Some sn \<and> snapshot_for H S sn"
    using inv by (simp add: log_inv_def)
  show ?thesis
  proof (cases r)
    case (Inl e)
    with read log get have "e = NotFound" "o' = None" "s' = s1"
      by (auto simp: read_snapshot_def split: if_splits)
    with get_not_found get Inl snap frame show ?thesis by fastforce
  next
    case (Inr x)
    with get get_ok have "contents s ?p = Some x" by blast
    with Inr read log get snap frame show ?thesis
      by (auto simp: read_snapshot_def split: option.splits)
  qed
qed

lemma restore_reaches_rollup:
  assumes "restore_from_snapshot log i s = (Inr u, i', s')"
    and log: "fl_store log = st" "fl_codec log = codec"
    and inv: "log_inv codec (fl_prefix log) H S (contents s)" and "0 < S"
  shows "contents s' = contents s \<and> index_at H S i'"
proof -
  from assms(1) obtain o' where read: "read_snapshot log s = (Inr o', s')"
    by (auto simp: restore_from_snapshot_def split: prod.splits sum.splits option.splits)
  from read_snapshot_ok [OF read log inv] assms(5) obtain sn where
    sn: "o' = Some sn" "snapshot_for H S sn" and "contents s' = contents s"
    by (auto split: option.splits)
  moreover have "i' = restore sn FileIndex_new"
    using assms(1) read sn(1) by (auto simp: restore_from_snapshot_def reset_from_restore)
  moreover have "S \<le> length H" using inv by (simp add: log_inv_def)
  ultimately show ?thesis using snapshot_for_index_at by simp
qed

text \<open>What one pass does with the objects it found, which are a suffix of the history.\<close>

lemma sync_suffix:
  assumes sync: "sync log i s = (Inr n, i', s')" and log: "fl_store log = st" "fl_codec log = codec"
    and inv: "log_inv codec (fl_prefix log) H S (contents s)" and at: "index_at H m i"
    and load: "load_after log m s = (Inr es, s1)" "contents s1 = contents s"
    and ent: "sort_key le_sequence es = drop f H" and f: "m \<le> f" "f < length H"
      "f = m \<or> \<not> log_present (fl_prefix log) (contents s) f"
  shows "contents s' = contents s \<and> index_at H (length H) i'"
proof -
  have H: "history_ok H" using inv by (simp add: log_inv_def)
  have seq: "fi_sequence i = m" using index_at_sequence [OF H at] .
  have first: "drop f H = H ! f # drop (Suc f) H" "le_sequence (H ! f) = f + 1"
    using f(2) history_okD [OF H] by (auto simp: Cons_nth_drop_Suc)
  show ?thesis
  proof (cases "f = m")
    case True
    then have "i' = replay (drop m H) i" "s' = s1"
      using sync load seq ent first by (auto simp: sync_def)
    then show ?thesis using index_at_catch_up [OF H at order_refl] load(2) by simp
  next
    case False
    have S: "f \<le> S"
    proof (rule ccontr)
      assume "\<not> f \<le> S"
      then have "log_present (fl_prefix log) (contents s) f" using inv f(2) by (simp add: log_inv_def)
      with f(3) False show False by simp
    qed
    from False f(1) sync load seq ent first obtain u i1 where
      restore: "restore_from_snapshot log i s1 = (Inr u, i1, s')" and i': "i' = replay (drop f H) i1"
      by (auto simp: sync_def Let_def split: prod.splits sum.splits)
    have "0 < S" using S f(1) False by simp
    from restore_reaches_rollup [OF restore log _ this] inv load(2)
    have "contents s' = contents s" "index_at H S i1" by auto
    then show ?thesis using index_at_catch_up [OF H _ S] i' by simp
  qed
qed

text \<open>With every object above its position surviving contiguously, a reader that finds anything
  new ends at the head of the history; a reader that finds nothing stays where it is.\<close>

lemma sync_catches_up:
  assumes sync: "sync log i s = (Inr n, i', s')" and log: "fl_store log = st" "fl_codec log = codec"
    and inv: "log_inv codec (fl_prefix log) H S (contents s)"
    and at: "index_at H m i" and holes: "no_holes (fl_prefix log) H (contents s) m"
  shows "contents s' = contents s \<and>
    (if \<exists>k. m < k \<and> k \<le> length H \<and> log_present (fl_prefix log) (contents s) k
     then index_at H (length H) i' else i' = i)"
proof -
  let ?pre = "fl_prefix log" and ?c = "contents s"
  let ?K = "{k. m < k \<and> k \<le> length H \<and> log_present ?pre ?c k}"
  have H: "history_ok H" using inv by (simp add: log_inv_def)
  have seq: "fi_sequence i = m" and m: "m \<le> length H"
    using index_at_sequence [OF H at] at by (auto simp: index_at_def)
  from sync seq obtain es s1 where load: "load_after log m s = (Inr es, s1)"
    by (auto simp: sync_def split: prod.splits sum.splits)
  from load_after_ok [OF load log inv m] have s1: "contents s1 = ?c"
    and es: "sort_key le_sequence es = map (\<lambda>k. H ! (k - 1)) (sorted_list_of_set ?K)" by auto
  show ?thesis
  proof (cases "?K = {}")
    case True
    then have "sort_key le_sequence es = []" using es by simp
    then show ?thesis using sync load seq s1 True by (auto simp: sync_def)
  next
    case False
    then obtain k0 where k0: "k0 \<in> ?K" by blast
    from suffix_positions [OF holes k0] obtain f where
      f: "m \<le> f" "f < length H" "f = m \<or> \<not> log_present ?pre ?c f" and K: "?K = {f + 1..length H}" by blast
    have "sort_key le_sequence es = drop f H"
      unfolding es K by (rule history_positions) (use f(2) in simp)
    from sync_suffix [OF sync log inv at load s1 this f] k0 show ?thesis by auto
  qed
qed

end

section \<open>Starting, rolling up and appending\<close>

text \<open>A reader can be brought to the head unless everything above it, up to the head, was rolled up
  and pruned.\<close>

lemma log_inv_no_holes: "log_inv sd pre H S c \<Longrightarrow> S \<le> m \<Longrightarrow> no_holes pre H c m"
  by (auto simp: log_inv_def no_holes_def)

lemma log_inv_rollup:
  assumes "log_inv sd pre H S c" and "S \<le> m" "m \<le> length H"
    and "from_slice_snapshot sd (so_body x) = Some sn" and "snapshot_for H m sn"
  shows "log_inv sd pre H m (c(snapshot_path pre \<mapsto> x))"
  unfolding log_inv_def
proof (intro conjI allI impI)
  let ?c = "c(snapshot_path pre \<mapsto> x)"
  show "\<exists>k\<ge>1. k \<le> length H \<and> p = log_path pre k" if "?c p \<noteq> None \<and> under (logs_dir pre) p" for p
    using assms(1) that snapshot_path_not_log unfolding log_inv_def by (metis fun_upd_other)
  show "log_present pre ?c k" if "m < k \<and> k \<le> length H" for k
    using assms(1,2) that snapshot_path_neq_log [of pre k] by (auto simp: log_inv_def log_present_def)
  show "from_slice_entry sd (so_body y) = Some (H ! (k - 1))"
    if "1 \<le> k \<and> k \<le> length H \<and> ?c (log_path pre k) = Some y" for k y
    using assms(1) that snapshot_path_neq_log [of pre k] unfolding log_inv_def by (metis fun_upd_other)
qed (use assms in \<open>auto simp: log_inv_def\<close>)

lemma log_inv_prune:
  assumes inv: "log_inv sd pre H S c"
    and gone: "\<And>p. c' p = c p \<or> (c' p = None \<and> (\<exists>k \<le> S. p = log_path pre k))"
  shows "log_inv sd pre H S c'"
  unfolding log_inv_def
proof (intro conjI allI impI)
  have sub: "c' p = Some y \<Longrightarrow> c p = Some y" for p y using gone [of p] by auto
  have len: "length H \<le> u64_max" "S \<le> length H" using inv by (auto simp: log_inv_def history_ok_def)
  show "\<exists>k\<ge>1. k \<le> length H \<and> p = log_path pre k" if "c' p \<noteq> None \<and> under (logs_dir pre) p" for p
    using inv that sub unfolding log_inv_def by blast
  show "from_slice_entry sd (so_body y) = Some (H ! (k - 1))"
    if "1 \<le> k \<and> k \<le> length H \<and> c' (log_path pre k) = Some y" for k y
    using inv that sub unfolding log_inv_def by blast
  show "log_present pre c' k" if "S < k \<and> k \<le> length H" for k
  proof -
    have "\<not> (\<exists>k' \<le> S. log_path pre k = log_path pre k')"
      using that len log_path_inj [of k] by fastforce
    then show ?thesis using inv that gone [of "log_path pre k"] by (auto simp: log_inv_def log_present_def)
  qed
  have "c' (snapshot_path pre) = c (snapshot_path pre)"
    using gone [of "snapshot_path pre"] snapshot_path_neq_log by metis
  then show "case c' (snapshot_path pre) of None \<Rightarrow> S = 0
      | Some x \<Rightarrow> \<exists>sn. from_slice_snapshot sd (so_body x) = Some sn \<and> snapshot_for H S sn"
    using inv by (simp add: log_inv_def)
qed (use inv in \<open>auto simp: log_inv_def\<close>)

lemma snapshot_for_extend: "snapshot_for H S sn \<Longrightarrow> S \<le> length H \<Longrightarrow> snapshot_for (H @ es) S sn"
  by (simp add: snapshot_for_def)

lemma log_inv_append:
  assumes inv: "log_inv sd pre H S c" and e: "le_sequence e = length H + 1" "length H < u64_max"
    and body: "from_slice_entry sd (so_body x) = Some e"
  shows "log_inv sd pre (H @ [e]) S (c(log_path pre (length H + 1) \<mapsto> x))"
  unfolding log_inv_def
proof (intro conjI allI impI)
  let ?p = "log_path pre (length H + 1)"
  let ?c = "c(?p \<mapsto> x)"
  show "history_ok (H @ [e])" using history_ok_snoc inv e by (simp add: log_inv_def)
  have neq: "log_path pre k \<noteq> ?p" if "k \<le> length H" for k
    using that e(2) log_path_inj [of k "length H + 1"] by fastforce
  show "\<exists>k\<ge>1. k \<le> length (H @ [e]) \<and> p = log_path pre k" if "?c p \<noteq> None \<and> under (logs_dir pre) p" for p
  proof (cases "p = ?p")
    case False
    then show ?thesis using inv that unfolding log_inv_def
      by (metis fun_upd_other le_SucI length_append_singleton)
  qed auto
  show "from_slice_entry sd (so_body y) = Some ((H @ [e]) ! (k - 1))"
    if k: "1 \<le> k \<and> k \<le> length (H @ [e]) \<and> ?c (log_path pre k) = Some y" for k y
  proof (cases "k = length H + 1")
    case False
    then have "1 \<le> k" "k \<le> length H" "c (log_path pre k) = Some y" using k neq by auto
    moreover from this have "from_slice_entry sd (so_body y) = Some (H ! (k - 1))"
      using inv unfolding log_inv_def by blast
    ultimately show ?thesis by (simp add: nth_append)
  qed (use k body in simp)
  show "log_present pre ?c k" if "S < k \<and> k \<le> length (H @ [e])" for k
    using inv that by (auto simp: log_inv_def log_present_def le_Suc_eq)
  have S: "S \<le> length H" using inv by (simp add: log_inv_def)
  have "?c (snapshot_path pre) = c (snapshot_path pre)"
    using snapshot_path_neq_log [of pre "length H + 1"] by auto
  then show "case ?c (snapshot_path pre) of None \<Rightarrow> S = 0
      | Some x \<Rightarrow> \<exists>sn. from_slice_snapshot sd (so_body x) = Some sn \<and> snapshot_for (H @ [e]) S sn"
    using inv snapshot_for_extend [OF _ S]
    by (auto simp: log_inv_def split: option.splits)
qed (use inv in \<open>auto simp: log_inv_def\<close>)

context shared_log
begin

lemma sync_reaches_head:
  assumes sync: "sync log i s = (Inr n, i', s')" and log: "fl_store log = st" "fl_codec log = codec"
    and inv: "log_inv codec (fl_prefix log) H S (contents s)"
    and at: "index_at H m i" and holes: "no_holes (fl_prefix log) H (contents s) m"
    and head: "S < length H \<or> S \<le> m"
  shows "contents s' = contents s \<and> index_at H (length H) i'"
proof -
  let ?pre = "fl_prefix log" and ?c = "contents s"
  have m: "m \<le> length H" using at by (simp add: index_at_def)
  note up = sync_catches_up [OF sync log inv at holes]
  show ?thesis
  proof (cases "\<exists>k. m < k \<and> k \<le> length H \<and> log_present ?pre ?c k")
    case False
    then have "\<not> log_present ?pre ?c (length H) \<or> m = length H" using m by auto
    moreover have "log_present ?pre ?c (length H)" if "m \<noteq> length H"
      using inv head m that by (auto simp: log_inv_def)
    ultimately have "m = length H" by blast
    with up False at show ?thesis by simp
  qed (use up in simp)
qed

lemma load_reaches_head:
  assumes load: "load log s = (Inr i, s')" and log: "fl_store log = st" "fl_codec log = codec"
    and inv: "log_inv codec (fl_prefix log) H S (contents s)"
  shows "contents s' = contents s \<and> index_at H (length H) i"
proof -
  from load obtain o' s1 where read: "read_snapshot log s = (Inr o', s1)"
    by (auto simp: load_def split: prod.splits sum.splits)
  from read_snapshot_ok [OF read log inv] have s1: "contents s1 = contents s"
    and o': "case o' of None \<Rightarrow> S = 0 | Some sn \<Rightarrow> snapshot_for H S sn" by auto
  let ?i = "case o' of None \<Rightarrow> FileIndex_new | Some sn \<Rightarrow> restore sn FileIndex_new"
  have "S \<le> length H" using inv by (simp add: log_inv_def)
  then have at: "index_at H S ?i"
    using o' snapshot_for_index_at by (auto simp: index_at_def split: option.splits)
  from load read obtain n where "sync log ?i s1 = (Inr n, i, s')"
    by (auto simp: load_def Let_def split: prod.splits sum.splits)
  from sync_reaches_head [OF this log _ at, of S] log_inv_no_holes [OF inv order_refl] inv s1
  show ?thesis by simp
qed

lemma delete_all_effect:
  "delete_all st ps s = (n, s') \<Longrightarrow> contents s' p = contents s p \<or> (contents s' p = None \<and> p \<in> set ps)"
proof (induction ps arbitrary: s n)
  case (Cons q ps)
  obtain r s1 where del: "os_delete st q s = (r, s1)" by fastforce
  then have "contents s1 = contents s \<or> contents s1 = (contents s)(q := None)"
    using delete_ok delete_failed by (cases r) blast+
  moreover obtain n1 where "delete_all st ps s1 = (n1, s')"
    using Cons.prems del by (auto split: sum.splits prod.splits)
  ultimately show ?case using Cons.IH [of s1 n1] by (auto split: if_splits)
qed simp

lemma prune_inv:
  assumes "prune_logs_through log S s = (r, s')" and log: "fl_store log = st"
    and inv: "log_inv codec (fl_prefix log) H S (contents s)"
  shows "log_inv codec (fl_prefix log) H S (contents s')"
proof -
  let ?pre = "fl_prefix log"
  obtain rl s1 where listed: "os_list st (logs_dir ?pre) s = (rl, s1)" by fastforce
  have s1: "contents s1 = contents s" using list_frame [OF listed] .
  show ?thesis
  proof (cases rl)
    case (Inl e)
    then show ?thesis using assms listed s1 by (auto simp: prune_logs_through_def)
  next
    case (Inr locs)
    then obtain n where del: "delete_all st (filter (covered S) locs) s1 = (n, s')"
      using assms listed by (auto simp: prune_logs_through_def split: prod.splits)
    have pos: "\<exists>k \<le> S. p = log_path ?pre k" if "p \<in> set (filter (covered S) locs)" for p
    proof -
      have "contents s p \<noteq> None" "under (logs_dir ?pre) p" "covered S p"
        using that list_ok listed Inr by auto
      moreover from this obtain k where "1 \<le> k" "k \<le> length H" "p = log_path ?pre k"
        using inv unfolding log_inv_def by blast
      moreover have "length H \<le> u64_max" using inv by (simp add: log_inv_def history_ok_def)
      ultimately show ?thesis by (auto simp: covered_def log_seq_of_log_path)
    qed
    show ?thesis
      by (rule log_inv_prune [OF inv]) (use delete_all_effect [OF del] pos s1 in fastforce)
  qed
qed

text \<open>A rollup written by a reader that is not behind the previous one moves the rollup position
  to that reader's; the history and everything above the rollup stay.\<close>

lemma write_snapshot_inv:
  assumes wr: "write_snapshot log i s = (r, s')" and log: "fl_store log = st" "fl_codec log = codec"
    and inv: "log_inv codec (fl_prefix log) H S (contents s)" and at: "index_at H m i" and "S \<le> m"
  shows "\<exists>S'. S \<le> S' \<and> S' \<le> m \<and> log_inv codec (fl_prefix log) H S' (contents s') \<and> (r = Inr () \<longrightarrow> S' = m)"
proof (cases "to_vec_snapshot codec (to_snapshot i)")
  case None
  then show ?thesis using wr log inv assms(6) by (auto simp: write_snapshot_def)
next
  case (Some body)
  let ?p = "snapshot_path (fl_prefix log)" and ?x = "\<lparr>so_body = body, so_attrs = []\<rparr>"
  have H: "history_ok H" using inv by (simp add: log_inv_def)
  have m: "m \<le> length H" using at by (simp add: index_at_def)
  have seq: "sn_sequence (to_snapshot i) = m"
    using index_at_sequence [OF H at] by (simp add: to_snapshot_def)
  have rolled: "log_inv codec (fl_prefix log) H m ((contents s)(?p \<mapsto> ?x))"
    by (rule log_inv_rollup [OF inv assms(6) m _ snapshot_for_to_snapshot [OF H at]])
      (use snapshot_roundtrip [OF Some] in simp)
  obtain r1 s1 where put: "os_put st ?p body s = (r1, s1)" by fastforce
  show ?thesis
  proof (cases r1)
    case (Inl e)
    then have "r = Inl (ObjectStoreError e)" "s' = s1"
      using wr log Some put by (auto simp: write_snapshot_def Let_def)
    moreover have "contents s1 = contents s \<or> contents s1 = (contents s)(?p \<mapsto> ?x)"
      using put_failed put Inl by blast
    ultimately show ?thesis using inv rolled assms(6) by auto
  next
    case (Inr u)
    then have "contents s1 = (contents s)(?p \<mapsto> ?x)" using put_ok put by blast
    with rolled have inv1: "log_inv codec (fl_prefix log) H m (contents s1)" by simp
    obtain r2 s2 where prune: "prune_logs_through log m s1 = (r2, s2)" by fastforce
    then have "s' = s2" using wr log Some put Inr seq
      by (auto simp: write_snapshot_def Let_def split: sum.splits)
    with prune_inv [OF prune log(1) inv1] assms(6) show ?thesis by auto
  qed
qed

end

section \<open>Appending\<close>

definition repeated :: "file_index_log_entry list \<Rightarrow> file_index_delta list \<Rightarrow> nat \<Rightarrow> file_index_log_entry list" where
  "repeated H deltas d =
     H @ map (\<lambda>q. \<lparr>le_sequence = q, le_deltas = deltas\<rparr>) [length H + 1..<length H + 1 + d]"

definition nonces_ok :: "(nat \<Rightarrow> string) \<Rightarrow> nat \<Rightarrow> (obj_path \<rightharpoonup> 'b stored_object) \<Rightarrow> bool" where
  "nonces_ok nonces j c \<longleftrightarrow> inj nonces \<and> (\<forall>j' \<ge> j. nonce_fresh c (nonces j'))"

text \<open>The outcome of at most \<open>k\<close> attempts: the caller's deltas were added up to \<open>k\<close> times at the
  end of the history, and a reported position is the last one, with the index brought there.\<close>

definition appended ::
  "'b serde \<Rightarrow> string \<Rightarrow> file_index_log_entry list \<Rightarrow> file_index_delta list \<Rightarrow> nat \<Rightarrow>
   file_index_log_error + nat \<Rightarrow> file_index \<Rightarrow> (obj_path \<rightharpoonup> 'b stored_object) \<Rightarrow> bool" where
  "appended sd pre H deltas k r i c \<longleftrightarrow>
     (\<exists>d S m. d \<le> k \<and> log_inv sd pre (repeated H deltas d) S c \<and> index_at (repeated H deltas d) m i \<and>
        (\<forall>q. r = Inr q \<longrightarrow> 1 \<le> d \<and> q = length H + d \<and> m = q))"

lemma repeated_0 [simp]: "repeated H deltas 0 = H"
  by (simp add: repeated_def)

lemma repeated_Suc:
  "repeated (H @ [\<lparr>le_sequence = length H + 1, le_deltas = deltas\<rparr>]) deltas d = repeated H deltas (Suc d)"
  by (simp add: repeated_def upt_conv_Cons del: upt_Suc)

lemma length_repeated [simp]: "length (repeated H deltas d) = length H + d"
  by (simp add: repeated_def)

lemma appended_none:
  "log_inv sd pre H S c \<Longrightarrow> index_at H m i \<Longrightarrow> appended sd pre H deltas k (Inl e) i c"
  unfolding appended_def by (intro exI [of _ 0] exI [of _ S] exI [of _ m]) simp

lemma appended_one:
  assumes "log_inv sd pre (H @ [\<lparr>le_sequence = length H + 1, le_deltas = deltas\<rparr>]) S c"
    and "index_at (H @ [\<lparr>le_sequence = length H + 1, le_deltas = deltas\<rparr>]) m i"
    and "\<And>q. r = Inr q \<Longrightarrow> q = length H + 1 \<and> m = q"
  shows "appended sd pre H deltas (Suc k) r i c"
proof -
  have "repeated H deltas 1 = H @ [\<lparr>le_sequence = length H + 1, le_deltas = deltas\<rparr>]"
    by (simp add: repeated_def)
  with assms show ?thesis
    unfolding appended_def by (intro exI [of _ 1] exI [of _ S] exI [of _ m]) simp
qed

lemma appended_skip: "appended sd pre H deltas k r i c \<Longrightarrow> appended sd pre H deltas (Suc k) r i c"
  unfolding appended_def by (meson le_SucI)

lemma appended_again:
  assumes "appended sd pre (H @ [\<lparr>le_sequence = length H + 1, le_deltas = deltas\<rparr>]) deltas k r i c"
  shows "appended sd pre H deltas (Suc k) r i c"
proof -
  from assms obtain d S m where d: "d \<le> k" and inv: "log_inv sd pre (repeated H deltas (Suc d)) S c"
    and at: "index_at (repeated H deltas (Suc d)) m i"
    and r: "\<And>q. r = Inr q \<Longrightarrow> 1 \<le> d \<and> q = length H + 1 + d \<and> m = q"
    unfolding appended_def repeated_Suc by (elim exE conjE) simp
  have "\<forall>q. r = Inr q \<longrightarrow> 1 \<le> Suc d \<and> q = length H + Suc d \<and> m = q" using r by simp
  moreover have "Suc d \<le> Suc k" using d by simp
  ultimately show ?thesis unfolding appended_def using inv at by (intro exI conjI)
qed

lemma append_loop_step:
  assumes "sync log i s = (Inr n, i1, s1)" and "fi_sequence i1 = N"
    and "e = \<lparr>le_sequence = N + 1, le_deltas = deltas\<rparr>" and "to_vec_entry (fl_codec log) e = Some body"
    and "os_put_opts (fl_store log) (log_path (fl_prefix log) (N + 1)) body
      (SelfVerifyingCreate_put_options (SelfVerifyingCreate_with_nonce (nonces j))) s1 = (rp, s2)"
  shows "append_loop log nonces deltas (Suc k) j i s =
    (case rp of
       Inr u \<Rightarrow> (Inr (N + 1), apply_entry e i1, maybe_snapshot log (apply_entry e i1) s2)
     | Inl x \<Rightarrow> if x = AlreadyExists then append_loop log nonces deltas k (j + 1) i1 s2
               else (Inl (ObjectStoreError x), i1, s2))"
  using assms by (simp add: append_loop.simps seq_next_def Let_def split: sum.split)

lemma append_loop_stop:
  assumes "sync log i s = (Inr n, i1, s1)"
    and "to_vec_entry (fl_codec log) \<lparr>le_sequence = fi_sequence i1 + 1, le_deltas = deltas\<rparr> = None"
  shows "append_loop log nonces deltas (Suc k) j i s = (Inl Serialize, i1, s1)"
  using assms by (simp add: append_loop.simps seq_next_def Let_def)

lemma nonces_ok_later: "nonces_ok nonces j c \<Longrightarrow> nonces_ok nonces (j + 1) c"
  by (simp add: nonces_ok_def)

lemma nonces_ok_created:
  assumes "nonces_ok nonces j c"
    and "created p b (SelfVerifyingCreate_put_options (SelfVerifyingCreate_with_nonce (nonces j))) c c'"
  shows "nonces_ok nonces (j + 1) c'"
proof -
  have inj: "inj nonces" and fresh: "nonce_fresh c (nonces j')" if "j \<le> j'" for j'
    using assms(1) that by (auto simp: nonces_ok_def)
  from assms(2) obtain a where c': "c' = c(p \<mapsto> \<lparr>so_body = b, so_attrs = a\<rparr>)"
    and a: "\<And>n. nonce_check a n = Ours \<Longrightarrow> nonces j = n"
    by (auto simp: created_def carries_nonce_def SelfVerifyingCreate_put_options_def
        SelfVerifyingCreate_with_nonce_def)
  have "nonce_check a (nonces j') \<noteq> Ours" if "j + 1 \<le> j'" for j'
    using a [of "nonces j'"] injD [OF inj, of j j j'] that by auto
  with fresh inj show ?thesis
    by (auto simp: nonces_ok_def nonce_fresh_def c')
qed

context shared_log
begin

lemma fetch_entries_frame:
  "fetch_entries log ps s = (r, s') \<Longrightarrow> fl_store log = st \<Longrightarrow> contents s' = contents s"
proof (induction ps arbitrary: s r)
  case (Cons p ps)
  obtain r1 s1 where get: "os_get st p s = (r1, s1)" by fastforce
  have "contents s1 = contents s" using get_frame [OF get] .
  moreover have "s' = s1 \<or> (\<exists>r2. fetch_entries log ps s1 = (r2, s'))"
    using Cons.prems get by (auto split: sum.splits option.splits prod.splits)
  ultimately show ?case using Cons.IH Cons.prems(2) by metis
qed simp

lemma read_snapshot_frame:
  assumes "read_snapshot log s = (r, s')" and "fl_store log = st"
  shows "contents s' = contents s"
  using assms get_frame [of "snapshot_path (fl_prefix log)" s]
  by (auto simp: read_snapshot_def split: prod.splits sum.splits option.splits if_splits)

lemma load_after_frame:
  assumes "load_after log m s = (r, s')" and "fl_store log = st"
  shows "contents s' = contents s"
  using assms list_offset_frame [of "logs_dir (fl_prefix log)" "log_path (fl_prefix log) m" s]
    fetch_entries_frame
  by (fastforce simp: load_after_def split: prod.splits sum.splits)

lemma sync_error:
  assumes "sync log i s = (Inl e, i', s')" and log: "fl_store log = st"
  shows "contents s' = contents s \<and> i' = i"
proof -
  obtain r s1 where load: "load_after log (fi_sequence i) s = (r, s1)" by fastforce
  have s1: "contents s1 = contents s" using load_after_frame [OF load log] .
  obtain r2 s2 where read: "read_snapshot log s1 = (r2, s2)" by fastforce
  have "contents s2 = contents s1" using read_snapshot_frame [OF read log] .
  with s1 assms(1) load read show ?thesis
    by (auto simp: sync_def restore_from_snapshot_def Let_def split: sum.splits if_splits option.splits prod.splits list.splits)
qed

lemma maybe_snapshot_inv:
  assumes log: "fl_store log = st" "fl_codec log = codec"
    and inv: "log_inv codec (fl_prefix log) H S (contents s)" and at: "index_at H m i" and "S \<le> m"
  shows "\<exists>S'. S' \<le> m \<and> log_inv codec (fl_prefix log) H S' (contents (maybe_snapshot log i s))"
proof (cases "fl_snapshot_interval log = 0 \<or> \<not> fl_snapshot_interval log dvd fi_sequence i")
  case True
  then show ?thesis using inv assms(5) by (auto simp: maybe_snapshot_def)
next
  case False
  obtain r s' where wr: "write_snapshot log i s = (r, s')" by fastforce
  then have "maybe_snapshot log i s = s'" using False by (simp add: maybe_snapshot_def)
  then show ?thesis using write_snapshot_inv [OF wr log inv at assms(5)] by auto
qed

lemma append_put:
  assumes put: "os_put_opts st (log_path pre (length H + 1)) body
      (SelfVerifyingCreate_put_options (SelfVerifyingCreate_with_nonce (nonces j))) s = (r, s')"
    and body: "to_vec_entry codec e = Some body" and e: "le_sequence e = length H + 1"
    and inv: "log_inv codec pre H S (contents s)" and room: "length H < u64_max"
    and nonces: "nonces_ok nonces j (contents s)"
  shows "(log_inv codec pre H S (contents s') \<or> log_inv codec pre (H @ [e]) S (contents s')) \<and>
    (\<forall>u. r = Inr u \<longrightarrow> log_inv codec pre (H @ [e]) S (contents s')) \<and> nonces_ok nonces (j + 1) (contents s')"
proof -
  let ?o = "SelfVerifyingCreate_put_options (SelfVerifyingCreate_with_nonce (nonces j))"
  let ?p = "log_path pre (length H + 1)"
  have o: "po_mode ?o = Create" "marker_usable (contents s) ?o" "po_marker ?o \<noteq> Some None"
    using nonces
    by (simp_all add: SelfVerifyingCreate_put_options_def SelfVerifyingCreate_with_nonce_def
        marker_usable_def nonces_ok_def)
  have new: "log_inv codec pre (H @ [e]) S (contents s')"
    if "created ?p body ?o (contents s) (contents s')"
    using that log_inv_append [OF inv e room] entry_roundtrip [OF body] by (auto simp: created_def)
  have "contents s' = contents s \<or> created ?p body ?o (contents s) (contents s')"
    using create_ok [of ?p body ?o s] create_failed [of ?p body ?o s] put o by (cases r) auto
  moreover have "created ?p body ?o (contents s) (contents s')" if "r = Inr u" for u
    using create_ok put that o(1,2) by blast
  ultimately show ?thesis
    using new inv nonces_ok_created [OF nonces] nonces_ok_later [OF nonces] by auto
qed

text \<open>What one attempt leads to once the caller is at the head and the put has answered.\<close>

lemma append_attempt:
  assumes log: "fl_store log = st" "fl_codec log = codec"
    and e: "e = \<lparr>le_sequence = length H + 1, le_deltas = deltas\<rparr>"
    and inv: "log_inv codec (fl_prefix log) (H @ [e]) S (contents s)" and "S \<le> length H"
    and at: "index_at H (length H) i"
  shows "appended codec (fl_prefix log) H deltas (Suc k) (Inr (length H + 1)) (apply_entry e i)
           (contents (maybe_snapshot log (apply_entry e i) s))"
proof -
  have "history_ok (H @ [e])" using inv by (simp add: log_inv_def)
  then have at': "index_at (H @ [e]) (length H + 1) (apply_entry e i)" using index_at_apply at by blast
  from maybe_snapshot_inv [OF log inv at'] assms(5) obtain S' where
    "log_inv codec (fl_prefix log) (H @ [e]) S' (contents (maybe_snapshot log (apply_entry e i) s))" by auto
  from this at' show ?thesis unfolding e by (rule appended_one) simp
qed

lemma append_loop_answered:
  assumes log: "fl_store log = st" "fl_codec log = codec"
    and e: "e = \<lparr>le_sequence = length H + 1, le_deltas = deltas\<rparr>" and S: "S \<le> length H"
    and at: "index_at H (length H) i" and H': "H' = H \<or> H' = H @ [e]"
    and inv: "log_inv codec (fl_prefix log) H' S (contents s)" and landed: "\<And>u. rp = Inr u \<Longrightarrow> H' = H @ [e]"
    and again: "\<And>r i' s'. append_loop log nonces deltas k j i s = (r, i', s') \<Longrightarrow>
      appended codec (fl_prefix log) H' deltas k r i' (contents s')"
    and res: "(case rp of
       Inr u \<Rightarrow> (Inr (length H + 1), apply_entry e i, maybe_snapshot log (apply_entry e i) s)
     | Inl x \<Rightarrow> if x = AlreadyExists then append_loop log nonces deltas k j i s
               else (Inl (ObjectStoreError x), i, s)) = (r, i', s')"
  shows "appended codec (fl_prefix log) H deltas (Suc k) r i' (contents s')"
proof -
  consider (landed) u where "rp = Inr u" | (retry) "rp = Inl AlreadyExists"
    | (fail) x where "rp = Inl x" "x \<noteq> AlreadyExists" by (cases rp) auto
  then show ?thesis
  proof cases
    case landed
    with assms(8) inv have "log_inv codec (fl_prefix log) (H @ [e]) S (contents s)" by blast
    from append_attempt [OF log e this S at, of k] res landed show ?thesis by auto
  next
    case fail
    with res have r: "r = Inl (ObjectStoreError x)" "i' = i" "s' = s" by simp_all
    from H' show ?thesis
    proof
      assume "H' = H"
      with inv at r show ?thesis by (simp add: appended_none)
    next
      assume *: "H' = H @ [e]"
      show ?thesis unfolding r
        by (rule appended_one [OF inv [unfolded * e] index_at_extend [OF at]]) simp
    qed
  next
    case retry
    with res have "append_loop log nonces deltas k j i s = (r, i', s')" by simp
    from again [OF this] H' show ?thesis using appended_skip appended_again e by blast
  qed
qed

lemma append_loop_inv:
  assumes "append_loop log nonces deltas k j i s = (r, i', s')"
    and log: "fl_store log = st" "fl_codec log = codec"
    and "log_inv codec (fl_prefix log) H S (contents s)" and "index_at H m i"
    and "no_holes (fl_prefix log) H (contents s) m" and "S < length H \<or> S \<le> m"
    and "nonces_ok nonces j (contents s)" and "length H + k \<le> u64_max"
  shows "appended codec (fl_prefix log) H deltas k r i' (contents s')"
  using assms(1,4-9)
proof (induction k arbitrary: j i s H m r i' s')
  case 0
  then show ?case by (auto simp: append_loop.simps intro: appended_none)
next
  case (Suc k)
  let ?pre = "fl_prefix log"
  obtain rs i1 s1 where sync: "sync log i s = (rs, i1, s1)" using prod_cases3 by blast
  show ?case
  proof (cases rs)
    case (Inl e)
    from sync_error [OF sync [unfolded Inl] log(1)] Suc.prems(1-3) sync Inl show ?thesis
      by (auto simp: append_loop.simps intro: appended_none)
  next
    case (Inr n)
    from sync_reaches_head [OF sync [unfolded Inr] log Suc.prems(2-5)]
    have s1: "contents s1 = contents s" and at1: "index_at H (length H) i1" by auto
    have H: "history_ok H" and S: "S \<le> length H" using Suc.prems(2) by (auto simp: log_inv_def)
    have seq: "fi_sequence i1 = length H" using index_at_sequence [OF H at1] .
    define e where e: "e = \<lparr>le_sequence = length H + 1, le_deltas = deltas\<rparr>"
    show ?thesis
    proof (cases "to_vec_entry codec e")
      case None
      then have "append_loop log nonces deltas (Suc k) j i s = (Inl Serialize, i1, s1)"
        using append_loop_stop [OF sync [unfolded Inr]] log seq e by simp
      with Suc.prems(1,2) at1 s1 show ?thesis by (auto intro: appended_none)
    next
      case (Some body)
      obtain rp s2 where put: "os_put_opts st (log_path ?pre (length H + 1)) body
          (SelfVerifyingCreate_put_options (SelfVerifyingCreate_with_nonce (nonces j))) s1 = (rp, s2)" by fastforce
      have "length H < u64_max" using Suc.prems(7) by simp
      from append_put [where nonces = nonces and j = j, OF put Some _ _ this] Suc.prems(2,6) s1
      obtain H' where H': "H' = H \<or> H' = H @ [e]" "log_inv codec ?pre H' S (contents s2)"
          "\<And>u. rp = Inr u \<Longrightarrow> H' = H @ [e]" and nonces2: "nonces_ok nonces (j + 1) (contents s2)"
        by (cases rp) (auto simp: e)
      have at2: "index_at H' (length H) i1" using index_at_extend [OF at1] at1 H'(1) by blast
      have again: "appended codec ?pre H' deltas k r i' (contents s')"
        if "append_loop log nonces deltas k (j + 1) i1 s2 = (r, i', s')" for r i' s'
        by (rule Suc.IH [OF that H'(2) at2 log_inv_no_holes [OF H'(2) S] _ nonces2])
          (use S H'(1) Suc.prems(7) in auto)
      have "append_loop log nonces deltas (Suc k) j i s = (case rp of
          Inr u \<Rightarrow> (Inr (length H + 1), apply_entry e i1, maybe_snapshot log (apply_entry e i1) s2)
        | Inl x \<Rightarrow> if x = AlreadyExists then append_loop log nonces deltas k (j + 1) i1 s2
                  else (Inl (ObjectStoreError x), i1, s2))"
        by (rule append_loop_step [OF sync [unfolded Inr] seq e]) (use log Some put in simp_all)
      from this [symmetric] Suc.prems(1) show ?thesis
        by (intro append_loop_answered [where rp = rp, OF log e S at1 H'(1,2)] H'(3) again) simp_all
    qed
  qed
qed

end

section \<open>Runs in memory\<close>

definition ex_delta :: "node_name \<Rightarrow> nat \<Rightarrow> obj_path \<Rightarrow> file_index_delta" where
  "ex_delta n q p = \<lparr>fd_node_id = n, fd_db_id = 0, fd_table_id = 0, fd_snapshot_sequence = q,
     fd_added = [ex_file q p 0 9], fd_removed = []\<rparr>"

definition ex_log :: "nat \<Rightarrow> (json_doc mem, json_doc) file_index_log" where
  "ex_log interval = with_snapshot_interval interval
     (FileIndexLog_new (SelfVerifyingCreateStore ''g'' mem_store) json_codec ''c'')"

definition ex_nonces :: "string \<Rightarrow> nat \<Rightarrow> string" where
  "ex_nonces w j = w @ replicate j (CHR ''.'')"

text \<open>Node \<open>a\<close> appends twice and rolls up; node \<open>b\<close>, which has followed nothing, appends once.\<close>

definition behind_rollup_run ::
  "(file_index_log_error + nat) \<times> (file_index_log_error + nat) \<times> (file_index_log_error + file_index)" where
  "behind_rollup_run =
     (case append_deltas (ex_log 2) (ex_nonces ''a'') [ex_delta ''a'' 1 ''a/1''] FileIndex_new [] of
        (r1, ia, s1) \<Rightarrow>
      case append_deltas (ex_log 2) (ex_nonces ''b'') [ex_delta ''a'' 2 ''a/2''] ia s1 of
        (r2, ia2, s2) \<Rightarrow>
      case append_deltas (ex_log 2) (ex_nonces ''c'') [ex_delta ''b'' 1 ''b/1''] FileIndex_new s2 of
        (r3, ib, s3) \<Rightarrow> (r2, r3, fst (load (ex_log 2) s3)))"

text \<open>Node \<open>a\<close> appends and keeps an index at position 1; a second append is rolled up by another
  node; then \<open>a\<close>'s own, older rollup is written.\<close>

definition stale_rollup_run ::
  "(file_index_log_error + nat) \<times> (file_index_log_error + unit) \<times> (file_index_log_error + file_index)" where
  "stale_rollup_run =
     (case append_deltas (ex_log 0) (ex_nonces ''a'') [ex_delta ''a'' 1 ''a/1''] FileIndex_new [] of
        (r1, ia, s1) \<Rightarrow>
      case append_deltas (ex_log 2) (ex_nonces ''b'') [ex_delta ''b'' 1 ''b/1''] ia s1 of
        (r2, ib, s2) \<Rightarrow>
      case write_snapshot (ex_log 0) ia s2 of
        (r3, s3) \<Rightarrow> (r2, r3, fst (load (ex_log 0) s3)))"

text \<open>The reader is at position 0 and object 2 is gone while 1 and 3 survive: the state an
  interrupted or partly failed prune of a rollup at position 3 leaves.\<close>

definition ex_entry :: "nat \<Rightarrow> file_index_delta \<Rightarrow> file_index_log_entry" where
  "ex_entry q d = \<lparr>le_sequence = q, le_deltas = [d]\<rparr>"

definition ex_removal :: file_index_delta where
  "ex_removal = \<lparr>fd_node_id = ''a'', fd_db_id = 0, fd_table_id = 0, fd_snapshot_sequence = 2,
     fd_added = [], fd_removed = [''a/1'']\<rparr>"

definition ex_history :: "file_index_log_entry list" where
  "ex_history = [ex_entry 1 (ex_delta ''a'' 1 ''a/1''), ex_entry 2 ex_removal,
     ex_entry 3 (ex_delta ''b'' 3 ''b/3'')]"

definition ex_object :: "json_doc \<Rightarrow> json_doc stored_object" where
  "ex_object d = \<lparr>so_body = d, so_attrs = []\<rparr>"

definition holed_store :: "json_doc mem" where
  "holed_store =
     [(snapshot_path ''c'', ex_object (SnapshotDoc (to_snapshot (replay ex_history FileIndex_new)))),
      (log_path ''c'' 1, ex_object (EntryDoc (ex_history ! 0))),
      (log_path ''c'' 3, ex_object (EntryDoc (ex_history ! 2)))]"

lemma ex_log_fields [simp]:
  "fl_store (ex_log n) = SelfVerifyingCreateStore ''g'' mem_store" "fl_codec (ex_log n) = json_codec"
  "fl_prefix (ex_log n) = ''c''" "fl_snapshot_interval (ex_log n) = n"
  by (simp_all add: ex_log_def with_snapshot_interval_def FileIndexLog_new_def)

lemma inj_ex_nonces: "inj (ex_nonces w)"
  by (rule injI) (auto simp: ex_nonces_def dest: arg_cong [where f = length])

lemma json_codec_fields [simp]:
  "to_vec_entry json_codec e = Some (EntryDoc e)"
  "from_slice_entry json_codec (EntryDoc e) = Some e"
  "to_vec_snapshot json_codec sn = Some (SnapshotDoc sn)"
  "from_slice_snapshot json_codec (SnapshotDoc sn) = Some sn"
  by (simp_all add: json_codec_def)

lemmas append_deltas_run =
  append_deltas_def MAX_APPEND_ATTEMPTS_def append_loop.simps(2) [of _ _ _ 15, simplified]

lemma restore_sequence [simp]: "fi_sequence (restore sn i) = max (fi_sequence i) (sn_sequence sn)"
  by (simp add: restore_def Let_def)

lemma to_snapshot_sequence [simp]: "sn_sequence (to_snapshot i) = fi_sequence i"
  by (simp add: to_snapshot_def)

text \<open>Names of small positions compare as the positions do, so runs need not expand them.\<close>

lemmas run_simps =
  append_deltas_run sync_def load_after_def
  self_verifying_put_opts_def SelfVerifyingCreate_put_options_def SelfVerifyingCreate_with_nonce_def
  into_nonce_def maybe_snapshot_def write_snapshot_def prune_logs_through_def covered_def
  load_def read_snapshot_def restore_from_snapshot_def hm_insert_def hm_remove_def
  log_path_inj log_path_less_iff log_seq_of_log_path snapshot_path_neq_log snapshot_path_neq_log [symmetric]
  under_log_path snapshot_path_not_log u64_max_def seq_next_def Let_def

lemma behind_rollup_run_result:
  "behind_rollup_run = (Inr 2, Inr 1,
     Inr (restore (to_snapshot
       (apply_entry (ex_entry 2 (ex_delta ''a'' 2 ''a/2''))
         (apply_entry (ex_entry 1 (ex_delta ''a'' 1 ''a/1'')) FileIndex_new))) FileIndex_new))"
  unfolding behind_rollup_run_def ex_entry_def by (simp add: run_simps) (simp add: numeral_2_eq_2)

lemma stale_rollup_run_result:
  "stale_rollup_run = (Inr 2, Inr (),
     Inr (restore (to_snapshot (apply_entry (ex_entry 1 (ex_delta ''a'' 1 ''a/1'')) FileIndex_new)) FileIndex_new))"
  unfolding stale_rollup_run_def ex_entry_def by (simp add: run_simps)

lemma ex_history_nth [simp]:
  "ex_history ! 0 = ex_entry 1 (ex_delta ''a'' 1 ''a/1'')"
  "ex_history ! 2 = ex_entry 3 (ex_delta ''b'' 3 ''b/3'')"
  by (simp_all add: ex_history_def)

lemma ex_entry_sequence [simp]: "le_sequence (ex_entry q d) = q"
  by (simp add: ex_entry_def)


lemma holed_sync_result:
  "sync (ex_log 0) FileIndex_new holed_store =
     (Inr 2, replay [ex_history ! 0, ex_history ! 2] FileIndex_new, holed_store)"
  by (simp add: holed_store_def ex_object_def run_simps)

section \<open>Operations succeed on a store that answers\<close>

text \<open>Reads fail only for the documented reason.\<close>

definition reliable :: "('s, 'b) object_store \<Rightarrow> ('s \<Rightarrow> obj_path \<rightharpoonup> 'b stored_object) \<Rightarrow> bool" where
  "reliable st contents \<longleftrightarrow>
     (\<forall>p s. contents s p \<noteq> None \<longrightarrow> (\<exists>x s'. os_get st p s = (Inr x, s'))) \<and>
     (\<forall>p s. contents s p = None \<longrightarrow> (\<exists>s'. os_get st p s = (Inl NotFound, s'))) \<and>
     (\<forall>pre off s. \<exists>ps s'. os_list_with_offset st pre off s = (Inr ps, s'))"

lemma log_inv_entry:
  "log_inv sd pre H S c \<Longrightarrow> 1 \<le> k \<Longrightarrow> k \<le> length H \<Longrightarrow> c (log_path pre k) = Some x \<Longrightarrow>
   from_slice_entry sd (so_body x) = Some (H ! (k - 1))"
  by (simp add: log_inv_def)

lemma reliable_get:
  assumes "reliable st contents" and "contents s p = Some x"
  obtains y s' where "os_get st p s = (Inr y, s')"
proof -
  have "contents s p \<noteq> None" using assms(2) by simp
  with assms(1) that show thesis unfolding reliable_def by blast
qed

lemma reliable_get_none:
  assumes "reliable st contents" and "contents s p = None"
  obtains s' where "os_get st p s = (Inl NotFound, s')"
  using assms unfolding reliable_def by blast

lemma reliable_list:
  assumes "reliable st contents"
  obtains ps s' where "os_list_with_offset st pre off s = (Inr ps, s')"
  using assms unfolding reliable_def by blast

context shared_log
begin

lemma fetch_entries_succeeds:
  assumes "reliable st contents" and log: "fl_store log = st" "fl_codec log = codec"
    and "\<And>p. p \<in> set ps \<Longrightarrow> \<exists>x e. contents s p = Some x \<and> from_slice_entry codec (so_body x) = Some e"
  shows "\<exists>es s'. fetch_entries log ps s = (Inr es, s')"
  using assms(4)
proof (induction ps arbitrary: s)
  case (Cons p ps)
  then obtain x e where x: "contents s p = Some x" "from_slice_entry codec (so_body x) = Some e"
    by force
  from reliable_get [OF assms(1) x(1)] obtain y s1 where get: "os_get st p s = (Inr y, s1)" .
  with x get_ok get_frame have "y = x" "contents s1 = contents s" by fastforce+
  with Cons obtain es s2 where "fetch_entries log ps s1 = (Inr es, s2)" by fastforce
  with get x \<open>y = x\<close> log show ?case by simp
qed simp

lemma load_after_succeeds:
  assumes rel: "reliable st contents" and log: "fl_store log = st" "fl_codec log = codec"
    and inv: "log_inv codec (fl_prefix log) H S (contents s)" and m: "m \<le> length H"
  shows "\<exists>es s'. load_after log m s = (Inr es, s')"
proof -
  from reliable_list [OF rel] obtain locs s1 where
    listed: "os_list_with_offset st (logs_dir (fl_prefix log)) (log_path (fl_prefix log) m) s = (Inr locs, s1)" .
  have s1: "contents s1 = contents s" using list_offset_frame [OF listed] .
  have "\<exists>x e. contents s1 p = Some x \<and> from_slice_entry codec (so_body x) = Some e" if p: "p \<in> set locs" for p
  proof -
    from p listed_positions [OF listed inv m] obtain k where
      k': "m < k" "k \<le> length H" "p = log_path (fl_prefix log) k"
        "log_present (fl_prefix log) (contents s) k" by auto
    then have k: "1 \<le> k" "k \<le> length H" "p = log_path (fl_prefix log) k" "contents s p \<noteq> None"
      by (simp_all add: log_present_def)
    then obtain x where x: "contents s p = Some x" by blast
    with log_inv_entry [OF inv k(1,2)] k(3) s1 show ?thesis by simp
  qed
  from fetch_entries_succeeds [OF rel log this] listed log show ?thesis
    by (simp add: load_after_def)
qed

lemma read_snapshot_succeeds:
  assumes "reliable st contents" and "fl_store log = st" "fl_codec log = codec"
    and "log_inv codec (fl_prefix log) H S (contents s)"
  shows "\<exists>o' s'. read_snapshot log s = (Inr o', s')"
proof (cases "contents s (snapshot_path (fl_prefix log))")
  case None
  from reliable_get_none [OF assms(1) None]
  obtain s' where "os_get st (snapshot_path (fl_prefix log)) s = (Inl NotFound, s')" .
  with assms(2) show ?thesis by (simp add: read_snapshot_def)
next
  case (Some x)
  from reliable_get [OF assms(1) Some]
  obtain y s' where get: "os_get st (snapshot_path (fl_prefix log)) s = (Inr y, s')" .
  with Some get_ok have "y = x" by fastforce
  with Some assms get show ?thesis by (auto simp: read_snapshot_def log_inv_def)
qed

lemma sync_succeeds:
  assumes rel: "reliable st contents" and log: "fl_store log = st" "fl_codec log = codec"
    and inv: "log_inv codec (fl_prefix log) H S (contents s)" and at: "index_at H m i"
  shows "\<exists>n i' s'. sync log i s = (Inr n, i', s')"
proof -
  have "fi_sequence i \<le> length H" using at index_at_sequence [of H m i] inv
    by (auto simp: log_inv_def index_at_def)
  from load_after_succeeds [OF rel log inv this] obtain es s1 where
    load: "load_after log (fi_sequence i) s = (Inr es, s1)" by blast
  have "log_inv codec (fl_prefix log) H S (contents s1)"
    using load_after_frame [OF load log(1)] inv by simp
  from read_snapshot_succeeds [OF rel log this] obtain o' s2 where
    "read_snapshot log s1 = (Inr o', s2)" by blast
  with load show ?thesis
    by (auto simp: sync_def Let_def restore_from_snapshot_def split: option.splits)
qed

lemma load_succeeds:
  assumes rel: "reliable st contents" and log: "fl_store log = st" "fl_codec log = codec"
    and inv: "log_inv codec (fl_prefix log) H S (contents s)"
  shows "\<exists>i s'. load log s = (Inr i, s')"
proof -
  from read_snapshot_succeeds [OF rel log inv] obtain o' s1 where
    read: "read_snapshot log s = (Inr o', s1)" by blast
  note snap = read_snapshot_ok [OF read log inv]
  let ?i = "case o' of None \<Rightarrow> FileIndex_new | Some sn \<Rightarrow> restore sn FileIndex_new"
  have "S \<le> length H" using inv by (simp add: log_inv_def)
  then have "index_at H S ?i"
    using snap snapshot_for_index_at by (auto simp: index_at_def split: option.splits)
  from sync_succeeds [OF rel log _ this] inv snap obtain n i' s' where
    "sync log ?i s1 = (Inr n, i', s')" by metis
  with read show ?thesis by (auto simp: load_def Let_def)
qed

end

lemma mem_reliable: "reliable (SelfVerifyingCreateStore g mem_store) map_of"
  by (auto simp: reliable_def)

interpretation mem_log: shared_log "SelfVerifyingCreateStore g mem_store" map_of json_codec for g
  by unfold_locales simp_all

section \<open>Properties\<close>

text \<open>Claim C6. A starting node reconstructs the whole history of the log from the rollup and the
  objects above it, whatever prefix was pruned: the index it loads has the view of a replay of every
  entry ever appended, and on a store that answers its reads the load does not fail.\<close>

theorem load_sees_whole_history:
  assumes "shared_log st contents codec"
    and "log = \<lparr>fl_store = st, fl_codec = codec, fl_prefix = pre, fl_snapshot_interval = n\<rparr>"
    and "log_inv codec pre H S (contents s)"
  shows "(\<forall>i s'. load log s = (Inr i, s') \<longrightarrow>
            view i = view (replay H FileIndex_new) \<and> contents s' = contents s) \<and>
         (reliable st contents \<longrightarrow> (\<exists>i s'. load log s = (Inr i, s')))"
proof (intro conjI allI impI)
  have log: "fl_store log = st" "fl_codec log = codec" "fl_prefix log = pre" using assms(2) by simp_all
  show "view i = view (replay H FileIndex_new)" "contents s' = contents s" if "load log s = (Inr i, s')" for i s'
    using shared_log.load_reaches_head [OF assms(1) that log(1,2)] assms(3) log(3)
    by (auto simp: index_at_def)
  show "\<exists>i s'. load log s = (Inr i, s')" if "reliable st contents"
    using shared_log.load_succeeds [OF assms(1) that log(1,2)] assms(3) log(3) by simp
qed

lemma ex_log_eq: "ex_log n = \<lparr>fl_store = SelfVerifyingCreateStore ''g'' mem_store, fl_codec = json_codec,
    fl_prefix = ''c'', fl_snapshot_interval = n\<rparr>"
  by (simp add: ex_log_def with_snapshot_interval_def FileIndexLog_new_def)

lemma ex_log_inv: "log_inv json_codec ''c'' [ex_entry 1 d] 0 (map_of [(log_path ''c'' 1, ex_object (EntryDoc (ex_entry 1 d)))])"
  by (auto simp: log_inv_def history_ok_def ex_object_def log_present_def snapshot_path_neq_log
      le_Suc_eq u64_max_def split: if_splits)

theorem load_sees_whole_history_witness:
  "\<exists>i s'. load (ex_log 500) [(log_path ''c'' 1, ex_object (EntryDoc (ex_entry 1 (ex_delta ''a'' 1 ''a/1''))))] = (Inr i, s') \<and>
     view i = view (replay [ex_entry 1 (ex_delta ''a'' 1 ''a/1'')] FileIndex_new)"
proof -
  from load_sees_whole_history [OF mem_log.shared_log_axioms ex_log_eq ex_log_inv] mem_reliable
  show ?thesis by blast
qed

text \<open>Claim C14.  A follower at position \<open>m\<close> is brought to the head of the history by one pass, through
  the rollup if the objects it had not read were pruned, provided the surviving objects above it have no
  holes and the log was not rolled up and pruned to its head while the follower is behind.  Both
  conditions are needed: a prune that failed for some objects can hide an entry from the gap check, and a
  pass that lists no object above the follower does not read the rollup.\<close>

theorem follower_reaches_head:
  assumes "shared_log st contents codec"
    and "log = \<lparr>fl_store = st, fl_codec = codec, fl_prefix = pre, fl_snapshot_interval = n\<rparr>"
    and "log_inv codec pre H S (contents s)" and "index_at H m i"
    and "no_holes pre H (contents s) m" and "S < length H \<or> S \<le> m"
  shows "(\<forall>k i' s'. sync log i s = (Inr k, i', s') \<longrightarrow>
            view i' = view (replay H FileIndex_new) \<and> contents s' = contents s) \<and>
         (reliable st contents \<longrightarrow> (\<exists>k i' s'. sync log i s = (Inr k, i', s')))"
proof (intro conjI allI impI)
  have log: "fl_store log = st" "fl_codec log = codec" "fl_prefix log = pre" using assms(2) by simp_all
  show "view i' = view (replay H FileIndex_new)" "contents s' = contents s"
    if "sync log i s = (Inr k, i', s')" for k i' s'
    using shared_log.sync_reaches_head [OF assms(1) that log(1,2), of H S m] assms(3-6) log(3)
    by (auto simp: index_at_def)
  show "\<exists>k i' s'. sync log i s = (Inr k, i', s')" if "reliable st contents"
    using shared_log.sync_succeeds [OF assms(1) that log(1,2), of H S s m i] assms(3,4) log(3) by simp
qed

theorem follower_reaches_head_witness:
  "\<exists>k i' s'. sync (ex_log 500) FileIndex_new [(log_path ''c'' 1, ex_object (EntryDoc (ex_entry 1 (ex_delta ''a'' 1 ''a/1''))))]
      = (Inr k, i', s') \<and> view i' = view (replay [ex_entry 1 (ex_delta ''a'' 1 ''a/1'')] FileIndex_new)"
proof -
  let ?H = "[ex_entry 1 (ex_delta ''a'' 1 ''a/1'')]"
  let ?s = "[(log_path ''c'' 1, ex_object (EntryDoc (ex_entry 1 (ex_delta ''a'' 1 ''a/1''))))]"
  have at: "index_at ?H 0 FileIndex_new" by (simp add: index_at_def)
  have holes: "no_holes ''c'' ?H (map_of ?s) 0" by (rule log_inv_no_holes [OF ex_log_inv order_refl])
  have head: "0 < length ?H \<or> 0 \<le> (0::nat)" by simp
  note catch_up = follower_reaches_head
    [OF mem_log.shared_log_axioms ex_log_eq [of 500], OF ex_log_inv, OF at holes head]
  from catch_up [THEN conjunct2, THEN mp, OF mem_reliable]
  obtain k i' s' where run: "sync (ex_log 500) FileIndex_new ?s = (Inr k, i', s')" by blast
  from catch_up [THEN conjunct1, THEN spec, THEN spec, THEN spec, THEN mp, OF run]
  have "view i' = view (replay ?H FileIndex_new)" by (rule conjunct1)
  with run show ?thesis by (intro exI conjI)
qed

text \<open>Claim C5.  An append that reports position \<open>q\<close> has extended the history with the caller's deltas,
  the last time at \<open>q\<close>, and left the caller's index at \<open>q\<close>; whatever it reports, the store still
  holds exactly one history, which differs from the old one only by copies of the caller's deltas at
  its end, at most one per attempt, rolled up or not.  This holds for a caller whose index is a prefix of
  the history, above which the surviving objects have no holes, and which is not behind a rollup pruned to
  the head of the log (such a caller's append is lost), with fresh nonces and positions left.\<close>

theorem append_extends_history:
  assumes "shared_log st contents codec"
    and "log = \<lparr>fl_store = st, fl_codec = codec, fl_prefix = pre, fl_snapshot_interval = n\<rparr>"
    and "log_inv codec pre H S (contents s)" and "index_at H m i"
    and "no_holes pre H (contents s) m" and "S < length H \<or> S \<le> m"
    and "nonces_ok nonces 0 (contents s)" and "length H + MAX_APPEND_ATTEMPTS \<le> u64_max"
    and "deltas \<noteq> []" and "append_deltas log nonces deltas i s = (r, i', s')"
  shows "\<exists>d S' m'. d \<le> MAX_APPEND_ATTEMPTS \<and>
     log_inv codec pre (repeated H deltas d) S' (contents s') \<and>
     index_at (repeated H deltas d) m' i' \<and>
     (\<forall>q. r = Inr q \<longrightarrow> 1 \<le> d \<and> q = length H + d \<and> m' = q)"
proof -
  have log: "fl_store log = st" "fl_codec log = codec" "fl_prefix log = pre" using assms(2) by simp_all
  have "append_loop log nonces deltas MAX_APPEND_ATTEMPTS 0 i s = (r, i', s')"
    using assms(9,10) by (simp add: append_deltas_def)
  from shared_log.append_loop_inv [OF assms(1) this log(1,2)] assms(3-8) log(3)
  show ?thesis by (simp add: appended_def)
qed

theorem append_extends_history_witness:
  "\<exists>d S' m'. d \<le> MAX_APPEND_ATTEMPTS \<and>
     log_inv json_codec ''c'' (repeated [] [ex_delta ''a'' 1 ''a/1''] d) S'
       (map_of (snd (snd (append_deltas (ex_log 500) (ex_nonces ''a'') [ex_delta ''a'' 1 ''a/1''] FileIndex_new [])))) \<and>
     index_at (repeated [] [ex_delta ''a'' 1 ''a/1''] d) m'
       (fst (snd (append_deltas (ex_log 500) (ex_nonces ''a'') [ex_delta ''a'' 1 ''a/1''] FileIndex_new [])))"
proof -
  let ?r = "append_deltas (ex_log 500) (ex_nonces ''a'') [ex_delta ''a'' 1 ''a/1''] FileIndex_new []"
  have nonces: "nonces_ok (ex_nonces ''a'') 0 (map_of [])"
    by (simp add: nonces_ok_def nonce_fresh_def inj_ex_nonces)
  have inv: "log_inv json_codec ''c'' [] 0 (map_of [])"
    by (simp add: log_inv_def history_ok_def)
  have at: "index_at [] 0 FileIndex_new" by (simp add: index_at_def)
  have run: "?r = (fst ?r, fst (snd ?r), snd (snd ?r))" by simp
  have bounds: "0 < length [] \<or> 0 \<le> (0::nat)" "length [] + MAX_APPEND_ATTEMPTS \<le> u64_max"
    by (simp_all add: MAX_APPEND_ATTEMPTS_def u64_max_def)
  from append_extends_history [OF mem_log.shared_log_axioms ex_log_eq inv at
      log_inv_no_holes [OF inv order_refl] bounds(1) nonces bounds(2) _ run]
  show ?thesis by (simp only: list.distinct not_False_eq_True simp_thms) blast
qed

text \<open>Claim C15. A rollup written by a reader that is not behind the current one keeps the history: the
  rollup position only moves forward, at most to the reader's, exactly there on success, and every
  object above it survives the pruning, also when the put or some of the deletes fail.\<close>

theorem rollup_keeps_history:
  assumes "shared_log st contents codec"
    and "log = \<lparr>fl_store = st, fl_codec = codec, fl_prefix = pre, fl_snapshot_interval = n\<rparr>"
    and "log_inv codec pre H S (contents s)" and "index_at H m i" and "S \<le> m"
    and "write_snapshot log i s = (r, s')"
  shows "\<exists>S'. S \<le> S' \<and> S' \<le> m \<and> log_inv codec pre H S' (contents s') \<and> (r = Inr () \<longrightarrow> S' = m)"
proof -
  have log: "fl_store log = st" "fl_codec log = codec" "fl_prefix log = pre" using assms(2) by simp_all
  show ?thesis
    using shared_log.write_snapshot_inv [OF assms(1,6) log(1,2), of H S m] assms(3-5) log(3) by simp
qed

theorem rollup_keeps_history_witness:
  "\<exists>S'. S' \<le> 0 \<and> log_inv json_codec ''c'' [] S' (map_of (snd (write_snapshot (ex_log 500) FileIndex_new [])))"
proof -
  let ?r = "write_snapshot (ex_log 500) FileIndex_new []"
  have inv: "log_inv json_codec ''c'' [] 0 (map_of [])" by (simp add: log_inv_def history_ok_def)
  have at: "index_at [] 0 FileIndex_new" by (simp add: index_at_def)
  have run: "?r = (fst ?r, snd ?r)" by simp
  from rollup_keeps_history [OF mem_log.shared_log_axioms ex_log_eq inv at order_refl run]
  show ?thesis by blast
qed

text \<open>The side condition on the head is needed: when everything was rolled up and pruned, a
  node behind the rollup finds nothing to replay, reuses a pruned position and is told its append
  succeeded at position 1, yet a node that loads the log afterwards, at position 2, does not list
  the file.\<close>

theorem append_behind_rollup_is_lost:
  "\<exists>i. behind_rollup_run = (Inr 2, Inr 1, Inr i) \<and> fi_sequence i = 2 \<and>
       files_for_table i ''b'' 0 0 = []"
proof -
  have "files_for_table (restore (to_snapshot (apply_entry (ex_entry 2 (ex_delta ''a'' 2 ''a/2''))
      (apply_entry (ex_entry 1 (ex_delta ''a'' 1 ''a/1'')) FileIndex_new))) FileIndex_new) ''b'' 0 0 = []"
    by code_simp
  then show ?thesis by (simp add: behind_rollup_run_result)
qed

text \<open>A rollup written by a node behind the current one discards history: the older snapshot
  replaces the newer one after the objects between them were pruned, and a node that loads the log
  afterwards is back at position 1 and no longer lists the file appended at position 2.\<close>

theorem stale_rollup_discards_history:
  "\<exists>i. stale_rollup_run = (Inr 2, Inr (), Inr i) \<and> fi_sequence i = 1 \<and>
       files_for_table i ''b'' 0 0 = []"
proof -
  have "files_for_table (restore (to_snapshot (apply_entry (ex_entry 1 (ex_delta ''a'' 1 ''a/1''))
      FileIndex_new)) FileIndex_new) ''b'' 0 0 = []" by code_simp
  then show ?thesis by (simp add: stale_rollup_run_result)
qed

lemma ex_history_ok: "history_ok ex_history"
  by (auto simp: history_ok_def ex_history_def u64_max_def ex_entry_def nth_Cons split: nat.splits)

lemma holed_store_log:
  "k \<le> 3 \<Longrightarrow> map_of holed_store (log_path ''c'' k) =
     (if k = 1 \<or> k = 3 then Some (ex_object (EntryDoc (ex_history ! (k - 1)))) else None)"
  by (auto simp: holed_store_def log_path_inj u64_max_def snapshot_path_neq_log snapshot_path_neq_log [symmetric])

lemma holed_store_names:
  "map_of holed_store p \<noteq> None \<Longrightarrow> under (logs_dir ''c'') p \<Longrightarrow> p = log_path ''c'' 1 \<or> p = log_path ''c'' 3"
  by (auto simp: holed_store_def snapshot_path_not_log split: if_splits)

lemma holed_store_inv: "log_inv json_codec ''c'' ex_history 3 (map_of holed_store)"
proof -
  have len: "length ex_history = 3" by (simp add: ex_history_def)
  have "index_at ex_history 3 (replay ex_history FileIndex_new)"
    by (simp add: index_at_def ex_history_def wf_replay)
  then have snap: "snapshot_for ex_history 3 (to_snapshot (replay ex_history FileIndex_new))"
    by (rule snapshot_for_to_snapshot [OF ex_history_ok])
  have "\<exists>k\<ge>1. k \<le> 3 \<and> p = log_path ''c'' k"
    if "map_of holed_store p \<noteq> None" "under (logs_dir ''c'') p" for p
    using holed_store_names [OF that] by force
  then show ?thesis
    using snap ex_history_ok
    by (auto simp: log_inv_def len holed_store_log ex_object_def split: if_splits)
      (simp_all add: holed_store_def ex_object_def)
qed

text \<open>The contiguity condition is needed: a follower tests only the first object above it
  for a gap, so when a prune deleted object 2 but not object 1, it replays 1 and 3, never sees the
  removal in 2 and keeps serving a file the history no longer lists, although the store satisfies
  the invariant of a complete rollup.\<close>

theorem partial_prune_hides_removal:
  "log_inv json_codec ''c'' ex_history 3 (map_of holed_store) \<and>
   (\<exists>i. sync (ex_log 0) FileIndex_new holed_store = (Inr 2, i, holed_store) \<and>
      fi_sequence i = 3 \<and> map pf_path (files_for_table i ''a'' 0 0) = [''a/1''] \<and>
      files_for_table (replay ex_history FileIndex_new) ''a'' 0 0 = [])"
proof
  show "log_inv json_codec ''c'' ex_history 3 (map_of holed_store)" by (rule holed_store_inv)
  let ?i = "replay [ex_history ! 0, ex_history ! 2] FileIndex_new"
  have "fi_sequence ?i = 3" by code_simp
  moreover have "map pf_path (files_for_table ?i ''a'' 0 0) = [''a/1'']" by code_simp
  moreover have "files_for_table (replay ex_history FileIndex_new) ''a'' 0 0 = []" by code_simp
  ultimately show "\<exists>i. sync (ex_log 0) FileIndex_new holed_store = (Inr 2, i, holed_store) \<and>
      fi_sequence i = 3 \<and> map pf_path (files_for_table i ''a'' 0 0) = [''a/1''] \<and>
      files_for_table (replay ex_history FileIndex_new) ''a'' 0 0 = []"
    by (intro exI [of _ ?i] conjI holed_sync_result)
qed

end
