(* ===== verification/Persisted_Files.thy ===== *)
theory Persisted_Files
  imports Complex_Main Snapshot_Types
begin

text \<open>
  The list of Parquet files a node serves (\<open>influxdb3_write/src/write_buffer/persisted_files.rs\<close>):
  its construction from the snapshots found at startup, the operations of the persist path, of
  compaction and of retention, and the metrics kept beside it.  The size metric is an \<open>f64\<close> in the
  code and a rational here, so it is the exact value the code rounds.

  The lemmas give every operation's effect on the listing of a table: what a snapshot adds and
  removes, that compaction replaces its inputs by the merged file once however often it is
  delivered, and that replaying a history ending in a given snapshot is replaying the history and
  then that snapshot.
\<close>

section \<open>State\<close>

datatype deleted_tables = DeletedAll | DeletedList "table_id list"

record persisted_files =
  pi_files :: "parquet_file table_map"
  pi_count :: nat
  pi_size_mb :: rat
  pi_row_count :: nat
  pi_deleted_data :: "(db_id, deleted_tables) hash_map"

definition persisted_files_default :: persisted_files where
  "persisted_files_default =
     \<lparr>pi_files = [], pi_count = 0, pi_size_mb = 0, pi_row_count = 0, pi_deleted_data = []\<rparr>"

definition as_mb :: "nat \<Rightarrow> rat" where
  "as_mb bytes = of_nat bytes / of_nat (1000 * 1000)"

definition sort_by_min_time_desc :: "parquet_file list \<Rightarrow> parquet_file list" where
  "sort_by_min_time_desc files = sort_key (\<lambda>f. - pf_min_time f) files"

section \<open>Marking databases and tables for deletion\<close>

text \<open>The table index cache is optional; what its purge answers is an argument.\<close>

definition mark_database_deleted :: "db_id \<Rightarrow> persisted_files \<Rightarrow> persisted_files" where
  "mark_database_deleted d p = p\<lparr>pi_deleted_data := hm_insert d DeletedAll (pi_deleted_data p)\<rparr>"

definition delete_database ::
  "(db_id \<Rightarrow> 'e + unit) option \<Rightarrow> db_id \<Rightarrow> persisted_files \<Rightarrow> ('e + unit) \<times> persisted_files" where
  "delete_database purge_db d p =
     ((case purge_db of None \<Rightarrow> Inr () | Some purge \<Rightarrow> purge d), mark_database_deleted d p)"

definition mark_table_deleted :: "db_id \<Rightarrow> table_id \<Rightarrow> persisted_files \<Rightarrow> persisted_files" where
  "mark_table_deleted d t p =
     p\<lparr>pi_deleted_data := hm_entry d
        (\<lambda>e. case e of
               None \<Rightarrow> DeletedList [t]
             | Some DeletedAll \<Rightarrow> DeletedAll
             | Some (DeletedList ts) \<Rightarrow> DeletedList (List.insert t ts)) (pi_deleted_data p)\<rparr>"

definition delete_table ::
  "(db_id \<Rightarrow> table_id \<Rightarrow> 'e + unit) option \<Rightarrow> db_id \<Rightarrow> table_id \<Rightarrow> persisted_files \<Rightarrow>
   ('e + unit) \<times> persisted_files" where
  "delete_table purge_table d t p =
     ((case purge_table of None \<Rightarrow> Inr () | Some purge \<Rightarrow> purge d t), mark_table_deleted d t p)"

section \<open>Applying a snapshot\<close>

text \<open>The loop over the added files of one table, and over the tables of one database.\<close>

definition add_table_files ::
  "bool \<Rightarrow> nat \<times> database_tables \<Rightarrow> table_id \<times> parquet_file list \<Rightarrow> nat \<times> database_tables" where
  "add_table_files initial_load acc entry =
     (case acc of (file_count, db_tables) \<Rightarrow> case entry of (t, new_files) \<Rightarrow>
        let table_files = hm_get [] db_tables t;
            fresh = (if initial_load then new_files else filter (\<lambda>f. f \<notin> set table_files) new_files)
        in (file_count + length fresh, hm_insert t (table_files @ fresh) db_tables))"

definition add_db_files ::
  "bool \<Rightarrow> nat \<times> parquet_file table_map \<Rightarrow> db_id \<times> database_tables \<Rightarrow> nat \<times> parquet_file table_map" where
  "add_db_files initial_load acc entry =
     (case acc of (file_count, m) \<Rightarrow> case entry of (d, tables) \<Rightarrow>
        case foldl (add_table_files initial_load) (file_count, hm_get [] m d) tables of
          (file_count', db_tables) \<Rightarrow> (file_count', hm_insert d db_tables m))"

text \<open>A removed file is matched by its identifier; the totals grow by what was really dropped.\<close>

definition remove_by_id ::
  "nat \<times> nat \<times> nat \<times> parquet_file list \<Rightarrow> parquet_file \<Rightarrow> nat \<times> nat \<times> nat \<times> parquet_file list" where
  "remove_by_id acc f =
     (case acc of (file_count, sz, rows, fs) \<Rightarrow>
        case position (\<lambda>g. pf_id g = pf_id f) fs of
          None \<Rightarrow> acc
        | Some idx \<Rightarrow> (file_count - 1, sz + pf_size_bytes (fs ! idx), rows + pf_row_count (fs ! idx),
                      swap_remove idx fs))"

definition remove_table_files ::
  "nat \<times> nat \<times> nat \<times> database_tables \<Rightarrow> table_id \<times> parquet_file list \<Rightarrow> nat \<times> nat \<times> nat \<times> database_tables" where
  "remove_table_files acc entry =
     (case acc of (n, sz, rows, db_tables) \<Rightarrow> case entry of (t, removed) \<Rightarrow>
        case map_of db_tables t of
          None \<Rightarrow> acc
        | Some fs \<Rightarrow>
            (case foldl remove_by_id (n, sz, rows, fs) removed of
               (n', sz', rows', fs') \<Rightarrow> (n', sz', rows', hm_insert t fs' db_tables)))"

definition remove_db_files ::
  "nat \<times> nat \<times> nat \<times> parquet_file table_map \<Rightarrow> db_id \<times> database_tables \<Rightarrow>
   nat \<times> nat \<times> nat \<times> parquet_file table_map" where
  "remove_db_files acc entry =
     (case acc of (n, sz, rows, m) \<Rightarrow> case entry of (d, tables) \<Rightarrow>
        case map_of m d of
          None \<Rightarrow> acc
        | Some db_tables \<Rightarrow>
            (case foldl remove_table_files (n, sz, rows, db_tables) tables of
               (n', sz', rows', db_tables') \<Rightarrow> (n', sz', rows', hm_insert d db_tables' m)))"

definition update_persisted_files_with_snapshot ::
  "bool \<Rightarrow> persisted_snapshot \<Rightarrow> parquet_file table_map \<Rightarrow> (nat \<times> nat \<times> nat) \<times> parquet_file table_map" where
  "update_persisted_files_with_snapshot initial_load s m =
     (case foldl (add_db_files initial_load) (0, m) (ps_databases s) of
        (file_count, m1) \<Rightarrow>
          (case foldl remove_db_files (file_count, 0, 0, m1) (ps_removed_files s) of
             (n, sz, rows, m2) \<Rightarrow> ((n, sz, rows), m2)))"

definition ordered_oldest_first :: "persisted_snapshot list \<Rightarrow> persisted_snapshot list" where
  "ordered_oldest_first snaps = sort_key ps_snapshot_sequence_number snaps"

text \<open>The fold of \<open>new_from_persisted_snapshots\<close>, over files, size, rows and count.\<close>

definition load_snapshot ::
  "parquet_file table_map \<times> rat \<times> nat \<times> nat \<Rightarrow> persisted_snapshot \<Rightarrow>
   parquet_file table_map \<times> rat \<times> nat \<times> nat" where
  "load_snapshot acc s =
     (case acc of (files, size_in_mb, row_count, file_count) \<Rightarrow>
        case update_persisted_files_with_snapshot True s files of
          ((added, removed_size, removed_rows), files') \<Rightarrow>
            (files', size_in_mb + as_mb (ps_parquet_size_bytes s) - as_mb removed_size,
             row_count + ps_row_count s - removed_rows, file_count + added))"

definition new_from_persisted_snapshots :: "persisted_snapshot list \<Rightarrow> persisted_files" where
  "new_from_persisted_snapshots snaps =
     (case foldl load_snapshot ([], 0, 0, 0) (ordered_oldest_first snaps) of
        (files, size_in_mb, row_count, file_count) \<Rightarrow>
          \<lparr>pi_files = files, pi_count = file_count, pi_size_mb = size_in_mb,
           pi_row_count = row_count, pi_deleted_data = []\<rparr>)"

definition add_persisted_snapshot :: "persisted_snapshot \<Rightarrow> persisted_files \<Rightarrow> persisted_files" where
  "add_persisted_snapshot s p =
     (case update_persisted_files_with_snapshot False s (pi_files p) of
        ((file_count, removed_size, removed_rows), files) \<Rightarrow>
          p\<lparr>pi_files := files,
            pi_row_count := pi_row_count p + ps_row_count s - removed_rows,
            pi_size_mb := pi_size_mb p + as_mb (ps_parquet_size_bytes s) - as_mb removed_size,
            pi_count := pi_count p + file_count\<rparr>)"

section \<open>The persist path and compaction\<close>

definition add_persisted_file :: "db_id \<Rightarrow> table_id \<Rightarrow> parquet_file \<Rightarrow> persisted_files \<Rightarrow> persisted_files" where
  "add_persisted_file d t f p =
     (let present = f \<in> set (tm_get (pi_files p) d t)
      in p\<lparr>pi_files := tm_upd d t (\<lambda>fs. if present then fs else fs @ [f]) (pi_files p),
           pi_row_count := (if present then pi_row_count p else pi_row_count p + pf_row_count f),
           pi_size_mb := (if present then pi_size_mb p else pi_size_mb p + as_mb (pf_size_bytes f)),
           pi_count := pi_count p + 1\<rparr>)"

definition add_compacted_file ::
  "db_id \<Rightarrow> table_id \<Rightarrow> parquet_file \<Rightarrow> persisted_files \<Rightarrow> bool \<times> persisted_files" where
  "add_compacted_file d t f p =
     (if \<exists>g \<in> set (tm_get (pi_files p) d t). pf_path g = pf_path f
      then (False, p\<lparr>pi_files := tm_upd d t (\<lambda>fs. fs) (pi_files p)\<rparr>)
      else (True, p\<lparr>pi_files := tm_upd d t (\<lambda>fs. fs @ [f]) (pi_files p),
                    pi_row_count := pi_row_count p + pf_row_count f,
                    pi_size_mb := pi_size_mb p + as_mb (pf_size_bytes f),
                    pi_count := pi_count p + 1\<rparr>))"

definition remove_files_by_path ::
  "db_id \<Rightarrow> table_id \<Rightarrow> obj_path list \<Rightarrow> persisted_files \<Rightarrow> parquet_file list \<times> persisted_files" where
  "remove_files_by_path d t paths p =
     (if paths = [] then ([], p)
      else case map_of (pi_files p) d of
             None \<Rightarrow> ([], p)
           | Some tables \<Rightarrow>
               (case map_of tables t of
                  None \<Rightarrow> ([], p)
                | Some fs \<Rightarrow>
                    let removed = filter (\<lambda>f. pf_path f \<in> set paths) fs;
                        removed_rows = sum_list (map pf_row_count removed);
                        removed_bytes = sum_list (map pf_size_bytes removed)
                    in (removed,
                        p\<lparr>pi_files := hm_insert d (hm_insert t (filter (\<lambda>f. pf_path f \<notin> set paths) fs) tables)
                                        (pi_files p),
                          pi_row_count := pi_row_count p - removed_rows,
                          pi_size_mb := max (pi_size_mb p - as_mb removed_bytes) 0,
                          pi_count := pi_count p - length removed\<rparr>)))"

primrec add_compacted_files ::
  "db_id \<Rightarrow> table_id \<Rightarrow> parquet_file list \<Rightarrow> nat \<times> persisted_files \<Rightarrow> nat \<times> persisted_files" where
  "add_compacted_files d t [] acc = acc"
| "add_compacted_files d t (f # fs) acc =
     (case add_compacted_file d t f (snd acc) of
        (is_new, p) \<Rightarrow> add_compacted_files d t fs (if is_new then fst acc + 1 else fst acc, p))"

definition apply_compaction ::
  "db_id \<Rightarrow> table_id \<Rightarrow> parquet_file list \<Rightarrow> obj_path list \<Rightarrow> persisted_files \<Rightarrow>
   (nat \<times> parquet_file list) \<times> persisted_files" where
  "apply_compaction d t added removed_paths p =
     (case add_compacted_files d t added (0, p) of
        (added_count, p1) \<Rightarrow>
          (case remove_files_by_path d t removed_paths p1 of
             (removed, p2) \<Rightarrow> ((added_count, removed), p2)))"

section \<open>Queries\<close>

definition get_files_filtered_unsorted ::
  "persisted_files \<Rightarrow> db_id \<Rightarrow> table_id \<Rightarrow> chunk_filter \<Rightarrow> parquet_file list" where
  "get_files_filtered_unsorted p d t flt =
     filter (\<lambda>f. test_time_stamp_min_max flt (pf_min_time f) (pf_max_time f)) (tm_get (pi_files p) d t)"

definition persisted_get_files_filtered ::
  "persisted_files \<Rightarrow> db_id \<Rightarrow> table_id \<Rightarrow> chunk_filter \<Rightarrow> parquet_file list" where
  "persisted_get_files_filtered p d t flt = sort_by_min_time_desc (get_files_filtered_unsorted p d t flt)"

definition persisted_get_files :: "persisted_files \<Rightarrow> db_id \<Rightarrow> table_id \<Rightarrow> parquet_file list" where
  "persisted_get_files p d t =
     persisted_get_files_filtered p d t \<lparr>time_lower_bound_ns = None, time_upper_bound_ns = None\<rparr>"

definition get_metrics :: "persisted_files \<Rightarrow> nat \<times> rat \<times> nat" where
  "get_metrics p = (pi_count p, pi_size_mb p, pi_row_count p)"

section \<open>Retention and hard deletion\<close>

text \<open>The scan holds a read lock and the sweep a write lock taken afterwards, so another thread may
  act between the two; they are two operations here.\<close>

record removal_queue =
  rq_removed :: "parquet_file table_map"
  rq_paths :: "obj_path list"
  rq_size :: nat
  rq_rows :: nat

definition removal_queue_empty :: removal_queue where
  "removal_queue_empty = \<lparr>rq_removed = [], rq_paths = [], rq_size = 0, rq_rows = 0\<rparr>"

definition queue_for_removal :: "db_id \<Rightarrow> table_id \<Rightarrow> removal_queue \<Rightarrow> parquet_file \<Rightarrow> removal_queue" where
  "queue_for_removal d t q f =
     (if pf_path f \<in> set (rq_paths q) then q
      else \<lparr>rq_removed = tm_upd d t (\<lambda>fs. fs @ [f]) (rq_removed q),
            rq_paths = pf_path f # rq_paths q,
            rq_size = rq_size q + pf_size_bytes f,
            rq_rows = rq_rows q + pf_row_count f\<rparr>)"

definition queue_deleted_db :: "persisted_files \<Rightarrow> removal_queue \<Rightarrow> db_id \<times> deleted_tables \<Rightarrow> removal_queue" where
  "queue_deleted_db p q entry =
     (case entry of (d, deleted) \<Rightarrow>
        case map_of (pi_files p) d of
          None \<Rightarrow> q
        | Some tables \<Rightarrow>
            (case deleted of
               DeletedAll \<Rightarrow> foldl (\<lambda>q (t, fs). foldl (queue_for_removal d t) q fs) q tables
             | DeletedList ts \<Rightarrow>
                 foldl (\<lambda>q t. case map_of tables t of None \<Rightarrow> q | Some fs \<Rightarrow> foldl (queue_for_removal d t) q fs)
                   q ts))"

definition marked_deleted :: "persisted_files \<Rightarrow> db_id \<Rightarrow> table_id \<Rightarrow> bool" where
  "marked_deleted p d t =
     (case map_of (pi_deleted_data p) d of
        None \<Rightarrow> False
      | Some DeletedAll \<Rightarrow> True
      | Some (DeletedList ts) \<Rightarrow> t \<in> set ts)"

definition queue_expired ::
  "persisted_files \<Rightarrow> removal_queue \<Rightarrow> (db_id \<times> table_id) \<times> time_ns \<Rightarrow> removal_queue" where
  "queue_expired p q entry =
     (case entry of ((d, t), cutoff) \<Rightarrow>
        if marked_deleted p d t then q
        else foldl (queue_for_removal d t) q
               (filter (\<lambda>f. pf_max_time f < cutoff) (tm_get (pi_files p) d t)))"

definition removal_scan ::
  "((db_id \<times> table_id) \<times> time_ns) list \<Rightarrow> persisted_files \<Rightarrow> removal_queue" where
  "removal_scan retention_periods p =
     foldl (queue_expired p) (foldl (queue_deleted_db p) removal_queue_empty (pi_deleted_data p))
       retention_periods"

definition removal_sweep :: "removal_queue \<Rightarrow> persisted_files \<Rightarrow> persisted_files" where
  "removal_sweep q p =
     (if rq_removed q = [] then p
      else p\<lparr>pi_files := map (\<lambda>(d, tables). (d, map (\<lambda>(t, fs).
                 (t, filter (\<lambda>f. pf_path f \<notin> set (rq_paths q)) fs)) tables)) (pi_files p),
             pi_count := pi_count p - length (rq_paths q),
             pi_size_mb := pi_size_mb p - as_mb (rq_size q),
             pi_row_count := pi_row_count p - rq_rows q,
             pi_deleted_data := []\<rparr>)"

definition remove_files_for_deletion ::
  "((db_id \<times> table_id) \<times> time_ns) list \<Rightarrow> persisted_files \<Rightarrow> parquet_file table_map \<times> persisted_files" where
  "remove_files_for_deletion retention_periods p =
     (let q = removal_scan retention_periods p in (rq_removed q, removal_sweep q p))"

section \<open>The effect of a snapshot on a table\<close>

text \<open>The files of the accumulator, without the totals.\<close>

primrec remove_ids :: "parquet_file list \<Rightarrow> parquet_file list \<Rightarrow> parquet_file list" where
  "remove_ids [] fs = fs"
| "remove_ids (f # rem) fs =
     remove_ids rem (case position (\<lambda>g. pf_id g = pf_id f) fs of None \<Rightarrow> fs | Some i \<Rightarrow> swap_remove i fs)"

definition added_to :: "persisted_snapshot \<Rightarrow> db_id \<Rightarrow> table_id \<Rightarrow> parquet_file list" where
  "added_to s d t = tm_get (ps_databases s) d t"

definition removed_ids :: "persisted_snapshot \<Rightarrow> db_id \<Rightarrow> table_id \<Rightarrow> nat set" where
  "removed_ids s d t = pf_id ` set (tm_get (ps_removed_files s) d t)"

definition snapshot_wf :: "persisted_snapshot \<Rightarrow> bool" where
  "snapshot_wf s \<longleftrightarrow> tm_wf (ps_databases s) \<and> tm_wf (ps_removed_files s)"

definition history_wf :: "persisted_snapshot list \<Rightarrow> bool" where
  "history_wf snaps \<longleftrightarrow> (\<forall>s \<in> set snaps. snapshot_wf s) \<and>
     distinct (map ps_snapshot_sequence_number snaps) \<and>
     (\<forall>d t. distinct (map pf_id (concat (map (\<lambda>s. added_to s d t) snaps))))"

lemma remove_by_id_files:
  "\<exists>n' sz' rows'. foldl remove_by_id (n, sz, rows, fs) rem = (n', sz', rows', remove_ids rem fs)"
  by (induction rem arbitrary: n sz rows fs) (auto simp: remove_by_id_def split: option.splits)

lemma remove_ids_mset:
  assumes "distinct (map pf_id fs)"
  shows "mset (remove_ids rem fs) = filter_mset (\<lambda>f. pf_id f \<notin> pf_id ` set rem) (mset fs)"
  using assms
proof (induction rem arbitrary: fs)
  case (Cons r rem)
  show ?case
  proof (cases "position (\<lambda>g. pf_id g = pf_id r) fs")
    case None
    then have "pf_id f \<noteq> pf_id r" if "f \<in># mset fs" for f using that by (auto simp: position_None)
    then show ?thesis using Cons None by (auto intro: filter_mset_cong)
  next
    case (Some i)
    then have i: "i < length fs" "pf_id (fs ! i) = pf_id r" using position_Some by fastforce+
    have m: "mset (swap_remove i fs) = filter_mset (\<lambda>f. pf_id f \<noteq> pf_id r) (mset fs)"
      using mset_swap_remove [OF i(1)] filter_key_removed [OF Cons.prems i] by simp
    then have "mset (map pf_id (swap_remove i fs)) \<subseteq># mset (map pf_id fs)"
      by (simp add: image_mset_subseteq_mono)
    then have "distinct (map pf_id (swap_remove i fs))"
      using Cons.prems by (rule distinct_submset [rotated])
    then show ?thesis using Cons.IH m Some by (simp add: filter_filter_mset)
  qed
qed simp

lemma remove_ids_Nil [simp]: "remove_ids rem [] = []"
  by (induction rem) simp_all

lemma remove_ids_distinct:
  assumes "distinct (map pf_id fs)"
  shows "distinct (map pf_id (remove_ids rem fs))"
proof -
  have "mset (map pf_id (remove_ids rem fs)) \<subseteq># mset (map pf_id fs)"
    by (simp add: remove_ids_mset [OF assms] image_mset_subseteq_mono)
  then show ?thesis using assms by (rule distinct_submset [rotated])
qed

text \<open>Both loops act on each table on its own.\<close>

lemma hm_get_Nil [simp]: "hm_get d [] k = d"
  by (simp add: hm_get_def)

lemma hm_get_insert [map_simps]: "hm_get d (hm_insert k v m) k' = (if k' = k then v else hm_get d m k')"
  by (simp add: hm_get_def map_of_hm_insert)

definition fresh_files :: "bool \<Rightarrow> parquet_file list \<Rightarrow> parquet_file list \<Rightarrow> parquet_file list" where
  "fresh_files initial_load fs new_files = (if initial_load then new_files else filter (\<lambda>f. f \<notin> set fs) new_files)"

lemma fresh_files_simps [simp]:
  "fresh_files il fs [] = []" "fresh_files True fs new_files = new_files"
  "set fs \<inter> set new_files = {} \<Longrightarrow> fresh_files il fs new_files = new_files"
  by (auto simp: fresh_files_def intro: filter_True)

lemma add_tables_get:
  assumes "keys_distinct tables"
  shows "hm_get [] (snd (foldl (add_table_files il) acc tables)) t =
    hm_get [] (snd acc) t @ fresh_files il (hm_get [] (snd acc) t) (hm_get [] tables t)"
proof -
  let ?h = "\<lambda>_ fs v. fs @ fresh_files il fs v"
  have "hm_get [] (snd (foldl (add_table_files il) acc tables)) t =
      (case map_of tables t of None \<Rightarrow> hm_get [] (snd acc) t | Some v \<Rightarrow> ?h t (hm_get [] (snd acc) t) v)"
    by (rule foldl_keyed [where get = "\<lambda>a. hm_get [] (snd a)" and h = ?h, OF assms])
      (simp add: add_table_files_def fresh_files_def hm_get_insert Let_def split: prod.splits)
  then show ?thesis by (simp add: hm_get_def split: option.splits)
qed

lemma add_dbs_get:
  assumes "tm_wf dbs"
  shows "tm_get (snd (foldl (add_db_files il) acc dbs)) d t =
    tm_get (snd acc) d t @ fresh_files il (tm_get (snd acc) d t) (tm_get dbs d t)"
proof -
  let ?h = "\<lambda>_ F ts t. F t @ fresh_files il (F t) (hm_get [] ts t)"
  have "tm_get (snd (foldl (add_db_files il) acc dbs)) d =
      (case map_of dbs d of None \<Rightarrow> tm_get (snd acc) d | Some ts \<Rightarrow> ?h d (tm_get (snd acc) d) ts)"
  proof (rule foldl_keyed [where get = "\<lambda>a. tm_get (snd a)" and h = ?h])
    fix a d' k and ts :: database_tables assume "(d', ts) \<in> set dbs"
    then have "keys_distinct ts" using assms by (auto simp: tm_wf_def)
    from add_tables_get [OF this, of il "(fst a, hm_get [] (snd a) d')"]
    show "tm_get (snd (add_db_files il a (d', ts))) k =
        (if k = d' then ?h d' (tm_get (snd a) d') ts else tm_get (snd a) k)"
      by (cases a) (auto simp: add_db_files_def tm_get_def hm_get_insert fun_eq_iff split: prod.splits)
  qed (use assms in \<open>simp add: tm_wf_def\<close>)
  then show ?thesis by (simp add: tm_get_def hm_get_def split: option.splits)
qed

abbreviation acc_files :: "nat \<times> nat \<times> nat \<times> 'a \<Rightarrow> 'a" where
  "acc_files a \<equiv> snd (snd (snd a))"

lemma remove_tables_get:
  assumes "keys_distinct tables"
  shows "hm_get [] (acc_files (foldl remove_table_files acc tables)) t =
    remove_ids (hm_get [] tables t) (hm_get [] (acc_files acc) t)"
proof -
  have "hm_get [] (acc_files (foldl remove_table_files acc tables)) t =
      (case map_of tables t of None \<Rightarrow> hm_get [] (acc_files acc) t
       | Some v \<Rightarrow> remove_ids v (hm_get [] (acc_files acc) t))"
  proof (rule foldl_keyed [where get = "\<lambda>a. hm_get [] (acc_files a)" and h = "\<lambda>_ fs v. remove_ids v fs", OF assms])
    fix a :: "nat \<times> nat \<times> nat \<times> database_tables" and t' v k
    obtain n sz rows ts where a: "a = (n, sz, rows, ts)" by (cases a) auto
    obtain n' sz' rows' where "foldl remove_by_id (n, sz, rows, hm_get [] ts t') v =
        (n', sz', rows', remove_ids v (hm_get [] ts t'))" using remove_by_id_files by blast
    then show "hm_get [] (acc_files (remove_table_files a (t', v))) k =
        (if k = t' then remove_ids v (hm_get [] (acc_files a) t') else hm_get [] (acc_files a) k)"
      by (auto simp: a remove_table_files_def hm_get_insert hm_get_def [of _ ts t'] split: option.splits prod.splits)
  qed
  then show ?thesis by (simp add: hm_get_def split: option.splits)
qed

lemma remove_dbs_get:
  assumes "tm_wf dbs"
  shows "tm_get (acc_files (foldl remove_db_files acc dbs)) d t =
    remove_ids (tm_get dbs d t) (tm_get (acc_files acc) d t)"
proof -
  let ?h = "\<lambda>_ F ts t. remove_ids (hm_get [] ts t) (F t)"
  have "tm_get (acc_files (foldl remove_db_files acc dbs)) d =
      (case map_of dbs d of None \<Rightarrow> tm_get (acc_files acc) d | Some ts \<Rightarrow> ?h d (tm_get (acc_files acc) d) ts)"
  proof (rule foldl_keyed [where get = "\<lambda>a. tm_get (acc_files a)" and h = ?h])
    fix a :: "nat \<times> nat \<times> nat \<times> parquet_file table_map" and d' k and ts :: database_tables
    assume "(d', ts) \<in> set dbs"
    then have ts: "keys_distinct ts" using assms by (auto simp: tm_wf_def)
    obtain n sz rows m where a: "a = (n, sz, rows, m)" by (cases a) auto
    show "tm_get (acc_files (remove_db_files a (d', ts))) k =
        (if k = d' then \<lambda>t. remove_ids (hm_get [] ts t) (tm_get (acc_files a) d' t) else tm_get (acc_files a) k)"
      using remove_tables_get [OF ts, of "(n, sz, rows, hm_get [] m d')"]
      by (auto simp: a remove_db_files_def tm_get_def hm_get_insert fun_eq_iff hm_get_def [of _ m d']
          split: prod.splits option.splits)
  qed (use assms in \<open>simp add: tm_wf_def\<close>)
  then show ?thesis by (simp add: tm_get_def hm_get_def split: option.splits)
qed

lemma snapshot_effect_any:
  assumes "snapshot_wf s"
  shows "tm_get (snd (update_persisted_files_with_snapshot il s m)) d t =
    remove_ids (tm_get (ps_removed_files s) d t)
      (tm_get m d t @ fresh_files il (tm_get m d t) (added_to s d t))"
proof -
  obtain n m1 where a: "foldl (add_db_files il) (0, m) (ps_databases s) = (n, m1)" by fastforce
  have "tm_get m1 d t = tm_get m d t @ fresh_files il (tm_get m d t) (added_to s d t)"
    using add_dbs_get [of "ps_databases s" il "(0, m)" d t] assms a by (simp add: snapshot_wf_def added_to_def)
  moreover obtain n' sz rows m2 where r: "foldl remove_db_files (n, 0, 0, m1) (ps_removed_files s) = (n', sz, rows, m2)"
    by (metis prod_cases4)
  ultimately show ?thesis
    using remove_dbs_get [of "ps_removed_files s" "(n, 0, 0, m1)" d t] assms
    by (simp add: a r update_persisted_files_with_snapshot_def snapshot_wf_def)
qed

lemma snapshot_effect:
  assumes "snapshot_wf s"
  shows "tm_get (snd (update_persisted_files_with_snapshot True s m)) d t =
    remove_ids (tm_get (ps_removed_files s) d t) (tm_get m d t @ added_to s d t)"
  using snapshot_effect_any [OF assms, of True] by simp

section \<open>Startup\<close>

definition startup_files :: "persisted_snapshot list \<Rightarrow> parquet_file table_map" where
  "startup_files snaps = pi_files (new_from_persisted_snapshots snaps)"

lemma startup_fold:
  "startup_files snaps = foldl (\<lambda>m s. snd (update_persisted_files_with_snapshot True s m)) []
     (ordered_oldest_first snaps)"
proof -
  have "fst (foldl load_snapshot acc ss) =
      foldl (\<lambda>m s. snd (update_persisted_files_with_snapshot True s m)) (fst acc) ss" for acc ss
    by (induction ss arbitrary: acc) (auto simp: load_snapshot_def split: prod.splits)
  from this [of "([], 0, 0, 0)"] show ?thesis
    by (auto simp: startup_files_def new_from_persisted_snapshots_def split: prod.splits) (metis fst_conv)
qed

lemma ordered_insert:
  assumes "\<forall>s' \<in> set snaps. ps_snapshot_sequence_number s' < ps_snapshot_sequence_number s"
    and "distinct (map ps_snapshot_sequence_number snaps)" and "mset snaps' = add_mset s (mset snaps)"
  shows "ordered_oldest_first snaps' = ordered_oldest_first snaps @ [s]"
proof -
  let ?k = ps_snapshot_sequence_number
  have "sorted (map ?k (sort_key ?k snaps @ [s]))" using assms(1) by (auto simp: sorted_append less_imp_le)
  then have "sort_key ?k (sort_key ?k snaps @ [s]) = sort_key ?k snaps @ [s]" by (rule sort_key_id_if_sorted)
  moreover have "distinct (map ?k (sort_key ?k snaps @ [s]))"
  proof -
    have "distinct (map ?k (sort_key ?k snaps))" using assms(2)
      by (rule distinct_submset) simp
    then show ?thesis using assms(1) by fastforce
  qed
  then have "inj_on ?k (set (sort_key ?k snaps @ [s]))" by (simp only: distinct_map)
  from sort_key_mset_unique [OF _ this, of snaps'] assms(3)
  have "sort_key ?k snaps' = sort_key ?k (sort_key ?k snaps @ [s])" by simp
  ultimately show ?thesis by (simp only: ordered_oldest_first_def)
qed

lemma startup_snoc:
  assumes "\<forall>s' \<in> set snaps. ps_snapshot_sequence_number s' < ps_snapshot_sequence_number s"
    and "distinct (map ps_snapshot_sequence_number snaps)" and "mset snaps' = add_mset s (mset snaps)"
  shows "startup_files snaps' = snd (update_persisted_files_with_snapshot True s (startup_files snaps))"
  unfolding startup_fold ordered_insert [OF assms] by simp

text \<open>Folding an ordered history, file by file.\<close>

abbreviation fold_history :: "persisted_snapshot list \<Rightarrow> parquet_file table_map" where
  "fold_history ss \<equiv> foldl (\<lambda>m s. snd (update_persisted_files_with_snapshot True s m)) [] ss"

text \<open>A file survives an ordered history when some manifest added it and neither that one nor a later
  one removed its identifier.\<close>

definition survives :: "persisted_snapshot list \<Rightarrow> db_id \<Rightarrow> table_id \<Rightarrow> parquet_file \<Rightarrow> bool" where
  "survives ss d t f \<longleftrightarrow> (\<exists>pre s post. ss = pre @ s # post \<and> f \<in> set (added_to s d t) \<and>
     (\<forall>s' \<in> set (s # post). pf_id f \<notin> removed_ids s' d t))"

lemma survives_Nil [simp]: "\<not> survives [] d t f"
  by (simp add: survives_def)

lemma survives_snoc:
  "survives (ss @ [s]) d t f \<longleftrightarrow>
     (survives ss d t f \<or> f \<in> set (added_to s d t)) \<and> pf_id f \<notin> removed_ids s d t" (is "?l \<longleftrightarrow> ?r")
proof
  assume ?l
  then obtain pre s0 post where *: "ss @ [s] = pre @ s0 # post" "f \<in> set (added_to s0 d t)"
    "\<forall>s' \<in> set (s0 # post). pf_id f \<notin> removed_ids s' d t" unfolding survives_def by blast
  show ?r
  proof (cases post rule: rev_cases)
    case Nil
    then show ?thesis using * by auto
  next
    case (snoc post' s1)
    then have "ss = pre @ s0 # post'" "s1 = s" using *(1) by simp_all
    then show ?thesis using * snoc by (auto simp: survives_def)
  qed
next
  assume r: ?r
  show ?l
  proof (cases "survives ss d t f")
    case True
    then obtain pre s0 post where "ss = pre @ s0 # post" "f \<in> set (added_to s0 d t)"
      "\<forall>s' \<in> set (s0 # post). pf_id f \<notin> removed_ids s' d t" unfolding survives_def by blast
    then have "ss @ [s] = pre @ s0 # (post @ [s]) \<and> f \<in> set (added_to s0 d t) \<and>
        (\<forall>s' \<in> set (s0 # post @ [s]). pf_id f \<notin> removed_ids s' d t)" using r by auto
    then show ?thesis unfolding survives_def by blast
  next
    case False
    then have "ss @ [s] = ss @ s # [] \<and> f \<in> set (added_to s d t) \<and>
        (\<forall>s' \<in> set [s]. pf_id f \<notin> removed_ids s' d t)" using r by auto
    then show ?thesis unfolding survives_def by blast
  qed
qed

lemma survives_added: "survives ss d t f \<Longrightarrow> f \<in> set (concat (map (\<lambda>s. added_to s d t) ss))"
  by (auto simp: survives_def)

lemma fold_history_files:
  assumes "\<forall>s \<in> set ss. snapshot_wf s"
    and "distinct (map pf_id (concat (map (\<lambda>s. added_to s d t) ss)))"
  shows "distinct (map pf_id (tm_get (fold_history ss) d t)) \<and>
    set (tm_get (fold_history ss) d t) = {f. survives ss d t f}"
  using assms
proof (induction ss rule: rev_induct)
  case (snoc s ss)
  let ?old = "tm_get (fold_history ss) d t" and ?rem = "tm_get (ps_removed_files s) d t"
  have IH: "distinct (map pf_id ?old)" "set ?old = {f. survives ss d t f}"
    using snoc.IH snoc.prems by (simp_all add: distinct_append)
  then have "set ?old \<subseteq> set (concat (map (\<lambda>s. added_to s d t) ss))" using survives_added by blast
  then have "pf_id ` set ?old \<subseteq> pf_id ` set (concat (map (\<lambda>s. added_to s d t) ss))" by (rule image_mono)
  moreover have "pf_id ` set (concat (map (\<lambda>s. added_to s d t) ss)) \<inter> pf_id ` set (added_to s d t) = {}"
    "distinct (map pf_id (added_to s d t))" using snoc.prems(2) by simp_all
  ultimately have dist: "distinct (map pf_id (?old @ added_to s d t))"
    using IH(1) unfolding map_append distinct_append set_map by blast
  have wf: "snapshot_wf s" using snoc.prems(1) by simp
  have eff: "tm_get (fold_history (ss @ [s])) d t = remove_ids ?rem (?old @ added_to s d t)"
    unfolding foldl_append foldl.simps by (rule snapshot_effect [OF wf])
  have "set (remove_ids ?rem (?old @ added_to s d t)) =
      {f \<in> set (?old @ added_to s d t). pf_id f \<notin> pf_id ` set ?rem}"
    using arg_cong [OF remove_ids_mset [OF dist, of ?rem], of set_mset] by auto
  then have "set (remove_ids ?rem (?old @ added_to s d t)) = {f. survives (ss @ [s]) d t f}"
    using IH(2) by (auto simp: survives_snoc removed_ids_def)
  then show ?case unfolding eff using remove_ids_distinct [OF dist] by blast
qed simp

lemma history_wf_perm:
  assumes m: "mset ss = mset snaps" and wf: "history_wf snaps"
  shows "history_wf ss"
proof -
  have "mset (concat (map g ss)) = mset (concat (map g snaps))" for g :: "persisted_snapshot \<Rightarrow> parquet_file list"
    unfolding mset_concat map_map using m by (metis mset_map sum_mset_sum_list)
  then have c: "mset (map pf_id (concat (map (\<lambda>s. added_to s d t) ss))) =
      mset (map pf_id (concat (map (\<lambda>s. added_to s d t) snaps)))" for d t
    by (simp only: mset_map)
  have "set ss = set snaps" using m by (metis set_mset_mset)
  moreover have "distinct (map ps_snapshot_sequence_number ss)"
    using wf unfolding history_wf_def by (elim conjE) (rule distinct_submset, assumption, simp add: m)
  moreover have "distinct (map pf_id (concat (map (\<lambda>s. added_to s d t) ss)))" for d t
    using wf unfolding history_wf_def
    by (elim conjE) (rule distinct_submset [where xs = "map pf_id (concat (map (\<lambda>s. added_to s d t) snaps))"],
        blast, simp only: c subset_mset.order_refl)
  ultimately show ?thesis using wf by (simp add: history_wf_def)
qed

lemma survives_ordered:
  assumes "sorted_wrt (<) (map ps_snapshot_sequence_number ss)"
  shows "survives ss d t f \<longleftrightarrow> (\<exists>s \<in> set ss. f \<in> set (added_to s d t) \<and>
    (\<forall>s' \<in> set ss. ps_snapshot_sequence_number s \<le> ps_snapshot_sequence_number s' \<longrightarrow>
       pf_id f \<notin> removed_ids s' d t))" (is "?l \<longleftrightarrow> ?r")
proof -
  have later: "set (s # post) = {s' \<in> set ss. ps_snapshot_sequence_number s \<le> ps_snapshot_sequence_number s'}"
    if "ss = pre @ s # post" for pre s post
    using assms that by (auto simp: sorted_wrt_append less_imp_le not_less [symmetric])
  show ?thesis
  proof
    assume ?l
    then obtain pre s post where "ss = pre @ s # post" "f \<in> set (added_to s d t)"
      "\<forall>s' \<in> set (s # post). pf_id f \<notin> removed_ids s' d t" unfolding survives_def by blast
    then show ?r using later by fastforce
  next
    assume ?r
    then obtain s where s: "s \<in> set ss" "f \<in> set (added_to s d t)"
      "\<forall>s' \<in> set ss. ps_snapshot_sequence_number s \<le> ps_snapshot_sequence_number s' \<longrightarrow>
         pf_id f \<notin> removed_ids s' d t" by blast
    then obtain pre post where ss: "ss = pre @ s # post" by (meson split_list)
    have "\<forall>s' \<in> set (s # post). pf_id f \<notin> removed_ids s' d t" unfolding later [OF ss] using s(3) by simp
    then show ?l unfolding survives_def using ss s(2) by blast
  qed
qed

lemma ordered_strict:
  assumes "distinct (map ps_snapshot_sequence_number snaps)"
  shows "sorted_wrt (<) (map ps_snapshot_sequence_number (ordered_oldest_first snaps))"
  unfolding strict_sorted_iff ordered_oldest_first_def
  using assms by (auto intro: distinct_submset)

lemma startup_listing:
  assumes "history_wf snaps"
  shows "distinct (map pf_id (tm_get (startup_files snaps) d t))"
    and "set (tm_get (startup_files snaps) d t) = {f. survives (ordered_oldest_first snaps) d t f}"
proof -
  have "history_wf (ordered_oldest_first snaps)"
    by (rule history_wf_perm [OF _ assms]) (simp add: ordered_oldest_first_def)
  then have "\<forall>s \<in> set (ordered_oldest_first snaps). snapshot_wf s"
    "distinct (map pf_id (concat (map (\<lambda>s. added_to s d t) (ordered_oldest_first snaps))))"
    by (auto simp: history_wf_def)
  from fold_history_files [OF this] show
    "distinct (map pf_id (tm_get (startup_files snaps) d t))"
    "set (tm_get (startup_files snaps) d t) = {f. survives (ordered_oldest_first snaps) d t f}"
    by (auto simp: startup_fold)
qed

lemma set_persisted_get_files [simp]: "set (persisted_get_files p d t) = set (tm_get (pi_files p) d t)"
  by (simp add: persisted_get_files_def persisted_get_files_filtered_def sort_by_min_time_desc_def
      get_files_filtered_unsorted_def test_time_stamp_min_max_def)

section \<open>Compaction\<close>

lemma hm_get_tables: "map_of m d = Some ts \<Longrightarrow> hm_get [] m d = ts"
  by (simp add: hm_get_def)

lemma remove_files_by_path_effect:
  "fst (remove_files_by_path d t paths p) = filter (\<lambda>f. pf_path f \<in> set paths) (tm_get (pi_files p) d t) \<and>
   tm_get (pi_files (snd (remove_files_by_path d t paths p))) d' t' =
     (if d' = d \<and> t' = t then filter (\<lambda>f. pf_path f \<notin> set paths) (tm_get (pi_files p) d t)
      else tm_get (pi_files p) d' t')"
proof (cases "map_of (pi_files p) d")
  case None
  then have "tm_get (pi_files p) d t = []" by (simp add: tm_get_def hm_get_def)
  then show ?thesis using None by (simp add: remove_files_by_path_def)
next
  case (Some ts)
  then have get: "tm_get (pi_files p) d t' = hm_get [] ts t'" for t' by (simp add: tm_get_def hm_get_def)
  have ins: "tm_get (hm_insert d ts' (pi_files p)) d' t' = (if d' = d then hm_get [] ts' t' else tm_get (pi_files p) d' t')"
    for ts' d' t' by (simp add: tm_get_def hm_get_insert)
  show ?thesis
  proof (cases "map_of ts t")
    case None
    then have "tm_get (pi_files p) d t = []" by (simp add: get hm_get_def)
    then show ?thesis using Some None by (simp add: remove_files_by_path_def)
  next
    case fs: (Some fs)
    then have "tm_get (pi_files p) d t = fs" by (simp add: get hm_get_def)
    then show ?thesis using Some fs by (auto simp: remove_files_by_path_def Let_def ins hm_get_insert get)
  qed
qed

lemma add_compacted_file_effect:
  "fst (add_compacted_file d t f p) \<longleftrightarrow> pf_path f \<notin> pf_path ` set (tm_get (pi_files p) d t)"
  "tm_get (pi_files (snd (add_compacted_file d t f p))) d' t' =
     (if d' = d \<and> t' = t \<and> pf_path f \<notin> pf_path ` set (tm_get (pi_files p) d t)
      then tm_get (pi_files p) d t @ [f] else tm_get (pi_files p) d' t')"
  by (auto simp: add_compacted_file_def tm_get_upd image_iff) metis+

lemma apply_compaction_effect:
  assumes "apply_compaction d t [m] paths p = ((added, removed), p')"
  shows "added = (if pf_path m \<in> pf_path ` set (tm_get (pi_files p) d t) then 0 else 1)"
    and "pf_path m \<notin> set paths \<Longrightarrow>
      removed = filter (\<lambda>f. pf_path f \<in> set paths) (tm_get (pi_files p) d t)"
    and "pf_path m \<notin> set paths \<Longrightarrow>
      tm_get (pi_files p') d t = filter (\<lambda>f. pf_path f \<notin> set paths) (tm_get (pi_files p) d t) @
        (if added = 0 then [] else [m])"
    and "(d', t') \<noteq> (d, t) \<Longrightarrow> tm_get (pi_files p') d' t' = tm_get (pi_files p) d' t'"
  using assms add_compacted_file_effect [of d t m p] add_compacted_file_effect(2) [of d t m p d' t']
    add_compacted_file_effect(2) [of d t m p d t]
    remove_files_by_path_effect [of d t paths "snd (add_compacted_file d t m p)" d' t']
    remove_files_by_path_effect [of d t paths "snd (add_compacted_file d t m p)" d t]
  by (auto simp: apply_compaction_def split: prod.splits if_splits)

section \<open>Metrics\<close>

text \<open>The metrics are exact when they are the totals over the listed files.\<close>

definition listed_files :: "persisted_files \<Rightarrow> parquet_file list" where
  "listed_files p = map (snd \<circ> snd) (tm_items (pi_files p))"

definition metrics_exact :: "persisted_files \<Rightarrow> bool" where
  "metrics_exact p \<longleftrightarrow> tm_wf (pi_files p) \<and>
     get_metrics p = (length (listed_files p), as_mb (sum_list (map pf_size_bytes (listed_files p))),
       sum_list (map pf_row_count (listed_files p)))"

lemma count_tagged:
  "count (image_mset (\<lambda>x. (d, t, x)) Z) (d', t', x) = (if d' = d \<and> t' = t then count Z x else 0)"
  by (induction Z) auto

lemma count_tm_items:
  assumes "tm_wf m"
  shows "count (mset (tm_items m)) (d, t, x) = count (mset (tm_get m d t)) x"
proof -
  have "count (mset (tm_items m)) (d, t, x) =
      count (mset (filter (\<lambda>(d', t', x). d' = d \<and> t' = t) (tm_items m))) (d, t, x)" by simp
  also have "\<dots> = count (image_mset (\<lambda>x. (d, t, x)) (mset (tm_get m d t))) (d, t, x)"
    unfolding tm_items_at [OF assms] by simp
  also have "\<dots> = count (mset (tm_get m d t)) x" by (simp add: count_tagged)
  finally show ?thesis .
qed

lemma mset_tm_items_replace:
  assumes "tm_wf m" and "tm_wf m'"
    and "\<And>d' t'. (d', t') \<noteq> (d, t) \<Longrightarrow> mset (tm_get m' d' t') = mset (tm_get m d' t')"
    and "mset (tm_get m d t) + X = mset (tm_get m' d t) + Y"
  shows "image_mset (snd \<circ> snd) (mset (tm_items m)) + X = image_mset (snd \<circ> snd) (mset (tm_items m')) + Y"
proof -
  let ?tag = "image_mset (\<lambda>x. (d, t, x))"
  have "mset (tm_items m) + ?tag X = mset (tm_items m') + ?tag Y"
  proof (rule multiset_eqI)
    fix k :: "db_id \<times> table_id \<times> 'a" obtain d' t' x where k: "k = (d', t', x)" by (cases k)
    have "count (mset (tm_get m d t)) x + count X x = count (mset (tm_get m' d t)) x + count Y x"
      using arg_cong [OF assms(4), of "\<lambda>M. count M x"] by simp
    then show "count (mset (tm_items m) + ?tag X) k = count (mset (tm_items m') + ?tag Y) k"
      unfolding k count_union count_tm_items [OF assms(1)] count_tm_items [OF assms(2)] count_tagged
      using assms(3) [of d' t'] by auto
  qed
  from arg_cong [OF this, of "image_mset (snd \<circ> snd)"] show ?thesis by (simp add: multiset.map_comp o_def)
qed

lemma as_mb_add: "as_mb (a + b) = as_mb a + as_mb b"
  by (simp add: as_mb_def add_divide_distrib)

lemma as_mb_mono: "a \<le> b \<Longrightarrow> as_mb a \<le> as_mb b"
  by (simp add: as_mb_def divide_right_mono)

text \<open>A change of one table that drops the files \<open>out\<close> and appends the files \<open>inn\<close>.\<close>

lemma listed_change:
  assumes "tm_wf (pi_files p)" and "tm_wf (pi_files p')"
    and "\<And>d' t'. (d', t') \<noteq> (d, t) \<Longrightarrow> tm_get (pi_files p') d' t' = tm_get (pi_files p) d' t'"
    and "mset (tm_get (pi_files p) d t) + mset inn = mset (tm_get (pi_files p') d t) + mset out"
  shows "length (listed_files p) + length inn = length (listed_files p') + length out"
    and "sum_list (map g (listed_files p)) + sum_list (map g inn) =
      sum_list (map g (listed_files p')) + sum_list (map g out :: nat list)"
proof -
  have "mset (listed_files p @ inn) = mset (listed_files p' @ out)"
    using mset_tm_items_replace [OF assms(1,2) _ assms(4)] assms(3) by (simp add: listed_files_def)
  then have "length (listed_files p @ inn) = length (listed_files p' @ out)"
    and "sum_list (map g (listed_files p @ inn)) = sum_list (map g (listed_files p' @ out))"
    by (rule mset_eq_length, metis mset_map sum_mset_sum_list)
  then show "length (listed_files p) + length inn = length (listed_files p') + length out"
    and "sum_list (map g (listed_files p)) + sum_list (map g inn) =
      sum_list (map g (listed_files p')) + sum_list (map g out)" by simp_all
qed

lemma tm_wf_insert:
  assumes "tm_wf m" and "map_of m d = Some ts"
  shows "tm_wf (hm_insert d (hm_insert t fs ts) m)"
  using assms hm_entry_values [of _ _ d "\<lambda>_. hm_insert t fs ts" m] unfolding tm_wf_def hm_insert_def
  by (fastforce dest: map_of_SomeD)

lemma add_compacted_totals:
  assumes "add_compacted_file d t f p = (is_new, p')"
  shows "get_metrics p' = (pi_count p + (if is_new then 1 else 0),
      pi_size_mb p + as_mb (if is_new then pf_size_bytes f else 0), pi_row_count p + (if is_new then pf_row_count f else 0))"
    and "tm_wf (pi_files p) \<Longrightarrow> tm_wf (pi_files p')"
  using assms by (auto simp: add_compacted_file_def get_metrics_def as_mb_def split: if_splits)

lemma add_compacted_metrics:
  assumes "metrics_exact p"
  shows "metrics_exact (snd (add_compacted_file d t f p))"
proof -
  obtain is_new p' where r: "add_compacted_file d t f p = (is_new, p')" by fastforce
  let ?inn = "if is_new then [f] else []"
  have wf: "tm_wf (pi_files p)" "tm_wf (pi_files p')"
    using assms add_compacted_totals(2) [OF r] by (auto simp: metrics_exact_def)
  have other: "tm_get (pi_files p') d' t' = tm_get (pi_files p) d' t'" if "(d', t') \<noteq> (d, t)" for d' t'
    using add_compacted_file_effect(2) [of d t f p d' t'] that r by auto
  have inn: "mset (tm_get (pi_files p) d t) + mset ?inn = mset (tm_get (pi_files p') d t) + mset []"
    using add_compacted_file_effect(1) [of d t f p] add_compacted_file_effect(2) [of d t f p d t] r by auto
  note change = listed_change [OF wf other inn]
  then show ?thesis
    using assms add_compacted_totals(1) [OF r] wf(2) change(1) change(2) [of pf_row_count] change(2) [of pf_size_bytes] r
    by (cases is_new) (simp_all add: metrics_exact_def get_metrics_def flip: as_mb_add)
qed

lemma remove_by_path_totals:
  assumes "0 \<le> pi_size_mb p" and "remove_files_by_path d t paths p = (out, p')"
  shows "get_metrics p' = (pi_count p - length out, max (pi_size_mb p - as_mb (sum_list (map pf_size_bytes out))) 0,
    pi_row_count p - sum_list (map pf_row_count out))"
  using assms by (auto simp: remove_files_by_path_def get_metrics_def Let_def as_mb_def split: option.splits if_splits)

lemma remove_by_path_metrics:
  assumes "metrics_exact p"
  shows "metrics_exact (snd (remove_files_by_path d t paths p))"
proof -
  obtain out p' where r: "remove_files_by_path d t paths p = (out, p')" by fastforce
  have wf: "tm_wf (pi_files p)" "tm_wf (pi_files p')"
    using assms r by (auto simp: metrics_exact_def remove_files_by_path_def Let_def tm_wf_insert
        split: option.splits if_splits)
  have "mset fs = mset (filter (\<lambda>f. pf_path f \<notin> set paths) fs) + mset (filter (\<lambda>f. pf_path f \<in> set paths) fs)" for fs
    by (induction fs) auto
  moreover have "out = filter (\<lambda>f. pf_path f \<in> set paths) (tm_get (pi_files p) d t)"
    "tm_get (pi_files p') d t = filter (\<lambda>f. pf_path f \<notin> set paths) (tm_get (pi_files p) d t)"
    using remove_files_by_path_effect [of d t paths p d t] r by auto
  ultimately have out: "mset (tm_get (pi_files p) d t) + mset [] = mset (tm_get (pi_files p') d t) + mset out"
    by (simp only: mset.simps add_0_right)
  have other: "tm_get (pi_files p') d' t' = tm_get (pi_files p) d' t'" if "(d', t') \<noteq> (d, t)" for d' t'
    using remove_files_by_path_effect [of d t paths p d' t'] that r by auto
  note change = listed_change [OF wf other out]
  have "0 \<le> pi_size_mb p" using assms by (simp add: metrics_exact_def get_metrics_def as_mb_def)
  note totals = remove_by_path_totals [OF this r]
  have "as_mb (sum_list (map pf_size_bytes (listed_files p'))) =
      as_mb (sum_list (map pf_size_bytes (listed_files p))) - as_mb (sum_list (map pf_size_bytes out))"
    using change(2) [of pf_size_bytes] by (simp add: as_mb_add)
  moreover have "0 \<le> as_mb (sum_list (map pf_size_bytes (listed_files p')))" by (simp add: as_mb_def)
  ultimately show ?thesis
    using assms totals change(1) change(2) [of pf_row_count] wf(2) r
    by (simp add: metrics_exact_def get_metrics_def)
qed

lemma apply_compaction_metrics:
  assumes "metrics_exact p"
  shows "metrics_exact (snd (apply_compaction d t [m] paths p))"
  using add_compacted_metrics [OF assms] remove_by_path_metrics
  by (auto simp: apply_compaction_def split: prod.splits) (metis snd_conv)+

section \<open>Retention\<close>

definition doomed ::
  "((db_id \<times> table_id) \<times> time_ns) list \<Rightarrow> persisted_files \<Rightarrow> db_id \<Rightarrow> table_id \<Rightarrow> parquet_file \<Rightarrow> bool" where
  "doomed retention_periods p d t f \<longleftrightarrow> marked_deleted p d t \<or>
     (\<exists>cutoff. ((d, t), cutoff) \<in> set retention_periods \<and> pf_max_time f < cutoff)"

text \<open>Paths carry the node, the database and the table, so no two tables share one.\<close>

definition paths_unique :: "persisted_files \<Rightarrow> bool" where
  "paths_unique p \<longleftrightarrow> (\<forall>d t d' t'. \<forall>f \<in> set (tm_get (pi_files p) d t). \<forall>g \<in> set (tm_get (pi_files p) d' t').
     pf_path f = pf_path g \<longrightarrow> d = d' \<and> t = t' \<and> f = g)"

lemma hm_entry_not_Nil: "hm_entry k g m \<noteq> []"
  by (cases "(k, g, m)" rule: hm_entry.cases) auto

lemma tm_upd_not_Nil: "tm_upd d t f m \<noteq> []"
  by (simp add: tm_upd_def hm_upd_def hm_entry_not_Nil)

text \<open>The files a queue holds, as located files; a queue is sound when its paths are theirs.\<close>

definition located :: "parquet_file table_map \<Rightarrow> (db_id \<times> table_id \<times> parquet_file) set" where
  "located m = {(d, t, f). f \<in> set (tm_get m d t)}"

definition queue_ok :: "persisted_files \<Rightarrow> removal_queue \<Rightarrow> bool" where
  "queue_ok p q \<longleftrightarrow> located (rq_removed q) \<subseteq> located (pi_files p) \<and>
     set (rq_paths q) = (\<lambda>(d, t, f). pf_path f) ` located (rq_removed q) \<and>
     (rq_removed q = [] \<longleftrightarrow> rq_paths q = [])"

lemma located_push: "located (tm_upd d t (\<lambda>fs. fs @ [f]) m) = insert (d, t, f) (located m)"
  by (auto simp: located_def tm_get_upd split: if_splits)

lemma queue_one:
  assumes "paths_unique p" and "queue_ok p q" and "f \<in> set (tm_get (pi_files p) d t)"
  shows "queue_ok p (queue_for_removal d t q f)"
    and "located (rq_removed (queue_for_removal d t q f)) = insert (d, t, f) (located (rq_removed q))"
proof -
  have new: "(d, t, f) \<in> located (pi_files p)" using assms(3) by (simp add: located_def)
  have dup: "(d, t, f) \<in> located (rq_removed q)" if "pf_path f \<in> set (rq_paths q)"
  proof -
    have "pf_path f \<in> (\<lambda>(d, t, f). pf_path f) ` located (rq_removed q)"
      using that assms(2) unfolding queue_ok_def by blast
    then obtain d' t' g where g: "(d', t', g) \<in> located (rq_removed q)" "pf_path g = pf_path f" by fastforce
    then have "g \<in> set (tm_get (pi_files p) d' t')" using assms(2) by (auto simp: queue_ok_def located_def)
    with assms(3) g(2) have "d = d' \<and> t = t' \<and> f = g"
      using assms(1) [unfolded paths_unique_def, rule_format, of f d t g d' t'] by simp
    then show ?thesis using g(1) by simp
  qed
  show "located (rq_removed (queue_for_removal d t q f)) = insert (d, t, f) (located (rq_removed q))"
    using dup by (auto simp: queue_for_removal_def located_push)
  show "queue_ok p (queue_for_removal d t q f)"
    using assms(2) new
    by (auto simp: queue_for_removal_def queue_ok_def located_push tm_upd_not_Nil)
qed

lemma queue_many:
  assumes "paths_unique p" and "queue_ok p q" and "set fs \<subseteq> set (tm_get (pi_files p) d t)"
  shows "queue_ok p (foldl (queue_for_removal d t) q fs) \<and>
    located (rq_removed (foldl (queue_for_removal d t) q fs)) =
      located (rq_removed q) \<union> {(d, t, f) |f. f \<in> set fs}"
  using assms(2,3)
proof (induction fs arbitrary: q)
  case (Cons f fs)
  then show ?case using queue_one [OF assms(1) Cons.prems(1), of f d t] by auto
qed simp

text \<open>A loop whose every round queues a known set of located files.\<close>

lemma queue_loop:
  assumes "queue_ok p q"
    and "\<And>q x. x \<in> set xs \<Longrightarrow> queue_ok p q \<Longrightarrow>
      queue_ok p (step q x) \<and> located (rq_removed (step q x)) = located (rq_removed q) \<union> A x"
  shows "queue_ok p (foldl step q xs) \<and>
    located (rq_removed (foldl step q xs)) = located (rq_removed q) \<union> (\<Union>x \<in> set xs. A x)"
  using assms
proof (induction xs arbitrary: q)
  case (Cons x xs)
  have s: "queue_ok p (step q x)" "located (rq_removed (step q x)) = located (rq_removed q) \<union> A x"
    using Cons.prems by auto
  then show ?case using Cons.IH [OF s(1)] Cons.prems(2) by auto
qed simp

lemma queue_deleted:
  assumes u: "paths_unique p" and ok: "queue_ok p q" and wf: "tm_wf (pi_files p)"
  shows "queue_ok p (queue_deleted_db p q (d, del)) \<and>
    located (rq_removed (queue_deleted_db p q (d, del))) = located (rq_removed q) \<union>
      {(d', t, f) \<in> located (pi_files p). d' = d \<and> (case del of DeletedAll \<Rightarrow> True | DeletedList ts \<Rightarrow> t \<in> set ts)}"
proof (cases "map_of (pi_files p) d")
  case None
  then have "tm_get (pi_files p) d t = []" for t by (simp add: tm_get_def hm_get_def)
  then show ?thesis using ok None by (auto simp: queue_deleted_db_def located_def)
next
  case (Some tables)
  then have tab: "tm_get (pi_files p) d t = hm_get [] tables t" for t by (simp add: tm_get_def hm_get_def)
  have kd: "keys_distinct tables" using wf Some by (auto simp: tm_wf_def dest: map_of_SomeD)
  show ?thesis
  proof (cases del)
    case DeletedAll
    have mem: "hm_get [] tables t = fs" if "(t, fs) \<in> set tables" for t fs
      using that kd by (simp add: hm_get_def)
    have "queue_ok p (foldl (\<lambda>q (t, fs). foldl (queue_for_removal d t) q fs) q tables) \<and>
        located (rq_removed (foldl (\<lambda>q (t, fs). foldl (queue_for_removal d t) q fs) q tables)) =
          located (rq_removed q) \<union> (\<Union>(t, fs) \<in> set tables. {(d, t, f) |f. f \<in> set fs})"
      using queue_many [OF u] by (intro queue_loop ok) (auto simp: tab mem)
    moreover have "(\<Union>(t, fs) \<in> set tables. {(d, t, f) |f. f \<in> set fs}) = {(d', t, f) \<in> located (pi_files p). d' = d}"
    proof (intro equalityI subsetI)
      fix x assume "x \<in> {(d', t, f) \<in> located (pi_files p). d' = d}"
      then obtain t f where "x = (d, t, f)" "f \<in> set (hm_get [] tables t)" by (auto simp: located_def tab)
      moreover from this obtain fs where "map_of tables t = Some fs" "f \<in> set fs"
        by (cases "map_of tables t") (auto simp: hm_get_def)
      then have "(t, fs) \<in> set tables" "f \<in> set fs" by (auto dest: map_of_SomeD)
      ultimately show "x \<in> (\<Union>(t, fs) \<in> set tables. {(d, t, f) |f. f \<in> set fs})" by blast
    qed (auto simp: located_def tab mem)
    ultimately show ?thesis using DeletedAll Some by (simp add: queue_deleted_db_def)
  next
    case (DeletedList ts)
    let ?step = "\<lambda>q t. case map_of tables t of None \<Rightarrow> q | Some fs \<Rightarrow> foldl (queue_for_removal d t) q fs"
    have step: "?step q t = foldl (queue_for_removal d t) q (tm_get (pi_files p) d t)" for q t
      by (simp add: tab hm_get_def split: option.splits)
    have "queue_ok p (foldl ?step q ts) \<and> located (rq_removed (foldl ?step q ts)) =
        located (rq_removed q) \<union> (\<Union>t \<in> set ts. {(d, t, f) |f. f \<in> set (tm_get (pi_files p) d t)})"
      unfolding step using queue_many [OF u] by (intro queue_loop ok) auto
    moreover have "(\<Union>t \<in> set ts. {(d, t, f) |f. f \<in> set (tm_get (pi_files p) d t)}) =
        {(d', t, f) \<in> located (pi_files p). d' = d \<and> t \<in> set ts}" by (auto simp: located_def)
    ultimately show ?thesis using DeletedList Some by (simp add: queue_deleted_db_def)
  qed
qed

lemma removal_scan_exact:
  assumes u: "paths_unique p" and wf: "tm_wf (pi_files p)" and kd: "keys_distinct (pi_deleted_data p)"
  shows "queue_ok p (removal_scan rp p) \<and>
    located (rq_removed (removal_scan rp p)) = {(d, t, f) \<in> located (pi_files p). doomed rp p d t f}"
proof -
  let ?D = "\<lambda>(d, del). {(d', t, f) \<in> located (pi_files p). d' = d \<and>
      (case del of DeletedAll \<Rightarrow> True | DeletedList ts \<Rightarrow> t \<in> set ts)}"
  let ?E = "\<lambda>((d, t), cutoff). {(d', t', f) \<in> located (pi_files p). d' = d \<and> t' = t \<and>
      \<not> marked_deleted p d t \<and> pf_max_time f < cutoff}"
  let ?q = "foldl (queue_deleted_db p) removal_queue_empty (pi_deleted_data p)"
  have empty: "queue_ok p removal_queue_empty" "located (rq_removed removal_queue_empty) = {}"
    by (auto simp: queue_ok_def removal_queue_empty_def located_def)
  have first: "queue_ok p ?q \<and> located (rq_removed ?q) = (\<Union>x \<in> set (pi_deleted_data p). ?D x)"
    using queue_loop [OF empty(1), of "pi_deleted_data p" "queue_deleted_db p" ?D] queue_deleted [OF u _ wf] empty(2)
    by fastforce
  have step: "queue_ok p (queue_expired p q x) \<and> located (rq_removed (queue_expired p q x)) = located (rq_removed q) \<union> ?E x"
    if "queue_ok p q" for q x
  proof -
    obtain d t cutoff where x: "x = ((d, t), cutoff)" by (metis prod.exhaust)
    let ?fs = "filter (\<lambda>f. pf_max_time f < cutoff) (tm_get (pi_files p) d t)"
    have "{(d, t, f) |f. f \<in> set ?fs} = {(d', t', f) \<in> located (pi_files p). d' = d \<and> t' = t \<and> pf_max_time f < cutoff}"
      by (auto simp: located_def)
    then show ?thesis using that queue_many [OF u that, of ?fs d t] by (auto simp: x queue_expired_def)
  qed
  have "queue_ok p (removal_scan rp p) \<and>
      located (rq_removed (removal_scan rp p)) = located (rq_removed ?q) \<union> (\<Union>x \<in> set rp. ?E x)"
    unfolding removal_scan_def using first step by (intro queue_loop) auto
  moreover have "(\<Union>x \<in> set (pi_deleted_data p). ?D x) \<union> (\<Union>x \<in> set rp. ?E x) =
      {(d, t, f) \<in> located (pi_files p). doomed rp p d t f}"
  proof -
    have "(d, t, f) \<in> (\<Union>x \<in> set (pi_deleted_data p). ?D x) \<longleftrightarrow> (d, t, f) \<in> located (pi_files p) \<and> marked_deleted p d t"
      for d t f
      using kd by (fastforce simp: marked_deleted_def split: option.splits deleted_tables.splits dest: map_of_SomeD)
    then show ?thesis by (fastforce simp: doomed_def)
  qed
  ultimately show ?thesis using first by simp
qed

lemma tm_get_mapped:
  assumes "g [] = []"
  shows "tm_get (map (\<lambda>(d, tables). (d, map (\<lambda>(t, fs). (t, g fs)) tables)) m) d t = g (tm_get m d t)"
proof -
  have map: "map_of (map (\<lambda>(k, v). (k, h v)) kvs) k = map_option h (map_of kvs k)" for h :: "'u \<Rightarrow> 'v" and kvs and k :: nat
    by (induction kvs) auto
  show ?thesis using assms by (auto simp: tm_get_def hm_get_def map split: option.splits)
qed

lemma removal_sweep_effect:
  "tm_get (pi_files (removal_sweep q p)) d t =
     (if rq_removed q = [] then tm_get (pi_files p) d t
      else filter (\<lambda>f. pf_path f \<notin> set (rq_paths q)) (tm_get (pi_files p) d t))"
  by (simp add: removal_sweep_def tm_get_mapped)

section \<open>Properties\<close>

definition pf_file :: "nat \<Rightarrow> obj_path \<Rightarrow> time_ns \<Rightarrow> parquet_file" where
  "pf_file i p mx = \<lparr>pf_id = i, pf_path = p, pf_size_bytes = 10, pf_row_count = 5, pf_chunk_time = 0,
     pf_min_time = 0, pf_max_time = mx\<rparr>"

lemma pf_file_simps [simp]:
  "pf_id (pf_file i p mx) = i" "pf_path (pf_file i p mx) = p" "pf_max_time (pf_file i p mx) = mx"
  by (simp_all add: pf_file_def)

definition pf_snapshot :: "nat \<Rightarrow> parquet_file list \<Rightarrow> parquet_file list \<Rightarrow> persisted_snapshot" where
  "pf_snapshot sq added removed =
     (PersistedSnapshot_new 9 ''n1'' sq sq 1)\<lparr>ps_databases := [(1, [(2, added)])],
       ps_removed_files := [(1, [(2, removed)])]\<rparr>"

text \<open>Claim C12.  At startup the node lists exactly the files that some loaded snapshot added and that
  neither that snapshot nor a later one removed, whatever order the snapshots were loaded in.  File
  identifiers and snapshot numbers are assumed unique in the history, as their allocators make them.\<close>

theorem startup_lists_unremoved_files:
  assumes "history_wf snaps"
  shows "set (persisted_get_files (new_from_persisted_snapshots snaps) d t) =
    {f. \<exists>s \<in> set snaps. f \<in> set (added_to s d t) \<and>
       (\<forall>s' \<in> set snaps. ps_snapshot_sequence_number s \<le> ps_snapshot_sequence_number s' \<longrightarrow>
          pf_id f \<notin> removed_ids s' d t)}"
proof -
  have seqs: "distinct (map ps_snapshot_sequence_number snaps)" using assms by (simp add: history_wf_def)
  have "set (ordered_oldest_first snaps) = set snaps" by (simp add: ordered_oldest_first_def)
  then show ?thesis
    using startup_listing(2) [OF assms, of d t] survives_ordered [OF ordered_strict [OF seqs]]
    by (simp add: startup_files_def)
qed

text \<open>Witness: the newest snapshot, loaded first, removes what the oldest one added.\<close>

theorem startup_lists_unremoved_files_witness:
  "pf_file 1 ''a'' 3 \<notin> set (persisted_get_files (new_from_persisted_snapshots
     [pf_snapshot 2 [pf_file 2 ''b'' 4] [pf_file 1 ''a'' 3], pf_snapshot 1 [pf_file 1 ''a'' 3] []]) 1 2) \<and>
   pf_file 2 ''b'' 4 \<in> set (persisted_get_files (new_from_persisted_snapshots
     [pf_snapshot 2 [pf_file 2 ''b'' 4] [pf_file 1 ''a'' 3], pf_snapshot 1 [pf_file 1 ''a'' 3] []]) 1 2)"
proof -
  let ?ss = "[pf_snapshot 2 [pf_file 2 ''b'' 4] [pf_file 1 ''a'' 3], pf_snapshot 1 [pf_file 1 ''a'' 3] []]"
  have "history_wf ?ss"
    by (simp add: history_wf_def snapshot_wf_def tm_wf_def pf_snapshot_def PersistedSnapshot_new_def added_to_def
        tm_get_def hm_get_def pf_file_def)
  from startup_lists_unremoved_files [OF this, of 1 2] show ?thesis
    by (simp add: pf_snapshot_def PersistedSnapshot_new_def added_to_def removed_ids_def
        tm_get_def hm_get_def pf_file_def)
qed

text \<open>Recording a compaction replaces the inputs by the merged file, hands back this node's
  records of the inputs and keeps the metrics exact; delivering it again, with a freshly minted
  identifier, reports that nothing was added or removed and changes no listing.\<close>

theorem compaction_replaces_inputs:
  assumes "pf_path m \<notin> set paths" and "metrics_exact p"
    and "apply_compaction d t [m] paths p = ((added, removed), p1)"
  shows "pf_path ` set (persisted_get_files p1 d t) =
      insert (pf_path m) (pf_path ` set (persisted_get_files p d t) - set paths) \<and>
    set removed = {f \<in> set (persisted_get_files p d t). pf_path f \<in> set paths} \<and>
    metrics_exact p1 \<and>
    (\<forall>m'. pf_path m' = pf_path m \<longrightarrow> (\<exists>p2. apply_compaction d t [m'] paths p1 = ((0, []), p2) \<and>
       (\<forall>d' t'. persisted_get_files p2 d' t' = persisted_get_files p1 d' t')))"
proof -
  let ?fs = "tm_get (pi_files p) d t"
  note e = apply_compaction_effect [OF assms(3)]
  have fs1: "tm_get (pi_files p1) d t = filter (\<lambda>f. pf_path f \<notin> set paths) ?fs @ (if added = 0 then [] else [m])"
    and rem: "removed = filter (\<lambda>f. pf_path f \<in> set paths) ?fs"
    and add: "added = (if pf_path m \<in> pf_path ` set ?fs then 0 else 1)" using e assms(1) by simp_all
  have paths: "pf_path ` set (tm_get (pi_files p1) d t) = insert (pf_path m) (pf_path ` set ?fs - set paths)"
    using fs1 add assms(1) by auto
  have again: "\<exists>p2. apply_compaction d t [m'] paths p1 = ((0, []), p2) \<and>
      (\<forall>d' t'. persisted_get_files p2 d' t' = persisted_get_files p1 d' t')" if m': "pf_path m' = pf_path m" for m'
  proof -
    obtain a r p2 where r: "apply_compaction d t [m'] paths p1 = ((a, r), p2)" by (metis prod.exhaust)
    note e2 = apply_compaction_effect [OF r]
    have "pf_path ` set (tm_get (pi_files p1) d t) \<inter> set paths = {}" unfolding paths using assms(1) by blast
    then have none: "\<forall>f \<in> set (tm_get (pi_files p1) d t). pf_path f \<notin> set paths" by blast
    have a: "a = 0" using e2(1) paths m' by simp
    have r0: "r = []" using e2(2) m' assms(1) none by (simp add: filter_empty_conv)
    have "tm_get (pi_files p2) d t = tm_get (pi_files p1) d t"
      using e2(3) m' assms(1) none a by (simp add: filter_id_conv)
    then have "tm_get (pi_files p2) d' t' = tm_get (pi_files p1) d' t'" for d' t'
      using e2(4) [of d' t'] by (cases "(d', t') = (d, t)") auto
    then show ?thesis using r a r0
      by (simp add: persisted_get_files_def persisted_get_files_filtered_def get_files_filtered_unsorted_def)
  qed
  have "metrics_exact p1" using apply_compaction_metrics [OF assms(2), of d t m paths] assms(3) by simp
  then show ?thesis using paths rem again by simp
qed

definition pf_state :: persisted_files where
  "pf_state = persisted_files_default\<lparr>pi_files := [(1, [(2, [pf_file 1 ''a'' 3, pf_file 2 ''b'' 4])])],
     pi_count := 2, pi_size_mb := as_mb 20, pi_row_count := 10\<rparr>"

theorem compaction_replaces_inputs_witness:
  "\<exists>p1. apply_compaction 1 2 [pf_file 7 ''m'' 4] [''a'', ''b''] pf_state =
     ((1, [pf_file 1 ''a'' 3, pf_file 2 ''b'' 4]), p1) \<and>
   pf_path ` set (persisted_get_files p1 1 2) = {''m''}"
proof -
  have m: "metrics_exact pf_state"
    by (simp add: metrics_exact_def pf_state_def persisted_files_default_def tm_wf_def get_metrics_def
        listed_files_def tm_items_def pf_file_def)
  obtain p1 where r: "apply_compaction 1 2 [pf_file 7 ''m'' 4] [''a'', ''b''] pf_state =
      ((1, [pf_file 1 ''a'' 3, pf_file 2 ''b'' 4]), p1)"
    by (simp add: apply_compaction_def add_compacted_file_def remove_files_by_path_def pf_state_def
        persisted_files_default_def pf_file_def tm_get_def tm_upd_def hm_get_def hm_upd_def)
  have "pf_path (pf_file 7 ''m'' 4) \<notin> set [''a'', ''b'']" by (simp add: pf_file_def)
  from compaction_replaces_inputs [OF this m r]
  have "pf_path ` set (persisted_get_files p1 1 2) = {''m''}"
    by (simp add: pf_state_def persisted_files_default_def pf_file_def tm_get_def hm_get_def)
  then show ?thesis using r by blast
qed

text \<open>Claim C19.  The retention pass drops exactly the files of tables marked for deletion and the files
  whose newest row is older than their table's cutoff, and the removals it hands to the next snapshot
  are exactly the files it dropped.\<close>

theorem retention_removes_exactly_doomed:
  assumes "paths_unique p" and "tm_wf (pi_files p)" and "keys_distinct (pi_deleted_data p)"
    and "remove_files_for_deletion rp p = (removed, p')"
  shows "set (persisted_get_files p' d t) = {f \<in> set (persisted_get_files p d t). \<not> doomed rp p d t f} \<and>
    set (tm_get removed d t) = {f \<in> set (persisted_get_files p d t). doomed rp p d t f}"
proof -
  let ?q = "removal_scan rp p"
  have ok: "queue_ok p ?q" and loc: "located (rq_removed ?q) = {(d, t, f) \<in> located (pi_files p). doomed rp p d t f}"
    using removal_scan_exact [OF assms(1-3), of rp] by auto
  have r: "removed = rq_removed ?q" "p' = removal_sweep ?q p"
    using assms(4) by (auto simp: remove_files_for_deletion_def Let_def)
  have dropped: "pf_path f \<in> set (rq_paths ?q) \<longleftrightarrow> doomed rp p d t f" if "f \<in> set (tm_get (pi_files p) d t)" for f
  proof
    assume "pf_path f \<in> set (rq_paths ?q)"
    then obtain k where "k \<in> located (rq_removed ?q)" "pf_path f = (case k of (d, t, f) \<Rightarrow> pf_path f)"
      using ok unfolding queue_ok_def by blast
    then obtain d' t' g where "g \<in> set (tm_get (pi_files p) d' t')" "doomed rp p d' t' g" "pf_path f = pf_path g"
      unfolding loc by (auto simp: located_def)
    then show "doomed rp p d t f"
      using assms(1) [unfolded paths_unique_def, rule_format, of f d t g d' t'] that by simp
  next
    assume "doomed rp p d t f"
    then have "(d, t, f) \<in> located (rq_removed ?q)" unfolding loc using that by (simp add: located_def)
    then have "(\<lambda>(d, t, f). pf_path f) (d, t, f) \<in> (\<lambda>(d, t, f). pf_path f) ` located (rq_removed ?q)" by (rule imageI)
    then show "pf_path f \<in> set (rq_paths ?q)" using ok unfolding queue_ok_def by simp
  qed
  have "rq_removed ?q = [] \<Longrightarrow> rq_paths ?q = []" using ok by (simp add: queue_ok_def)
  then have "set (tm_get (pi_files p') d t) = {f \<in> set (tm_get (pi_files p) d t). pf_path f \<notin> set (rq_paths ?q)}"
    unfolding r removal_sweep_effect by auto
  then have "set (tm_get (pi_files p') d t) = {f \<in> set (tm_get (pi_files p) d t). \<not> doomed rp p d t f}"
    using dropped by blast
  moreover have "set (tm_get removed d t) = {f \<in> set (tm_get (pi_files p) d t). doomed rp p d t f}"
    using loc unfolding located_def r(1) by blast
  ultimately show ?thesis by simp
qed

lemma pf_state_get:
  "tm_get (pi_files pf_state) d t = (if d = 1 \<and> t = 2 then [pf_file 1 ''a'' 3, pf_file 2 ''b'' 4] else [])"
  by (simp add: pf_state_def tm_get_def hm_get_def)

theorem retention_removes_exactly_doomed_witness:
  "set (persisted_get_files (snd (remove_files_for_deletion [((1, 2), 4)] pf_state)) 1 2) = {pf_file 2 ''b'' 4} \<and>
   set (tm_get (fst (remove_files_for_deletion [((1, 2), 4)] pf_state)) 1 2) = {pf_file 1 ''a'' 3}"
proof -
  obtain removed p' where r: "remove_files_for_deletion [((1, 2), 4)] pf_state = (removed, p')" by fastforce
  have mem: "f \<in> set (tm_get (pi_files pf_state) d t) \<longleftrightarrow>
      d = 1 \<and> t = 2 \<and> (f = pf_file 1 ''a'' 3 \<or> f = pf_file 2 ''b'' 4)" for f d t
    by (simp add: pf_state_get)
  have u: "paths_unique pf_state" unfolding paths_unique_def Ball_def mem by auto
  have wf: "tm_wf (pi_files pf_state)" "keys_distinct (pi_deleted_data pf_state)"
    by (simp_all add: pf_state_def persisted_files_default_def tm_wf_def)
  have no_mark: "\<not> marked_deleted pf_state 1 2"
    by (simp add: marked_deleted_def pf_state_def persisted_files_default_def)
  have doom: "doomed [((1, 2), 4)] pf_state 1 2 f \<longleftrightarrow> pf_max_time f < 4" for f
    unfolding doomed_def using no_mark by simp
  from retention_removes_exactly_doomed [OF u wf r, of 1 2] show ?thesis
    unfolding doom r fst_conv snd_conv set_persisted_get_files mem by auto
qed

text \<open>The sweep clears every deletion mark, also one set after the scan: a database deleted
  between the two keeps its files in the listing and the next pass no longer knows of the deletion.\<close>

theorem deletion_mark_lost_between_scan_and_sweep:
  assumes "rq_removed (removal_scan rp p) \<noteq> []"
  shows "pi_deleted_data (removal_sweep (removal_scan rp p) (mark_database_deleted d p)) = [] \<and>
    set (persisted_get_files (removal_sweep (removal_scan rp p) (mark_database_deleted d p)) d t) =
      {f \<in> set (persisted_get_files p d t). pf_path f \<notin> set (rq_paths (removal_scan rp p))}"
  using assms removal_sweep_effect [of "removal_scan rp p" "mark_database_deleted d p" d t]
  by (auto simp: removal_sweep_def mark_database_deleted_def)

text \<open>Witness: an expired file of database 1 triggers the sweep, database 5 is deleted meanwhile, and
  its file is served for as long as the node runs.\<close>

definition pf_two_dbs :: persisted_files where
  "pf_two_dbs = persisted_files_default\<lparr>pi_files := [(1, [(2, [pf_file 1 ''a'' 3])]), (5, [(6, [pf_file 2 ''b'' 9])])]\<rparr>"

lemma pf_two_dbs_scan:
  "removal_scan [((1, 2), 4)] pf_two_dbs =
     \<lparr>rq_removed = [(1, [(2, [pf_file 1 ''a'' 3])])], rq_paths = [''a''], rq_size = 10, rq_rows = 5\<rparr>"
  by (simp add: removal_scan_def pf_two_dbs_def persisted_files_default_def removal_queue_empty_def
      queue_expired_def queue_for_removal_def marked_deleted_def tm_get_def tm_upd_def hm_get_def hm_upd_def pf_file_def)

theorem deletion_mark_lost_between_scan_and_sweep_witness:
  "pi_deleted_data (removal_sweep (removal_scan [((1, 2), 4)] pf_two_dbs) (mark_database_deleted 5 pf_two_dbs)) = [] \<and>
   set (persisted_get_files
     (removal_sweep (removal_scan [((1, 2), 4)] pf_two_dbs) (mark_database_deleted 5 pf_two_dbs)) 5 6) =
   {pf_file 2 ''b'' 9}"
proof -
  have ne: "rq_removed (removal_scan [((1, 2), 4)] pf_two_dbs) \<noteq> []" unfolding pf_two_dbs_scan by simp
  have get: "tm_get (pi_files pf_two_dbs) 5 6 = [pf_file 2 ''b'' 9]"
    by (simp add: pf_two_dbs_def tm_get_def hm_get_def)
  have keep: "{f \<in> set [pf_file 2 ''b'' 9]. pf_path f \<notin> set [''a'']} = {pf_file 2 ''b'' 9}"
    by (auto simp: pf_file_def)
  from deletion_mark_lost_between_scan_and_sweep [OF ne, of 5 6] show ?thesis
    unfolding set_persisted_get_files get keep [symmetric] by (simp only: pf_two_dbs_scan removal_queue.simps)
qed

text \<open>The count restored at startup is not the number of files: a snapshot that removes more files than
  it adds contributes zero instead of a negative difference.\<close>

lemma startup_count_inflated:
  "pi_count (new_from_persisted_snapshots
     [pf_snapshot 1 [pf_file 1 ''a'' 3, pf_file 2 ''b'' 4] [],
      pf_snapshot 2 [pf_file 3 ''m'' 4] [pf_file 1 ''a'' 3, pf_file 2 ''b'' 4]]) = 2"
  by (simp add: new_from_persisted_snapshots_def ordered_oldest_first_def pf_snapshot_def PersistedSnapshot_new_def
      load_snapshot_def update_persisted_files_with_snapshot_def add_db_files_def add_table_files_def
      remove_db_files_def remove_table_files_def remove_by_id_def swap_remove_def hm_get_def hm_insert_def pf_file_def Let_def)

end
