(* ===== verification/Checkpoint.thy ===== *)
theory Checkpoint
  imports Persisted_Files Path_Names
begin

text \<open>
  Monthly checkpoints: \<open>PersistedSnapshotCheckpoint\<close> of \<open>influxdb3_write/src/lib.rs\<close>, the functions of
  \<open>write_buffer/checkpoint.rs\<close> that maintain one from snapshots, and the startup from checkpoints
  and later snapshots of \<open>write_buffer/persisted_files.rs\<close>.

  A checkpoint keeps the files its snapshots leave behind and, as pending removals, the
  identifiers they remove from earlier months.  The main lemma of each operation is stated over the
  history of snapshots a checkpoint stands for (\<open>checkpoint_of\<close>); the property is that starting from
  checkpoints and the snapshots after them lists the files of the whole history.
\<close>

section \<open>The checkpoint\<close>

record snapshot_checkpoint =
  cp_node_id :: node_name
  cp_year_month :: year_month
  cp_last_snapshot_sequence_number :: nat
  cp_next_file_id :: "nat option"
  cp_wal_file_sequence_number :: nat
  cp_catalog_sequence_number :: nat
  cp_parquet_size_bytes :: nat
  cp_row_count :: nat
  cp_min_time :: time_ns
  cp_max_time :: time_ns
  cp_databases :: "parquet_file table_map"
  cp_pending_removed_files :: "parquet_file table_map"

definition checkpoint_new :: "node_name \<Rightarrow> year_month \<Rightarrow> snapshot_checkpoint" where
  "checkpoint_new node_id ym =
     \<lparr>cp_node_id = node_id, cp_year_month = ym, cp_last_snapshot_sequence_number = 0,
      cp_next_file_id = None, cp_wal_file_sequence_number = 0, cp_catalog_sequence_number = 0,
      cp_parquet_size_bytes = 0, cp_row_count = 0, cp_min_time = i64_max, cp_max_time = i64_min,
      cp_databases = [], cp_pending_removed_files = []\<rparr>"

definition add_file :: "db_id \<Rightarrow> table_id \<Rightarrow> parquet_file \<Rightarrow> snapshot_checkpoint \<Rightarrow> snapshot_checkpoint" where
  "add_file d t f cp =
     cp\<lparr>cp_parquet_size_bytes := cp_parquet_size_bytes cp + pf_size_bytes f,
        cp_row_count := cp_row_count cp + pf_row_count f,
        cp_min_time := min (cp_min_time cp) (pf_min_time f),
        cp_max_time := max (cp_max_time cp) (pf_max_time f),
        cp_databases := tm_upd d t (\<lambda>fs. fs @ [f]) (cp_databases cp)\<rparr>"

definition remove_file ::
  "db_id \<Rightarrow> table_id \<Rightarrow> nat \<Rightarrow> snapshot_checkpoint \<Rightarrow> bool \<times> snapshot_checkpoint" where
  "remove_file d t file_id cp =
     (case map_of (cp_databases cp) d of
        None \<Rightarrow> (False, cp)
      | Some db_tables \<Rightarrow>
          (case map_of db_tables t of
             None \<Rightarrow> (False, cp)
           | Some fs \<Rightarrow>
               (case position (\<lambda>f. pf_id f = file_id) fs of
                  None \<Rightarrow> (False, cp)
                | Some pos \<Rightarrow>
                    (True, cp\<lparr>cp_databases := hm_insert d (hm_insert t (remove_at pos fs) db_tables) (cp_databases cp),
                              cp_parquet_size_bytes := cp_parquet_size_bytes cp - pf_size_bytes (fs ! pos),
                              cp_row_count := cp_row_count cp - pf_row_count (fs ! pos)\<rparr>))))"

definition add_pending_removed ::
  "db_id \<Rightarrow> table_id \<Rightarrow> parquet_file \<Rightarrow> snapshot_checkpoint \<Rightarrow> snapshot_checkpoint" where
  "add_pending_removed d t f cp =
     cp\<lparr>cp_pending_removed_files := tm_upd d t (\<lambda>fs. fs @ [f]) (cp_pending_removed_files cp)\<rparr>"

definition update_from_snapshot :: "persisted_snapshot \<Rightarrow> snapshot_checkpoint \<Rightarrow> snapshot_checkpoint" where
  "update_from_snapshot s cp =
     cp\<lparr>cp_last_snapshot_sequence_number := ps_snapshot_sequence_number s,
        cp_next_file_id := Some (ps_next_file_id s),
        cp_wal_file_sequence_number := ps_wal_file_sequence_number s,
        cp_catalog_sequence_number := ps_catalog_sequence_number s\<rparr>"

definition recalculate_time_range :: "snapshot_checkpoint \<Rightarrow> snapshot_checkpoint" where
  "recalculate_time_range cp =
     cp\<lparr>cp_min_time := foldl (\<lambda>m (d, t, f). min m (pf_min_time f)) i64_max (tm_items (cp_databases cp)),
        cp_max_time := foldl (\<lambda>m (d, t, f). max m (pf_max_time f)) i64_min (tm_items (cp_databases cp))\<rparr>"

text \<open>The loop of \<open>merge\<close> over the later checkpoint's pending removals.\<close>

definition apply_pending ::
  "bool \<times> snapshot_checkpoint \<Rightarrow> db_id \<times> table_id \<times> parquet_file \<Rightarrow> bool \<times> snapshot_checkpoint" where
  "apply_pending acc item =
     (case acc of (any_removed, cp) \<Rightarrow> case item of (d, t, f) \<Rightarrow>
        case remove_file d t (pf_id f) cp of (found, cp') \<Rightarrow> (any_removed \<or> found, cp'))"

definition merge :: "snapshot_checkpoint \<Rightarrow> snapshot_checkpoint \<Rightarrow> snapshot_checkpoint" where
  "merge cp other =
     (let cp1 = foldl (\<lambda>cp (d, t, f). add_file d t f cp) cp (tm_items (cp_databases other))
      in case foldl apply_pending (False, cp1) (tm_items (cp_pending_removed_files other)) of
           (any_removed, cp2) \<Rightarrow>
             (let cp3 = (if any_removed then recalculate_time_range cp2 else cp2)
              in cp3\<lparr>cp_year_month := cp_year_month other,
                     cp_last_snapshot_sequence_number := cp_last_snapshot_sequence_number other,
                     cp_next_file_id := cp_next_file_id other,
                     cp_wal_file_sequence_number := cp_wal_file_sequence_number other,
                     cp_catalog_sequence_number := cp_catalog_sequence_number other\<rparr>))"

section \<open>Maintaining a checkpoint\<close>

type_synonym checkpoint_index = "(nat, db_id \<times> table_id) hash_map"

definition build_file_index :: "parquet_file table_map \<Rightarrow> checkpoint_index" where
  "build_file_index databases =
     foldl (\<lambda>index (d, t, f). hm_insert (pf_id f) (d, t) index) [] (tm_items databases)"

definition add_snapshot_files ::
  "parquet_file table_map \<Rightarrow> snapshot_checkpoint \<times> checkpoint_index \<Rightarrow> snapshot_checkpoint \<times> checkpoint_index" where
  "add_snapshot_files databases acc =
     foldl (\<lambda>(cp, index) (d, t, f). (add_file d t f cp, hm_insert (pf_id f) (d, t) index))
       acc (tm_items databases)"

definition process_removed ::
  "snapshot_checkpoint \<times> checkpoint_index \<times> bool \<Rightarrow> db_id \<times> table_id \<times> parquet_file \<Rightarrow>
   snapshot_checkpoint \<times> checkpoint_index \<times> bool" where
  "process_removed acc item =
     (case acc of (cp, index, any_removed) \<Rightarrow> case item of (d, t, f) \<Rightarrow>
        case map_of index (pf_id f) of
          Some (existing_db, existing_table) \<Rightarrow>
            (snd (remove_file existing_db existing_table (pf_id f) cp), hm_remove (pf_id f) index, True)
        | None \<Rightarrow> (add_pending_removed d t f cp, index, any_removed))"

definition process_removed_files ::
  "parquet_file table_map \<Rightarrow> snapshot_checkpoint \<times> checkpoint_index \<Rightarrow> snapshot_checkpoint \<times> checkpoint_index" where
  "process_removed_files removed_files acc =
     (case acc of (cp, index) \<Rightarrow>
        case foldl process_removed (cp, index, False) (tm_items removed_files) of
          (cp', index', any_removed) \<Rightarrow>
            (if any_removed then recalculate_time_range cp' else cp', index'))"

text \<open>The three calls every maintainer of a checkpoint makes per snapshot.\<close>

definition checkpoint_snapshot ::
  "snapshot_checkpoint \<times> checkpoint_index \<Rightarrow> persisted_snapshot \<Rightarrow> snapshot_checkpoint \<times> checkpoint_index" where
  "checkpoint_snapshot acc s =
     process_removed_files (ps_removed_files s)
       (add_snapshot_files (ps_databases s) (update_from_snapshot s (fst acc), snd acc))"

text \<open>The calendar is a library's: which month an instant belongs to is an argument.\<close>

definition group_snapshots_by_month ::
  "(int \<Rightarrow> year_month) \<Rightarrow> (persisted_snapshot \<times> int) list \<Rightarrow> (year_month, persisted_snapshot list) hash_map" where
  "group_snapshots_by_month year_month_from_timestamp_ms snapshots =
     foldl (\<lambda>grouped (s, ts). hm_upd [] (year_month_from_timestamp_ms ts) (\<lambda>ss. ss @ [s]) grouped) [] snapshots"

section \<open>Startup from checkpoints\<close>

definition inner_from_checkpoint :: "snapshot_checkpoint \<Rightarrow> persisted_files" where
  "inner_from_checkpoint cp =
     \<lparr>pi_files = foldl (\<lambda>files (d, ts). foldl (\<lambda>files (t, fs). tm_upd d t (\<lambda>old. old @ fs) files) files ts)
                   [] (cp_databases cp),
      pi_count = foldl (\<lambda>n (d, ts). foldl (\<lambda>n (t, fs). n + length fs) n ts) 0 (cp_databases cp),
      pi_size_mb = as_mb (cp_parquet_size_bytes cp),
      pi_row_count = cp_row_count cp,
      pi_deleted_data = []\<rparr>"

abbreviation month_key :: "snapshot_checkpoint \<Rightarrow> nat \<times> nat" where
  "month_key cp \<equiv> (ym_year (cp_year_month cp), ym_month (cp_year_month cp))"

definition new_from_checkpoints_and_snapshots ::
  "snapshot_checkpoint list \<Rightarrow> persisted_snapshot list \<Rightarrow> persisted_files" where
  "new_from_checkpoints_and_snapshots checkpoints additional_snapshots =
     (let inner = (case sort_key month_key checkpoints of
                     [] \<Rightarrow> persisted_files_default
                   | cp # cps \<Rightarrow> inner_from_checkpoint (foldl merge cp cps))
      in foldl (\<lambda>p s. add_persisted_snapshot s p) inner
           (sort_key ps_snapshot_sequence_number additional_snapshots))"

section \<open>Located files\<close>

text \<open>A stored file with its database and table; its identifier, and its location with identifier.\<close>

type_synonym located_file = "db_id \<times> table_id \<times> parquet_file"

abbreviation gid :: "located_file \<Rightarrow> nat" where
  "gid x \<equiv> pf_id (snd (snd x))"

abbreviation place :: "located_file \<Rightarrow> db_id \<times> table_id" where
  "place x \<equiv> (fst x, fst (snd x))"

definition holds_files :: "parquet_file table_map \<Rightarrow> located_file set \<Rightarrow> bool" where
  "holds_files m S \<longleftrightarrow> tm_wf m \<and> set (tm_items m) = S \<and> distinct (map gid (tm_items m))"

lemma holds_files_empty [simp]: "holds_files [] {}"
  by (simp add: holds_files_def tm_items_def)

lemma holds_files_inj: "holds_files m S \<Longrightarrow> inj_on gid S"
  by (auto simp: holds_files_def distinct_map)

lemma holds_files_mem: "holds_files m S \<Longrightarrow> f \<in> set (tm_get m d t) \<longleftrightarrow> (d, t, f) \<in> S"
  by (auto simp: holds_files_def tm_items_mem)

lemma holds_files_perm:
  assumes "tm_wf m" and "mset (tm_items m) = mset xs" and "distinct (map gid xs)" and "set xs = S"
  shows "holds_files m S"
proof -
  have "mset (map gid (tm_items m)) = mset (map gid xs)" using assms(2) by simp
  then have "distinct (map gid (tm_items m))" using assms(3) by (intro distinct_submset [OF assms(3)]) simp
  then show ?thesis using assms(1,2,4) by (auto simp: holds_files_def dest: mset_eq_setD)
qed

lemma holds_files_push:
  assumes "holds_files m S" and "pf_id f \<notin> gid ` S"
  shows "holds_files (tm_upd d t (\<lambda>fs. fs @ [f]) m) (insert (d, t, f) S)"
proof (rule holds_files_perm [where xs = "(d, t, f) # tm_items m"])
  have wf: "tm_wf m" using assms(1) by (simp add: holds_files_def)
  show "tm_wf (tm_upd d t (\<lambda>fs. fs @ [f]) m)" using wf by simp
  show "mset (tm_items (tm_upd d t (\<lambda>fs. fs @ [f]) m)) = mset ((d, t, f) # tm_items m)"
    using mset_tm_items_push [OF wf, of d t f] by simp
qed (use assms in \<open>auto simp: holds_files_def\<close>)

lemma tm_get_remove:
  assumes "map_of m d = Some ts" and "map_of ts t = Some fs"
  shows "tm_get (hm_insert d (hm_insert t fs' ts) m) d' t' = (if d' = d \<and> t' = t then fs' else tm_get m d' t')"
    and "tm_get m d t = fs"
  using assms by (auto simp: tm_get_def hm_get_insert hm_get_def [of _ m d] hm_get_def [of _ ts t])

lemma holds_files_delete:
  assumes "holds_files m S" and "map_of m d = Some ts" and "map_of ts t = Some fs" and "pos < length fs"
  shows "holds_files (hm_insert d (hm_insert t (remove_at pos fs) ts) m) (S - {(d, t, fs ! pos)})"
    (is "holds_files ?m' (S - {?x})")
proof -
  have wf: "tm_wf m" using assms(1) by (simp add: holds_files_def)
  have wf': "tm_wf ?m'" using tm_wf_insert [OF wf assms(2)] .
  have "mset (tm_items ?m') = mset (tm_items m) - {#?x#}"
  proof (rule multiset_eqI)
    fix k :: located_file obtain d' t' f where k: "k = (d', t', f)" by (cases k)
    have "count (mset (tm_get ?m' d' t')) f = count (mset (tm_items m) - {#?x#}) (d', t', f)"
      unfolding tm_get_remove(1) [OF assms(2,3)]
      using tm_get_remove(2) [OF assms(2,3)] by (auto simp: mset_remove_at [OF assms(4)] count_tm_items [OF wf])
    then show "count (mset (tm_items ?m')) k = count (mset (tm_items m) - {#?x#}) k"
      unfolding k count_tm_items [OF wf'] .
  qed
  also have "\<dots> = mset (remove1 ?x (tm_items m))" by simp
  finally have m: "mset (tm_items ?m') = mset (remove1 ?x (tm_items m))" .
  have d: "distinct (tm_items m)" "distinct (map gid (tm_items m))"
    using assms(1) by (auto simp: holds_files_def distinct_map)
  show ?thesis
  proof (rule holds_files_perm [OF wf' m])
    show "distinct (map gid (remove1 ?x (tm_items m)))"
      using d(2) by (rule distinct_submset) (simp add: image_mset_subseteq_mono)
  qed (use d(1) assms(1) in \<open>simp add: holds_files_def\<close>)
qed

lemma remove_file_effect:
  assumes "holds_files (cp_databases cp) S" and "remove_file d t i cp = (found, cp')"
  shows "holds_files (cp_databases cp') {x \<in> S. \<not> (place x = (d, t) \<and> gid x = i)} \<and>
    (found \<longleftrightarrow> (\<exists>x \<in> S. place x = (d, t) \<and> gid x = i)) \<and>
    cp_pending_removed_files cp' = cp_pending_removed_files cp"
proof (cases "position (\<lambda>f. pf_id f = i) (tm_get (cp_databases cp) d t)")
  let ?fs = "tm_get (cp_databases cp) d t"
  have mem: "f \<in> set ?fs \<longleftrightarrow> (d, t, f) \<in> S" for f using holds_files_mem [OF assms(1)] .
  {
    case None
    then have "\<forall>f \<in> set ?fs. pf_id f \<noteq> i" by (simp add: position_None)
    then have S: "{x \<in> S. \<not> (place x = (d, t) \<and> gid x = i)} = S" "\<not> (\<exists>x \<in> S. place x = (d, t) \<and> gid x = i)"
      using mem by fastforce+
    have "cp' = cp \<and> \<not> found" using assms(2) None
      by (auto simp: remove_file_def tm_get_def hm_get_def split: option.splits)
    then show ?thesis using assms(1) S by simp
  next
    case (Some pos)
    then have pos: "pos < length ?fs" "pf_id (?fs ! pos) = i" using position_Some by fastforce+
    let ?x = "(d, t, ?fs ! pos)"
    have x: "?x \<in> S" using mem pos(1) by (metis nth_mem)
    obtain ts where ts: "map_of (cp_databases cp) d = Some ts" "map_of ts t = Some ?fs"
      using pos(1) by (auto simp: tm_get_def hm_get_def split: option.splits)
    have "y = ?x" if "y \<in> S" "gid y = i" for y
      using inj_onD [OF holds_files_inj [OF assms(1)], of y ?x] that x pos(2) by simp
    then have "S - {?x} = {x \<in> S. \<not> (place x = (d, t) \<and> gid x = i)}" using pos(2) by auto
    moreover have "\<exists>x \<in> S. place x = (d, t) \<and> gid x = i" using x pos(2) by (intro bexI [of _ ?x]) auto
    moreover have "cp_databases cp' = hm_insert d (hm_insert t (remove_at pos ?fs) ts) (cp_databases cp)" "found"
      "cp_pending_removed_files cp' = cp_pending_removed_files cp"
      using assms(2) ts Some by (auto simp: remove_file_def)
    ultimately show ?thesis using holds_files_delete [OF assms(1) ts pos(1)] by simp
  }
qed

section \<open>The files a history leaves\<close>

definition added_files :: "persisted_snapshot \<Rightarrow> located_file list" where
  "added_files s = tm_items (ps_databases s)"

definition removed_files :: "persisted_snapshot \<Rightarrow> located_file list" where
  "removed_files s = tm_items (ps_removed_files s)"

definition leave :: "located_file set \<Rightarrow> persisted_snapshot \<Rightarrow> located_file set" where
  "leave S s = {x \<in> S \<union> set (added_files s). gid x \<notin> gid ` set (removed_files s)}"

definition left_by :: "persisted_snapshot list \<Rightarrow> located_file set" where
  "left_by ss = foldl leave {} ss"

text \<open>What the allocators and the removers guarantee of a node's history: identifiers are never
  reused, and a removal names the place of a file that is already there.\<close>

definition history_sane :: "persisted_snapshot list \<Rightarrow> bool" where
  "history_sane ss \<longleftrightarrow>
     (\<forall>s \<in> set ss. snapshot_wf s) \<and>
     distinct (map gid (concat (map added_files ss))) \<and>
     sorted_wrt (\<lambda>s s'. gid ` set (removed_files s) \<inter> gid ` set (added_files s') = {}) ss \<and>
     (\<forall>s \<in> set ss. \<forall>s' \<in> set ss. \<forall>x \<in> set (added_files s). \<forall>r \<in> set (removed_files s').
        gid x = gid r \<longrightarrow> place x = place r)"

lemma history_sane_append: "history_sane (xs @ ys) \<Longrightarrow> history_sane xs \<and> history_sane ys"
  unfolding history_sane_def sorted_wrt_append map_append concat_append distinct_append set_append by blast

lemma left_by_snoc: "left_by (ss @ [s]) = leave (left_by ss) s"
  by (simp add: left_by_def)

lemma left_by_added: "left_by ss \<subseteq> set (concat (map added_files ss))"
  by (induction ss rule: rev_induct) (auto simp: left_by_def leave_def)

lemma left_by_append:
  "left_by (xs @ ys) = {x \<in> left_by xs. \<forall>s \<in> set ys. gid x \<notin> gid ` set (removed_files s)} \<union> left_by ys"
proof (induction ys rule: rev_induct)
  case (snoc y ys)
  have "left_by (xs @ ys @ [y]) = leave (left_by (xs @ ys)) y" using left_by_snoc [of "xs @ ys" y] by simp
  then show ?case unfolding snoc left_by_snoc by (auto simp: leave_def)
qed (simp add: left_by_def)

section \<open>What a maintained checkpoint holds\<close>

definition index_ok :: "checkpoint_index \<Rightarrow> located_file set \<Rightarrow> bool" where
  "index_ok index S \<longleftrightarrow> (\<forall>i p. map_of index i = Some p \<longleftrightarrow> (\<exists>x \<in> S. gid x = i \<and> place x = p))"

definition pending :: "snapshot_checkpoint \<Rightarrow> located_file set" where
  "pending cp = set (tm_items (cp_pending_removed_files cp))"

definition checkpoint_holds :: "snapshot_checkpoint \<Rightarrow> located_file set \<Rightarrow> bool" where
  "checkpoint_holds cp S \<longleftrightarrow> holds_files (cp_databases cp) S \<and> tm_wf (cp_pending_removed_files cp)"

lemma recalculate_fields [simp]:
  "cp_databases (recalculate_time_range cp) = cp_databases cp"
  "cp_pending_removed_files (recalculate_time_range cp) = cp_pending_removed_files cp"
  "checkpoint_holds (recalculate_time_range cp) S = checkpoint_holds cp S"
  "pending (recalculate_time_range cp) = pending cp"
  by (simp_all add: recalculate_time_range_def checkpoint_holds_def pending_def)

lemma add_file_holds:
  assumes "checkpoint_holds cp S" and "gid x \<notin> gid ` S" and "x = (d, t, f)"
  shows "checkpoint_holds (add_file d t f cp) (insert x S)" and "pending (add_file d t f cp) = pending cp"
  using assms holds_files_push by (simp_all add: add_file_def checkpoint_holds_def pending_def)

lemma index_ok_insert:
  assumes "index_ok index S" and "gid x \<notin> gid ` S"
  shows "index_ok (hm_insert (gid x) (place x) index) (insert x S)"
proof -
  have "gid y \<noteq> gid x" if "y \<in> S" for y using assms(2) that by (metis imageI)
  then show ?thesis using assms(1) unfolding index_ok_def map_of_hm_insert by auto
qed

lemma add_files_hold:
  assumes "checkpoint_holds cp S" and "index_ok index S" and "distinct (map gid xs)" and "gid ` set xs \<inter> gid ` S = {}"
  shows "\<exists>cp' index'. foldl (\<lambda>(cp, index) (d, t, f). (add_file d t f cp, hm_insert (pf_id f) (d, t) index)) (cp, index) xs =
      (cp', index') \<and> checkpoint_holds cp' (S \<union> set xs) \<and> index_ok index' (S \<union> set xs) \<and> pending cp' = pending cp"
  using assms
proof (induction xs arbitrary: cp index S)
  case (Cons x xs)
  obtain d t f where x: "x = (d, t, f)" by (cases x)
  have fresh: "gid x \<notin> gid ` S" using Cons.prems(4) by auto
  have disj: "gid ` set xs \<inter> gid ` insert x S = {}" using Cons.prems(3,4) by auto
  show ?case
    using Cons.IH [OF add_file_holds(1) [OF Cons.prems(1) fresh x] index_ok_insert [OF Cons.prems(2) fresh] _ disj]
      Cons.prems(3) add_file_holds(2) [OF Cons.prems(1) fresh x] by (simp add: x)
qed simp

lemma merge_adds:
  assumes "checkpoint_holds cp S" and "distinct (map gid xs)" and "gid ` set xs \<inter> gid ` S = {}"
  shows "checkpoint_holds (foldl (\<lambda>cp (d, t, f). add_file d t f cp) cp xs) (S \<union> set xs)"
  using assms
proof (induction xs arbitrary: cp S)
  case (Cons x xs)
  obtain d t f where x: "x = (d, t, f)" by (cases x)
  have fresh: "gid x \<notin> gid ` S" using Cons.prems(3) by auto
  have disj: "gid ` set xs \<inter> gid ` insert x S = {}" using Cons.prems(2,3) by auto
  show ?case using Cons.IH [OF add_file_holds(1) [OF Cons.prems(1) fresh x] _ disj] Cons.prems(2) by (simp add: x)
qed simp

lemma process_removed_step:
  assumes "checkpoint_holds cp S" and "index_ok index S" and "process_removed (cp, index, any) r = (cp', index', any')"
  shows "checkpoint_holds cp' {x \<in> S. gid x \<noteq> gid r} \<and> index_ok index' {x \<in> S. gid x \<noteq> gid r} \<and>
    pending cp' = (if gid r \<in> gid ` S then pending cp else insert r (pending cp))"
proof (cases "map_of index (gid r)")
  case None
  have "map_of index (gid x) = Some (place x)" if "x \<in> S" for x using assms(2) that unfolding index_ok_def by blast
  with None have none: "\<forall>x \<in> S. gid x \<noteq> gid r" by (metis option.distinct(1))
  obtain d t f where r: "r = (d, t, f)" by (cases r)
  have wf: "tm_wf (cp_pending_removed_files cp)" using assms(1) by (simp add: checkpoint_holds_def)
  have "cp' = add_pending_removed d t f cp" "index' = index"
    using assms(3) None r by (auto simp: process_removed_def)
  moreover have "{x \<in> S. gid x \<noteq> gid r} = S" using none by auto
  moreover have "set (tm_items (tm_upd d t (\<lambda>fs. fs @ [f]) (cp_pending_removed_files cp))) =
      insert r (set (tm_items (cp_pending_removed_files cp)))"
    using mset_tm_items_push [OF wf, of d t f] by (metis r set_mset_add_mset_insert set_mset_mset)
  ultimately show ?thesis using assms(1,2) none
    by (auto simp: add_pending_removed_def checkpoint_holds_def pending_def)
next
  case (Some p)
  then obtain x where x: "x \<in> S" "gid x = gid r" "place x = p" using assms(2) unfolding index_ok_def by blast
  obtain found cp1 where rf: "remove_file (fst x) (fst (snd x)) (gid r) cp = (found, cp1)" by fastforce
  obtain d t f where r: "r = (d, t, f)" by (cases r)
  have cp': "cp' = cp1" "index' = hm_remove (gid r) index"
    using assms(3) Some rf unfolding x(3) [symmetric] by (simp_all add: process_removed_def r)
  have inj: "inj_on gid S" using assms(1) holds_files_inj by (auto simp: checkpoint_holds_def)
  have "y = x" if "y \<in> S" "gid y = gid r" for y using inj_onD [OF inj _ that(1) x(1)] x(2) that(2) by simp
  then have eq: "{y \<in> S. \<not> (place y = (fst x, fst (snd x)) \<and> gid y = gid r)} = {y \<in> S. gid y \<noteq> gid r}" by blast
  have h: "holds_files (cp_databases cp) S" "tm_wf (cp_pending_removed_files cp)"
    using assms(1) by (simp_all add: checkpoint_holds_def)
  have "checkpoint_holds cp1 {y \<in> S. gid y \<noteq> gid r} \<and> pending cp1 = pending cp"
    unfolding checkpoint_holds_def pending_def
    using remove_file_effect [OF h(1) rf, unfolded eq] h(2) by (simp only: simp_thms)
  moreover have "index_ok (hm_remove (gid r) index) {y \<in> S. gid y \<noteq> gid r}"
    unfolding index_ok_def map_of_hm_remove fun_upd_apply
  proof (intro allI)
    fix i q
    show "((if i = gid r then None else map_of index i) = Some q) =
        (\<exists>x \<in> {y \<in> S. gid y \<noteq> gid r}. gid x = i \<and> place x = q)"
    proof (cases "i = gid r")
      case False
      then have "(\<exists>x \<in> {y \<in> S. gid y \<noteq> gid r}. gid x = i \<and> place x = q) \<longleftrightarrow> (\<exists>x \<in> S. gid x = i \<and> place x = q)"
        by (metis (mono_tags, lifting) mem_Collect_eq)
      then show ?thesis
        unfolding if_not_P [OF False] using assms(2) [unfolded index_ok_def, rule_format, of i q] by (rule trans [OF _ sym, rotated])
    qed auto
  qed
  moreover have "gid r \<in> gid ` S" using x(1,2) by (metis imageI)
  ultimately show ?thesis using cp' by simp
qed

lemma process_removed_fold:
  assumes "checkpoint_holds cp S" and "index_ok index S" and "foldl process_removed (cp, index, any) rs = (cp', index', any')"
  shows "checkpoint_holds cp' {x \<in> S. gid x \<notin> gid ` set rs} \<and> index_ok index' {x \<in> S. gid x \<notin> gid ` set rs} \<and>
    pending cp \<subseteq> pending cp' \<and> pending cp' \<subseteq> pending cp \<union> set rs \<and>
    {r \<in> set rs. gid r \<notin> gid ` S} \<subseteq> pending cp'"
  using assms
proof (induction rs arbitrary: cp S index any)
  case (Cons r rs)
  obtain cp1 index1 any1 where r: "process_removed (cp, index, any) r = (cp1, index1, any1)" by (metis prod_cases3)
  have step: "checkpoint_holds cp1 {x \<in> S. gid x \<noteq> gid r}" "index_ok index1 {x \<in> S. gid x \<noteq> gid r}"
    "pending cp1 = (if gid r \<in> gid ` S then pending cp else insert r (pending cp))"
    using process_removed_step [OF Cons.prems(1,2) r] by auto
  have "{x \<in> {x \<in> S. gid x \<noteq> gid r}. gid x \<notin> gid ` set rs} = {x \<in> S. gid x \<notin> gid ` set (r # rs)}" by auto
  then have IH: "checkpoint_holds cp' {x \<in> S. gid x \<notin> gid ` set (r # rs)}"
      "index_ok index' {x \<in> S. gid x \<notin> gid ` set (r # rs)}"
      "pending cp1 \<subseteq> pending cp'" "pending cp' \<subseteq> pending cp1 \<union> set rs"
      "{q \<in> set rs. gid q \<notin> gid ` {x \<in> S. gid x \<noteq> gid r}} \<subseteq> pending cp'"
    using Cons.IH [OF step(1,2) Cons.prems(3) [unfolded foldl.simps r]] by simp_all
  have "r \<in> pending cp'" if "gid r \<notin> gid ` S" using IH(3) step(3) that by auto
  moreover have "gid ` {x \<in> S. gid x \<noteq> gid r} \<subseteq> gid ` S" by blast
  ultimately have "{q \<in> set (r # rs). gid q \<notin> gid ` S} \<subseteq> pending cp'" using IH(5) by (simp only: set_simps) blast
  moreover have "pending cp \<subseteq> pending cp1" "pending cp1 \<subseteq> insert r (pending cp)" using step(3) by auto
  ultimately show ?case using IH(1-4) by (simp only: set_simps) blast
qed auto

section \<open>Checkpoints of histories\<close>

definition removals :: "persisted_snapshot list \<Rightarrow> located_file set" where
  "removals ss = (\<Union>s \<in> set ss. set (removed_files s))"

definition additions :: "persisted_snapshot list \<Rightarrow> located_file set" where
  "additions ss = (\<Union>s \<in> set ss. set (added_files s))"

definition checkpoint_of :: "persisted_snapshot list \<Rightarrow> snapshot_checkpoint \<Rightarrow> bool" where
  "checkpoint_of ss cp \<longleftrightarrow> checkpoint_holds cp (left_by ss) \<and> pending cp \<subseteq> removals ss \<and>
     {r \<in> removals ss. gid r \<notin> gid ` additions ss} \<subseteq> pending cp \<and>
     gid ` pending cp \<inter> gid ` left_by ss = {}"

lemma left_by_additions: "left_by ss \<subseteq> additions ss"
  using left_by_added [of ss] by (simp add: additions_def)

lemma removals_snoc [simp]: "removals (ss @ [s]) = removals ss \<union> set (removed_files s)"
  by (auto simp: removals_def)

lemma additions_snoc [simp]: "additions (ss @ [s]) = additions ss \<union> set (added_files s)"
  by (auto simp: additions_def)

lemma history_sane_snoc:
  assumes "history_sane (ss @ [s])"
  shows "history_sane ss" and "snapshot_wf s" and "distinct (map gid (added_files s))"
    and "gid ` set (added_files s) \<inter> gid ` additions ss = {}"
    and "gid ` set (added_files s) \<inter> gid ` removals ss = {}"
proof -
  show "history_sane ss" using history_sane_append [OF assms] by simp
  show "snapshot_wf s" "distinct (map gid (added_files s))" using assms by (simp_all add: history_sane_def)
  have "distinct (map gid (concat (map added_files (ss @ [s]))))" using assms unfolding history_sane_def by blast
  then show "gid ` set (added_files s) \<inter> gid ` additions ss = {}" by (simp add: additions_def Int_commute)
  have "\<forall>s' \<in> set ss. gid ` set (removed_files s') \<inter> gid ` set (added_files s) = {}"
    using assms unfolding history_sane_def sorted_wrt_append by simp
  then show "gid ` set (added_files s) \<inter> gid ` removals ss = {}" unfolding removals_def by blast
qed

lemma pending_step:
  assumes "P \<subseteq> Rm" and "{r \<in> Rm. g r \<notin> g ` Ad} \<subseteq> P" and "g ` P \<inter> g ` L = {}" and "L \<subseteq> Ad"
    and "g ` A \<inter> g ` Rm = {}" and "P \<subseteq> P'" and "P' \<subseteq> P \<union> R" and "{r \<in> R. g r \<notin> g ` (L \<union> A)} \<subseteq> P'"
  shows "P' \<subseteq> Rm \<union> R \<and> {r \<in> Rm \<union> R. g r \<notin> g ` (Ad \<union> A)} \<subseteq> P' \<and>
    g ` P' \<inter> g ` {x \<in> L \<union> A. g x \<notin> g ` R} = {}"
proof (intro conjI)
  show "P' \<subseteq> Rm \<union> R" using assms(1,7) by (meson Un_mono order_refl subset_trans)
  have "g ` L \<subseteq> g ` Ad" using assms(4) by (rule image_mono)
  then have "{r \<in> R. g r \<notin> g ` Ad \<union> g ` A} \<subseteq> {r \<in> R. g r \<notin> g ` L \<union> g ` A}"
    "{r \<in> Rm. g r \<notin> g ` Ad \<union> g ` A} \<subseteq> {r \<in> Rm. g r \<notin> g ` Ad}" by blast+
  then show "{r \<in> Rm \<union> R. g r \<notin> g ` (Ad \<union> A)} \<subseteq> P'" using assms(2,6,8) unfolding image_Un by blast
  have "g ` P \<subseteq> g ` Rm" using assms(1) by (rule image_mono)
  then have P: "g ` P \<inter> (g ` L \<union> g ` A) = {}" using assms(3,5) by blast
  have "g ` P' \<subseteq> g ` P \<union> g ` R" using image_mono [OF assms(7), of g] by (simp only: image_Un)
  moreover have "g ` {x \<in> L \<union> A. g x \<notin> g ` R} \<subseteq> (g ` L \<union> g ` A) - g ` R" by auto
  ultimately show "g ` P' \<inter> g ` {x \<in> L \<union> A. g x \<notin> g ` R} = {}" using P by blast
qed

lemma checkpoint_snapshot_step:
  assumes "history_sane (ss @ [s])" and "checkpoint_of ss cp" and "index_ok index (left_by ss)"
  shows "\<exists>cp' index'. checkpoint_snapshot (cp, index) s = (cp', index') \<and> checkpoint_of (ss @ [s]) cp' \<and>
    index_ok index' (left_by (ss @ [s]))"
proof -
  let ?L = "left_by ss" and ?A = "set (added_files s)" and ?R = "set (removed_files s)"
  note sane = history_sane_snoc [OF assms(1)]
  have cp: "checkpoint_holds (update_from_snapshot s cp) ?L" "pending (update_from_snapshot s cp) = pending cp"
    using assms(2) by (auto simp: checkpoint_of_def checkpoint_holds_def pending_def update_from_snapshot_def)
  have fresh: "gid ` ?A \<inter> gid ` ?L = {}" using sane(4) left_by_additions [of ss] by blast
  obtain cp1 index1 where add: "add_snapshot_files (ps_databases s) (update_from_snapshot s cp, index) = (cp1, index1)"
    "checkpoint_holds cp1 (?L \<union> ?A)" "index_ok index1 (?L \<union> ?A)" "pending cp1 = pending cp"
    using add_files_hold [OF cp(1) assms(3) sane(3) fresh] cp(2)
    unfolding add_snapshot_files_def added_files_def by auto
  obtain cp2 index2 any where rem: "foldl process_removed (cp1, index1, False) (removed_files s) = (cp2, index2, any)"
    by (metis prod_cases3)
  let ?cp = "if any then recalculate_time_range cp2 else cp2"
  have res: "checkpoint_snapshot (cp, index) s = (?cp, index2)"
    using rem by (simp add: checkpoint_snapshot_def add(1) process_removed_files_def removed_files_def)
  note fold = process_removed_fold [OF add(2,3) rem, unfolded add(4)]
  have left: "left_by (ss @ [s]) = {x \<in> ?L \<union> ?A. gid x \<notin> gid ` ?R}" by (simp add: left_by_snoc leave_def)
  have pend: "pending ?cp = pending cp2" "checkpoint_holds ?cp S = checkpoint_holds cp2 S" for S by simp_all
  have old: "pending cp \<subseteq> removals ss" "{r \<in> removals ss. gid r \<notin> gid ` additions ss} \<subseteq> pending cp"
    "gid ` pending cp \<inter> gid ` ?L = {}" using assms(2) unfolding checkpoint_of_def by simp_all
  have new: "pending cp \<subseteq> pending cp2" "pending cp2 \<subseteq> pending cp \<union> ?R"
    "{r \<in> ?R. gid r \<notin> gid ` (?L \<union> ?A)} \<subseteq> pending cp2" using fold by simp_all
  have "checkpoint_of (ss @ [s]) ?cp"
    unfolding checkpoint_of_def pend left removals_snoc additions_snoc
    using fold pending_step [OF old left_by_additions sane(5) new] by (simp only: simp_thms)
  then show ?thesis using res fold left by (simp only: simp_thms) blast
qed

text \<open>A checkpoint built from scratch stands for the snapshots it was given.\<close>

lemma checkpoint_build:
  assumes "history_sane ss"
  shows "\<exists>cp index. foldl checkpoint_snapshot (checkpoint_new node ym, []) ss = (cp, index) \<and> checkpoint_of ss cp \<and>
    index_ok index (left_by ss)"
  using assms
proof (induction ss rule: rev_induct)
  case Nil
  then show ?case
    by (simp add: checkpoint_of_def checkpoint_holds_def checkpoint_new_def left_by_def pending_def removals_def
        index_ok_def tm_items_def)
next
  case (snoc s ss)
  obtain cp index where IH: "foldl checkpoint_snapshot (checkpoint_new node ym, []) ss = (cp, index)"
    "checkpoint_of ss cp" "index_ok index (left_by ss)" using snoc.IH history_sane_snoc(1) [OF snoc.prems] by blast
  then show ?case using checkpoint_snapshot_step [OF snoc.prems IH(2,3)] by simp
qed

lemma apply_pending_fold:
  assumes "checkpoint_holds cp S" and "foldl apply_pending (any, cp) rs = (any', cp')"
  shows "checkpoint_holds cp' {x \<in> S. \<not> (\<exists>r \<in> set rs. place x = place r \<and> gid x = gid r)}"
  using assms
proof (induction rs arbitrary: any cp S)
  case (Cons r rs)
  obtain d t f where r: "r = (d, t, f)" by (cases r)
  obtain found cp1 where rf: "remove_file d t (pf_id f) cp = (found, cp1)" by fastforce
  have h: "holds_files (cp_databases cp) S" "tm_wf (cp_pending_removed_files cp)"
    using Cons.prems(1) by (simp_all add: checkpoint_holds_def)
  have "checkpoint_holds cp1 {x \<in> S. \<not> (place x = (d, t) \<and> gid x = pf_id f)}"
    unfolding checkpoint_holds_def using remove_file_effect [OF h(1) rf] h(2) by (simp only: simp_thms)
  moreover have "foldl apply_pending (any \<or> found, cp1) rs = (any', cp')"
    using Cons.prems(2) rf by (simp add: apply_pending_def [of "(any, cp)"] r)
  ultimately have "checkpoint_holds cp' {x \<in> {x \<in> S. \<not> (place x = (d, t) \<and> gid x = pf_id f)}.
      \<not> (\<exists>r \<in> set rs. place x = place r \<and> gid x = gid r)}" by (rule Cons.IH)
  moreover have "{x \<in> {x \<in> S. \<not> (place x = (d, t) \<and> gid x = pf_id f)}. \<not> (\<exists>r \<in> set rs. place x = place r \<and> gid x = gid r)} =
      {x \<in> S. \<not> (\<exists>q \<in> set (r # rs). place x = place q \<and> gid x = gid q)}" unfolding r by auto
  ultimately show ?case by (simp only:)
qed simp

text \<open>Merging a later month's checkpoint.\<close>

lemma history_sane_place:
  assumes "history_sane ss" and "x \<in> additions ss" and "r \<in> removals ss" and "gid x = gid r"
  shows "place x = place r"
proof -
  obtain s s' where "s \<in> set ss" "s' \<in> set ss" "x \<in> set (added_files s)" "r \<in> set (removed_files s')"
    using assms(2,3) unfolding additions_def removals_def by blast
  then show ?thesis using assms(1,4) unfolding history_sane_def by blast
qed

lemma merge_checkpoint:
  assumes sane: "history_sane (xs @ ys)"
    and cp: "checkpoint_holds cp (left_by xs)" and other: "checkpoint_of ys other"
  shows "checkpoint_holds (merge cp other) (left_by (xs @ ys))"
proof -
  let ?L = "left_by xs" and ?M = "left_by ys"
  have m: "set (tm_items (cp_databases other)) = ?M" "distinct (map gid (tm_items (cp_databases other)))"
    using other unfolding checkpoint_of_def checkpoint_holds_def holds_files_def by blast+
  have "distinct (map gid (concat (map added_files (xs @ ys))))" using sane unfolding history_sane_def by blast
  then have "gid ` additions xs \<inter> gid ` additions ys = {}" by (simp add: additions_def)
  moreover have "gid ` ?L \<subseteq> gid ` additions xs" "gid ` ?M \<subseteq> gid ` additions ys"
    using left_by_additions by (auto intro!: image_mono)
  ultimately have disj: "gid ` set (tm_items (cp_databases other)) \<inter> gid ` ?L = {}"
    "gid ` ?L \<inter> gid ` additions ys = {}" unfolding m(1) by blast+
  have added: "checkpoint_holds (foldl (\<lambda>cp (d, t, f). add_file d t f cp) cp (tm_items (cp_databases other))) (?L \<union> ?M)"
    using merge_adds [OF cp m(2) disj(1)] unfolding m(1) .
  obtain any cp2 where fold: "foldl apply_pending (False, foldl (\<lambda>cp (d, t, f). add_file d t f cp) cp (tm_items (cp_databases other)))
      (tm_items (cp_pending_removed_files other)) = (any, cp2)" by fastforce
  let ?P = "pending other"
  have P: "?P \<subseteq> removals ys" "{r \<in> removals ys. gid r \<notin> gid ` additions ys} \<subseteq> ?P" "gid ` ?P \<inter> gid ` ?M = {}"
    using other unfolding checkpoint_of_def by blast+
  have "checkpoint_holds cp2 {x \<in> ?L \<union> ?M. \<not> (\<exists>r \<in> ?P. place x = place r \<and> gid x = gid r)}"
    using apply_pending_fold [OF added fold] unfolding pending_def .
  moreover have "{x \<in> ?L \<union> ?M. \<not> (\<exists>r \<in> ?P. place x = place r \<and> gid x = gid r)} = left_by (xs @ ys)"
  proof -
    have M: "\<not> (\<exists>r \<in> ?P. place x = place r \<and> gid x = gid r)" if "x \<in> ?M" for x
      using P(3) that by (metis (no_types, lifting) IntI empty_iff imageI)
    have L: "(\<exists>r \<in> ?P. place x = place r \<and> gid x = gid r) \<longleftrightarrow> gid x \<in> gid ` removals ys" if x: "x \<in> ?L" for x
    proof
      assume "gid x \<in> gid ` removals ys"
      then obtain r where r: "r \<in> removals ys" "gid x = gid r" by blast
      have "gid r \<notin> gid ` additions ys" using disj(2) x r(2) by (metis (no_types, lifting) IntI empty_iff imageI)
      then have "r \<in> ?P" using P(2) r(1) by blast
      moreover have "x \<in> additions (xs @ ys)" using x left_by_additions [of xs] by (auto simp: additions_def)
      then have "place x = place r"
        by (rule history_sane_place [OF sane]) (use r in \<open>auto simp: removals_def\<close>)
      ultimately show "\<exists>r \<in> ?P. place x = place r \<and> gid x = gid r" using r(2) by blast
    qed (use P(1) in blast)
    have "(\<forall>s \<in> set ys. gid x \<notin> gid ` set (removed_files s)) \<longleftrightarrow> gid x \<notin> gid ` removals ys" for x
      by (auto simp: removals_def)
    then show ?thesis unfolding left_by_append using L M by blast
  qed
  ultimately have "checkpoint_holds cp2 (left_by (xs @ ys))" by (simp only:)
  then show ?thesis
    by (simp add: merge_def fold Let_def checkpoint_holds_def recalculate_time_range_def)
qed

lemma merge_checkpoints:
  assumes "history_sane (xs @ concat months)" and "checkpoint_holds cp (left_by xs)"
    and "list_all2 checkpoint_of months cps"
  shows "checkpoint_holds (foldl merge cp cps) (left_by (xs @ concat months))"
  using assms
proof (induction months arbitrary: xs cp cps)
  case (Cons m months)
  obtain c cs where cps: "cps = c # cs" "checkpoint_of m c" "list_all2 checkpoint_of months cs"
    using Cons.prems(3) by (auto simp: list_all2_Cons1)
  have "history_sane (xs @ m)" using history_sane_append [of "xs @ m" "concat months"] Cons.prems(1) by simp
  then have "checkpoint_holds (merge cp c) (left_by (xs @ m))" using merge_checkpoint Cons.prems(2) cps(2) by blast
  then show ?case using Cons.IH [of "xs @ m" "merge cp c" cs] Cons.prems(1) cps by simp
qed simp

section \<open>Starting from a checkpoint\<close>

lemma inner_from_checkpoint_files:
  assumes "tm_wf (cp_databases cp)"
  shows "tm_get (pi_files (inner_from_checkpoint cp)) d t = tm_get (cp_databases cp) d t"
proof -
  let ?tables = "\<lambda>files (d, ts). foldl (\<lambda>files (t, fs). tm_upd d t (\<lambda>old. old @ fs) files) files ts"
  have inner: "tm_get (foldl (\<lambda>files (t, fs). tm_upd d' t (\<lambda>old. old @ fs) files) files ts) d t =
      (if d = d' then tm_get files d t @ hm_get [] ts t else tm_get files d t)" if "keys_distinct ts"
    for d' ts files and d :: nat and t :: nat
  proof -
    let ?h = "\<lambda>t fs new. fs @ (if d = d' then new else [])"
    have "tm_get (foldl (\<lambda>files (t, fs). tm_upd d' t (\<lambda>old. old @ fs) files) files ts) d t =
        (case map_of ts t of None \<Rightarrow> tm_get files d t | Some v \<Rightarrow> ?h t (tm_get files d t) v)"
      by (rule foldl_keyed [where get = "\<lambda>files. tm_get files d" and h = ?h, OF that]) (simp add: tm_get_upd)
    then show ?thesis by (simp add: hm_get_def split: option.splits)
  qed
  let ?h = "\<lambda>_ F ts t. F t @ hm_get [] ts t"
  have "tm_get (foldl ?tables [] (cp_databases cp)) d =
      (case map_of (cp_databases cp) d of None \<Rightarrow> tm_get [] d | Some ts \<Rightarrow> ?h d (tm_get [] d) ts)"
  proof (rule foldl_keyed [where get = tm_get and h = ?h])
    fix acc :: "parquet_file table_map" and d' ts k
    assume "(d', ts) \<in> set (cp_databases cp)"
    then have "keys_distinct ts" using assms by (auto simp: tm_wf_def)
    from inner [OF this, of d' acc k]
    show "tm_get (?tables acc (d', ts)) k = (if k = d' then ?h d' (tm_get acc d') ts else tm_get acc k)"
      by (auto simp: fun_eq_iff)
  qed (use assms in \<open>simp add: tm_wf_def\<close>)
  then show ?thesis by (simp add: inner_from_checkpoint_def tm_get_def hm_get_def split: option.splits)
qed

text \<open>A table map lists what a history leaves.\<close>

definition lists_history :: "parquet_file table_map \<Rightarrow> persisted_snapshot list \<Rightarrow> bool" where
  "lists_history m ss \<longleftrightarrow> (\<forall>d t. distinct (map pf_id (tm_get m d t)) \<and> set (tm_get m d t) = {f. (d, t, f) \<in> left_by ss})"

lemma checkpoint_lists: "checkpoint_holds cp (left_by ss) \<Longrightarrow> lists_history (cp_databases cp) ss"
proof -
  assume "checkpoint_holds cp (left_by ss)"
  then have h: "holds_files (cp_databases cp) (left_by ss)" by (simp add: checkpoint_holds_def)
  have "distinct (map pf_id (tm_get (cp_databases cp) d t))" for d t
  proof -
    have wf: "tm_wf (cp_databases cp)" and dist: "distinct (map gid (tm_items (cp_databases cp)))"
      using h by (auto simp: holds_files_def)
    have "map pf_id (tm_get (cp_databases cp) d t) =
        map gid (filter (\<lambda>(d', t', x). d' = d \<and> t' = t) (tm_items (cp_databases cp)))"
      unfolding tm_items_at [OF wf] by simp
    then show ?thesis using distinct_map_filter_keys [OF dist] by metis
  qed
  then show ?thesis using holds_files_mem [OF h] by (auto simp: lists_history_def)
qed

text \<open>The slice of a snapshot that concerns one table.\<close>

lemma added_slice:
  assumes "snapshot_wf s"
  shows "f \<in> set (added_to s d t) \<longleftrightarrow> (d, t, f) \<in> set (added_files s)"
    and "distinct (map gid (added_files s)) \<Longrightarrow> distinct (map pf_id (added_to s d t))"
proof -
  have wf: "tm_wf (ps_databases s)" using assms by (simp add: snapshot_wf_def)
  show "f \<in> set (added_to s d t) \<longleftrightarrow> (d, t, f) \<in> set (added_files s)"
    using tm_items_mem [OF wf] by (simp add: added_to_def added_files_def)
  assume d: "distinct (map gid (added_files s))"
  have "map pf_id (added_to s d t) = map gid (filter (\<lambda>(d', t', x). d' = d \<and> t' = t) (added_files s))"
    unfolding added_files_def tm_items_at [OF wf] by (simp add: added_to_def)
  then show "distinct (map pf_id (added_to s d t))" using distinct_map_filter_keys [OF d] by metis
qed

lemma removed_slice:
  assumes "history_sane ss" and "s \<in> set ss" and "(d, t, f) \<in> additions ss"
  shows "pf_id f \<in> removed_ids s d t \<longleftrightarrow> pf_id f \<in> gid ` set (removed_files s)"
proof -
  have "tm_wf (ps_removed_files s)" using assms(1,2) by (auto simp: history_sane_def snapshot_wf_def)
  from tm_items_mem [OF this]
  have rem: "g \<in> set (tm_get (ps_removed_files s) d t) \<longleftrightarrow> (d, t, g) \<in> set (removed_files s)" for g
    by (simp add: removed_files_def)
  show ?thesis
  proof
    assume "pf_id f \<in> gid ` set (removed_files s)"
    then obtain r where r: "r \<in> set (removed_files s)" "pf_id f = gid r" by blast
    have "r \<in> removals ss" using r(1) assms(2) by (auto simp: removals_def)
    then have "place (d, t, f) = place r" using history_sane_place [OF assms(1,3)] r(2) by simp
    then have "snd (snd r) \<in> set (tm_get (ps_removed_files s) d t)" using r(1) rem by (cases r) simp
    then show "pf_id f \<in> removed_ids s d t" using r(2) unfolding removed_ids_def by simp
  next
    assume "pf_id f \<in> removed_ids s d t"
    then obtain g where g: "(d, t, g) \<in> set (removed_files s)" "pf_id f = pf_id g" using rem by (auto simp: removed_ids_def)
    from imageI [OF g(1), of gid] show "pf_id f \<in> gid ` set (removed_files s)" using g(2) by simp
  qed
qed

lemma snapshot_lists:
  assumes sane: "history_sane (ss @ [s])" and m: "lists_history m ss"
  shows "lists_history (snd (update_persisted_files_with_snapshot il s m)) (ss @ [s])"
  unfolding lists_history_def
proof (intro allI)
  fix d t
  let ?fs = "tm_get m d t" and ?new = "added_to s d t" and ?rem = "tm_get (ps_removed_files s) d t"
  note sn = history_sane_snoc [OF sane]
  note new = added_slice(1) [OF sn(2), of _ d t]
  have old: "distinct (map pf_id ?fs)" "\<And>f. f \<in> set ?fs \<longleftrightarrow> (d, t, f) \<in> left_by ss" using m by (auto simp: lists_history_def)
  have "pf_id f \<noteq> pf_id g" if "f \<in> set ?fs" "g \<in> set ?new" for f g
  proof -
    have "(d, t, f) \<in> additions ss" using that(1) old(2) left_by_additions by blast
    from imageI [OF this, of gid] have "pf_id f \<in> gid ` additions ss" by simp
    moreover from imageI [OF that(2) [unfolded new], of gid] have "pf_id g \<in> gid ` set (added_files s)" by simp
    ultimately show ?thesis using sn(4) unfolding disjoint_iff by metis
  qed
  then have sep: "pf_id ` set ?fs \<inter> pf_id ` set ?new = {}" "set ?fs \<inter> set ?new = {}" by auto
  have dist: "distinct (map pf_id (?fs @ ?new))" using old(1) added_slice(2) [OF sn(2,3)] sep(1) by simp
  have get: "tm_get (snd (update_persisted_files_with_snapshot il s m)) d t = remove_ids ?rem (?fs @ ?new)"
    using snapshot_effect_any [OF sn(2), of il m d t] sep(2) by simp
  have "set (remove_ids ?rem (?fs @ ?new)) = {f \<in> set (?fs @ ?new). pf_id f \<notin> removed_ids s d t}"
    using arg_cong [OF remove_ids_mset [OF dist, of ?rem], of set_mset] by (auto simp: removed_ids_def)
  also have "\<dots> = {f \<in> set (?fs @ ?new). pf_id f \<notin> gid ` set (removed_files s)}"
  proof -
    have "f \<in> set (?fs @ ?new) \<Longrightarrow> (d, t, f) \<in> additions (ss @ [s])" for f
      using old(2) new left_by_additions [of ss] by auto
    then show ?thesis using removed_slice [OF sane, of s d t] by auto
  qed
  also have "\<dots> = {f. (d, t, f) \<in> left_by (ss @ [s])}" using old(2) new by (auto simp: left_by_snoc leave_def)
  finally show "distinct (map pf_id (tm_get (snd (update_persisted_files_with_snapshot il s m)) d t)) \<and>
      set (tm_get (snd (update_persisted_files_with_snapshot il s m)) d t) = {f. (d, t, f) \<in> left_by (ss @ [s])}"
    unfolding get using remove_ids_distinct [OF dist] by blast
qed

lemma snapshots_list:
  assumes "history_sane (xs @ ys)" and "lists_history m xs"
  shows "lists_history (foldl (\<lambda>m s. snd (update_persisted_files_with_snapshot il s m)) m ys) (xs @ ys)"
  using assms(1)
proof (induction ys rule: rev_induct)
  case (snoc y ys)
  then have "history_sane ((xs @ ys) @ [y])" by simp
  then show ?case using snoc.IH history_sane_snoc(1) snapshot_lists [of "xs @ ys" y] by auto
qed (use assms(2) in simp)

lemma lists_history_Nil [simp]: "lists_history [] []"
  by (simp add: lists_history_def left_by_def)

section \<open>Property\<close>

text \<open>The checkpoint that the startup builds for one month of snapshots.\<close>

definition build_checkpoint :: "node_name \<Rightarrow> year_month \<Rightarrow> persisted_snapshot list \<Rightarrow> snapshot_checkpoint" where
  "build_checkpoint node ym ss = fst (foldl checkpoint_snapshot (checkpoint_new node ym, []) ss)"

lemma build_checkpoint_of: "history_sane ss \<Longrightarrow> checkpoint_of ss (build_checkpoint node ym ss)"
  using checkpoint_build [of ss node ym] by (auto simp: build_checkpoint_def)

lemma month_add_files:
  "cp_year_month (fst (foldl (\<lambda>(cp, index) (d, t, f). (add_file d t f cp, hm_insert (pf_id f) (d, t) index)) a xs)) =
     cp_year_month (fst a)"
  by (induction xs arbitrary: a) (auto simp: add_file_def split: prod.splits)

lemma month_remove: "cp_year_month (snd (remove_file d t i cp)) = cp_year_month cp"
  by (auto simp: remove_file_def split: option.splits)

lemma month_process: "cp_year_month (fst (foldl process_removed a rs)) = cp_year_month (fst a)"
  by (induction rs arbitrary: a)
    (auto simp: process_removed_def month_remove add_pending_removed_def split: prod.splits option.splits)

lemma month_snapshot: "cp_year_month (fst (checkpoint_snapshot a s)) = cp_year_month (fst a)"
proof -
  obtain cp index where add: "add_snapshot_files (ps_databases s) (update_from_snapshot s (fst a), snd a) = (cp, index)"
    by fastforce
  have "cp_year_month cp = cp_year_month (fst a)"
    using month_add_files [of "(update_from_snapshot s (fst a), snd a)" "tm_items (ps_databases s)"] add
    by (simp add: add_snapshot_files_def update_from_snapshot_def)
  moreover obtain cp' index' any where "foldl process_removed (cp, index, False) (tm_items (ps_removed_files s)) =
      (cp', index', any)" by (metis prod_cases3)
  ultimately show ?thesis
    using month_process [of "(cp, index, False)" "tm_items (ps_removed_files s)"]
    by (simp add: checkpoint_snapshot_def add process_removed_files_def recalculate_time_range_def)
qed

lemma build_checkpoint_month [simp]: "cp_year_month (build_checkpoint node ym ss) = ym"
proof -
  have "cp_year_month (fst (foldl checkpoint_snapshot a ss)) = cp_year_month (fst a)" for a
    by (induction ss arbitrary: a) (simp_all add: month_snapshot)
  then show ?thesis by (simp add: build_checkpoint_def checkpoint_new_def)
qed

lemma pi_files_add_snapshots:
  "pi_files (foldl (\<lambda>p s. add_persisted_snapshot s p) p ss) =
     foldl (\<lambda>m s. snd (update_persisted_files_with_snapshot False s m)) (pi_files p) ss"
  by (induction ss arbitrary: p) (auto simp: add_persisted_snapshot_def split: prod.splits)

lemma checkpoints_list:
  assumes sane: "history_sane (concat months)" and len: "length yms = length months"
    and keys: "sorted_wrt (<) (map (\<lambda>ym. (ym_year ym, ym_month ym)) yms)"
    and cps: "mset cps = mset (map2 (build_checkpoint node) yms months)"
  shows "lists_history (pi_files (new_from_checkpoints_and_snapshots cps [])) (concat months)"
proof -
  let ?cps = "map2 (build_checkpoint node) yms months"
  have keys': "map month_key ?cps = map (\<lambda>ym. (ym_year ym, ym_month ym)) yms"
    using len by (induction yms months rule: list_induct2) simp_all
  have "sorted (map month_key ?cps)" "distinct (map month_key ?cps)"
    using keys unfolding keys' by (simp_all add: strict_sorted_iff)
  then have "inj_on month_key (set ?cps)" "sort_key month_key ?cps = ?cps"
    by (simp_all only: distinct_map sort_key_id_if_sorted)
  then have sorted: "sort_key month_key cps = ?cps" using sort_key_mset_unique [of ?cps cps month_key] cps by simp
  have each: "list_all2 checkpoint_of months ?cps"
  proof -
    have "\<forall>m \<in> set months. history_sane m"
      using sane by (induction months) (auto dest: history_sane_append)
    with len show ?thesis by (induction yms months rule: list_induct2) (auto simp: build_checkpoint_of)
  qed
  show ?thesis
  proof (cases months)
    case Nil
    then show ?thesis using cps
      by (simp add: new_from_checkpoints_and_snapshots_def persisted_files_default_def)
  next
    case (Cons m ms)
    then obtain c cs where c: "?cps = c # cs" "checkpoint_of m c" "list_all2 checkpoint_of ms cs"
      using each by (auto simp: list_all2_Cons1)
    have "checkpoint_holds (foldl merge c cs) (left_by (m @ concat ms))"
      using merge_checkpoints [of m ms c cs] sane Cons c by (simp add: checkpoint_of_def)
    then have h: "checkpoint_holds (foldl merge c cs) (left_by (concat months))" using Cons by simp
    have "tm_wf (cp_databases (foldl merge c cs))" using h by (simp add: checkpoint_holds_def holds_files_def)
    then show ?thesis using checkpoint_lists [OF h] sorted c(1) inner_from_checkpoint_files
      by (simp add: new_from_checkpoints_and_snapshots_def lists_history_def)
  qed
qed

lemma sequence_order_unique:
  assumes "sorted_wrt (<) (map ps_snapshot_sequence_number ys)" and "mset xs = mset ys"
  shows "sort_key ps_snapshot_sequence_number xs = ys"
proof -
  have "sorted (map ps_snapshot_sequence_number ys)" "inj_on ps_snapshot_sequence_number (set ys)"
    using assms(1) by (simp_all add: strict_sorted_iff distinct_map)
  then show ?thesis
    using sort_key_mset_unique [of ys xs ps_snapshot_sequence_number] assms(2) by (simp add: sort_key_id_if_sorted)
qed

lemma snapshots_startup_list:
  assumes "history_sane ss" and "sorted_wrt (<) (map ps_snapshot_sequence_number ss)" and "mset snaps = mset ss"
  shows "lists_history (pi_files (new_from_persisted_snapshots snaps)) ss"
proof -
  have "ordered_oldest_first snaps = ss"
    unfolding ordered_oldest_first_def by (rule sequence_order_unique [OF assms(2,3)])
  then have "lists_history (startup_files snaps) ss"
    unfolding startup_fold using snapshots_list [of "[]" ss "[]" True] assms(1) by simp
  then show ?thesis by (simp add: startup_files_def)
qed

lemma checkpoints_startup_list:
  assumes "history_sane (concat months @ rest)"
    and "sorted_wrt (<) (map ps_snapshot_sequence_number (concat months @ rest))"
    and "length yms = length months" and "sorted_wrt (<) (map (\<lambda>ym. (ym_year ym, ym_month ym)) yms)"
    and "mset cps = mset (map2 (build_checkpoint node) yms months)" and "mset additional = mset rest"
  shows "lists_history (pi_files (new_from_checkpoints_and_snapshots cps additional)) (concat months @ rest)"
proof -
  have rest: "sort_key ps_snapshot_sequence_number additional = rest"
    by (rule sequence_order_unique [OF _ assms(6)]) (use assms(2) in \<open>simp add: sorted_wrt_append\<close>)
  have "lists_history (pi_files (new_from_checkpoints_and_snapshots cps [])) (concat months)"
    using checkpoints_list assms(1,3-5) history_sane_append by blast
  then show ?thesis using snapshots_list [OF assms(1)] rest
    by (simp add: new_from_checkpoints_and_snapshots_def Let_def pi_files_add_snapshots)
qed

text \<open>Claim C7.  Starting from monthly checkpoints and the snapshots after them lists the same files as
  loading every snapshot, in whatever order either is found, for a history in which file
  identifiers are not reused and removals name a file where it is.\<close>

theorem checkpoints_stand_for_snapshots:
  assumes "history_sane (concat months @ rest)"
    and "sorted_wrt (<) (map ps_snapshot_sequence_number (concat months @ rest))"
    and "length yms = length months" and "sorted_wrt (<) (map (\<lambda>ym. (ym_year ym, ym_month ym)) yms)"
    and "mset cps = mset (map2 (build_checkpoint node) yms months)"
    and "mset additional = mset rest" and "mset snaps = mset (concat months @ rest)"
  shows "set (persisted_get_files (new_from_checkpoints_and_snapshots cps additional) d t) =
    set (persisted_get_files (new_from_persisted_snapshots snaps) d t)"
  using snapshots_startup_list [OF assms(1,2,7)] checkpoints_startup_list [OF assms(1-6)]
  by (simp add: lists_history_def)

theorem checkpoints_stand_for_snapshots_witness:
  "set (persisted_get_files (new_from_checkpoints_and_snapshots
     [build_checkpoint ''n1'' \<lparr>ym_year = 2026, ym_month = 2\<rparr> [pf_snapshot 2 [pf_file 2 ''b'' 4] [pf_file 1 ''a'' 3]],
      build_checkpoint ''n1'' \<lparr>ym_year = 2026, ym_month = 1\<rparr> [pf_snapshot 1 [pf_file 1 ''a'' 3] []]]
     [pf_snapshot 3 [pf_file 3 ''c'' 5] []]) 1 2) =
   set (persisted_get_files (new_from_persisted_snapshots
     [pf_snapshot 3 [pf_file 3 ''c'' 5] [], pf_snapshot 2 [pf_file 2 ''b'' 4] [pf_file 1 ''a'' 3],
      pf_snapshot 1 [pf_file 1 ''a'' 3] []]) 1 2)"
proof (rule checkpoints_stand_for_snapshots [where node = "''n1''" and rest = "[pf_snapshot 3 [pf_file 3 ''c'' 5] []]"
      and yms = "[\<lparr>ym_year = 2026, ym_month = 1\<rparr>, \<lparr>ym_year = 2026, ym_month = 2\<rparr>]"
      and months = "[[pf_snapshot 1 [pf_file 1 ''a'' 3] []], [pf_snapshot 2 [pf_file 2 ''b'' 4] [pf_file 1 ''a'' 3]]]"])
  show "history_sane (concat [[pf_snapshot 1 [pf_file 1 ''a'' 3] []], [pf_snapshot 2 [pf_file 2 ''b'' 4] [pf_file 1 ''a'' 3]]] @
      [pf_snapshot 3 [pf_file 3 ''c'' 5] []])"
    by (simp add: history_sane_def snapshot_wf_def tm_wf_def pf_snapshot_def PersistedSnapshot_new_def added_files_def
        removed_files_def tm_items_def)
qed (simp_all add: pf_snapshot_def PersistedSnapshot_new_def)

end
