(* ===== verification/Persister.thy ===== *)
theory Persister
  imports Checkpoint Object_Store
begin

text \<open>
  The interface to the object store for snapshot manifests and checkpoints
  (\<open>influxdb3_write/src/persister.rs\<close>): paging through the manifests, persisting one, keeping the
  cached checkpoint of the current month beside it, and listing, loading and cleaning up checkpoints.

  The JSON codec, the calendar and the modification times of objects are arguments.  Tasks the code
  spawns are returned as values and run by \<open>run_task\<close>; the concurrent fetches of the manifests are
  sequential, since they preserve their order.  \<open>put_adaptive\<close> and \<open>get_adaptive\<close> choose between
  one request and several for the same effect and are the store's \<open>put\<close> and \<open>get\<close>.
\<close>

section \<open>State\<close>

record 'b snapshot_serde =
  to_vec_manifest :: "persisted_snapshot \<Rightarrow> 'b option"
  from_slice_manifest :: "'b \<Rightarrow> persisted_snapshot option"
  to_vec_checkpoint :: "snapshot_checkpoint \<Rightarrow> 'b option"
  from_slice_checkpoint :: "'b \<Rightarrow> snapshot_checkpoint option"

datatype persister_error = DataFusion | SerdeJson | PersisterStore store_error | ParquetError | NoRows

record cached_checkpoint =
  cc_checkpoint :: snapshot_checkpoint
  cc_file_index :: checkpoint_index

record ('s, 'b) persister =
  pe_store :: "('s, 'b) object_store"
  pe_codec :: "'b snapshot_serde"
  pe_prefix :: node_name
  pe_checkpoint_interval :: "nat option"
  pe_month_of :: "int \<Rightarrow> year_month"
  pe_last_modified_ms :: "obj_path \<Rightarrow> int"

record persister_state =
  pe_last_checkpoint_time :: "nat option"
  pe_cached_checkpoint :: "cached_checkpoint option"

definition persister_state_new :: persister_state where
  "persister_state_new = \<lparr>pe_last_checkpoint_time = None, pe_cached_checkpoint = None\<rparr>"

datatype persister_task = PersistPreviousMonth snapshot_checkpoint | CleanupMonth year_month

definition CHECKPOINTS_TO_RETAIN_PER_MONTH :: nat where
  "CHECKPOINTS_TO_RETAIN_PER_MONTH = 2"

section \<open>Loading manifests\<close>

text \<open>The pages of the listing: each lists what lies after the last path taken so far, and takes at
  most a thousand paths of it.\<close>

definition list_manifests :: "('s, 'b) persister \<Rightarrow> obj_path option \<Rightarrow> ('s, obj_path list) store_op" where
  "list_manifests pe offset =
     (case offset of
        None \<Rightarrow> os_list (pe_store pe) (SnapshotInfoFilePath_dir (pe_prefix pe))
      | Some o' \<Rightarrow> os_list_with_offset (pe_store pe) (SnapshotInfoFilePath_dir (pe_prefix pe)) o')"

function manifest_paths ::
  "('s, 'b) persister \<Rightarrow> nat \<Rightarrow> obj_path option \<Rightarrow> 's \<Rightarrow> (persister_error + obj_path list) \<times> 's" where
  "manifest_paths pe most_recent_n offset s =
     (if most_recent_n = 0 then (Inr [], s)
      else let page_size = (if most_recent_n > 1000 then 1000 else most_recent_n)
           in case list_manifests pe offset s of
                (Inl e, s1) \<Rightarrow> (Inl (PersisterStore e), s1)
              | (Inr listed, s1) \<Rightarrow>
                  (let page = take page_size (sort listed)
                   in if page = [] then (Inr [], s1)
                      else case manifest_paths pe (most_recent_n - page_size) (Some (last page)) s1 of
                             (Inl e, s2) \<Rightarrow> (Inl e, s2)
                           | (Inr later, s2) \<Rightarrow> (Inr (page @ later), s2)))"
  by pat_completeness auto
termination
  by (relation "measure (\<lambda>(pe, n, offset, s). n)") (auto simp: Let_def split: if_splits)

declare manifest_paths.simps [simp del]

definition get_snapshot ::
  "('s, 'b) persister \<Rightarrow> obj_path \<Rightarrow> 's \<Rightarrow> (persister_error + persisted_snapshot) \<times> 's" where
  "get_snapshot pe location s =
     (case os_get (pe_store pe) location s of
        (Inl e, s1) \<Rightarrow> (Inl (PersisterStore e), s1)
      | (Inr x, s1) \<Rightarrow>
          (case from_slice_manifest (pe_codec pe) (so_body x) of
             None \<Rightarrow> (Inl SerdeJson, s1)
           | Some ps \<Rightarrow> (Inr (ps\<lparr>ps_persisted_at := Some (pe_last_modified_ms pe location)\<rparr>), s1)))"

fun get_snapshots ::
  "('s, 'b) persister \<Rightarrow> obj_path list \<Rightarrow> 's \<Rightarrow> (persister_error + persisted_snapshot list) \<times> 's" where
  "get_snapshots pe [] s = (Inr [], s)"
| "get_snapshots pe (p # ps) s =
     (case get_snapshot pe p s of
        (Inl e, s1) \<Rightarrow> (Inl e, s1)
      | (Inr x, s1) \<Rightarrow>
          (case get_snapshots pe ps s1 of
             (Inl e, s2) \<Rightarrow> (Inl e, s2)
           | (Inr xs, s2) \<Rightarrow> (Inr (x # xs), s2)))"

definition load_snapshots ::
  "('s, 'b) persister \<Rightarrow> nat \<Rightarrow> 's \<Rightarrow> (persister_error + persisted_snapshot list) \<times> 's" where
  "load_snapshots pe most_recent_n s =
     (case manifest_paths pe most_recent_n None s of
        (Inl e, s1) \<Rightarrow> (Inl e, s1)
      | (Inr paths, s1) \<Rightarrow> get_snapshots pe paths s1)"

definition get_latest_snapshot_sequence ::
  "('s, 'b) persister \<Rightarrow> 's \<Rightarrow> (persister_error + nat option) \<times> 's" where
  "get_latest_snapshot_sequence pe s =
     (case load_snapshots pe 1 s of
        (Inl e, s1) \<Rightarrow> (Inl e, s1)
      | (Inr [], s1) \<Rightarrow> (Inr None, s1)
      | (Inr (x # _), s1) \<Rightarrow> (Inr (Some (ps_snapshot_sequence_number x)), s1))"

definition load_snapshots_after ::
  "('s, 'b) persister \<Rightarrow> nat \<Rightarrow> nat \<Rightarrow> 's \<Rightarrow> (persister_error + persisted_snapshot list) \<times> 's" where
  "load_snapshots_after pe after_sequence_number most_recent_n s =
     (case load_snapshots pe most_recent_n s of
        (Inl e, s1) \<Rightarrow> (Inl e, s1)
      | (Inr xs, s1) \<Rightarrow> (Inr (filter (\<lambda>x. ps_snapshot_sequence_number x > after_sequence_number) xs), s1))"

section \<open>Persisting manifests and checkpoints\<close>

definition persist_checkpoint ::
  "('s, 'b) persister \<Rightarrow> snapshot_checkpoint \<Rightarrow> 's \<Rightarrow> (persister_error + unit) \<times> persister_task list \<times> 's" where
  "persist_checkpoint pe cp s =
     (case to_vec_checkpoint (pe_codec pe) cp of
        None \<Rightarrow> (Inl SerdeJson, [], s)
      | Some json \<Rightarrow>
          (case os_put (pe_store pe) (SnapshotCheckpointPath_new (pe_prefix pe) (cp_year_month cp)
                  (cp_last_snapshot_sequence_number cp)) json s of
             (Inl e, s1) \<Rightarrow> (Inl (PersisterStore e), [], s1)
           | (Inr u, s1) \<Rightarrow> (Inr (), [CleanupMonth (cp_year_month cp)], s1)))"

definition should_persist_checkpoint :: "('s, 'b) persister \<Rightarrow> nat \<Rightarrow> persister_state \<Rightarrow> bool" where
  "should_persist_checkpoint pe instant ps =
     (case pe_checkpoint_interval pe of
        None \<Rightarrow> False
      | Some interval \<Rightarrow>
          (case pe_last_checkpoint_time ps of
             None \<Rightarrow> True
           | Some last_time \<Rightarrow> instant - last_time \<ge> interval))"

definition mark_checkpoint_created :: "nat \<Rightarrow> persister_state \<Rightarrow> persister_state" where
  "mark_checkpoint_created instant ps = ps\<lparr>pe_last_checkpoint_time := Some instant\<rparr>"

definition warm_checkpoint_cache ::
  "('s, 'b) persister \<Rightarrow> snapshot_checkpoint \<Rightarrow> persister_state \<Rightarrow> persister_state" where
  "warm_checkpoint_cache pe cp ps =
     (if pe_checkpoint_interval pe = None \<or> pe_cached_checkpoint ps \<noteq> None then ps
      else ps\<lparr>pe_cached_checkpoint :=
        Some \<lparr>cc_checkpoint = cp, cc_file_index = build_file_index (cp_databases cp)\<rparr>\<rparr>)"

definition update_cached_checkpoint ::
  "('s, 'b) persister \<Rightarrow> int \<Rightarrow> persisted_snapshot \<Rightarrow> persister_state \<Rightarrow> persister_task list \<times> persister_state" where
  "update_cached_checkpoint pe now_ms snapshot ps =
     (let current_month = pe_month_of pe now_ms;
          fresh = (checkpoint_new (pe_prefix pe) current_month, []);
          (tasks, cached) =
            (case pe_cached_checkpoint ps of
               None \<Rightarrow> ([], fresh)
             | Some c \<Rightarrow>
                 if cp_year_month (cc_checkpoint c) = current_month
                 then ([], (cc_checkpoint c, cc_file_index c))
                 else ([PersistPreviousMonth (cc_checkpoint c)], fresh));
          (cp, index) = checkpoint_snapshot cached snapshot
      in (tasks, ps\<lparr>pe_cached_checkpoint := Some \<lparr>cc_checkpoint = cp, cc_file_index = index\<rparr>\<rparr>))"

definition persist_snapshot ::
  "('s, 'b) persister \<Rightarrow> int \<Rightarrow> nat \<Rightarrow> persisted_snapshot \<Rightarrow> persister_state \<Rightarrow> 's \<Rightarrow>
   (persister_error + unit) \<times> persister_task list \<times> persister_state \<times> 's" where
  "persist_snapshot pe now_ms instant snapshot ps s =
     (case to_vec_manifest (pe_codec pe) snapshot of
        None \<Rightarrow> (Inl SerdeJson, [], ps, s)
      | Some json \<Rightarrow>
          (case os_put (pe_store pe)
                  (SnapshotInfoFilePath_new (pe_prefix pe) (ps_snapshot_sequence_number snapshot)) json s of
             (Inl e, s1) \<Rightarrow> (Inl (PersisterStore e), [], ps, s1)
           | (Inr u, s1) \<Rightarrow>
               if pe_checkpoint_interval pe = None then (Inr (), [], ps, s1)
               else (case update_cached_checkpoint pe now_ms snapshot ps of
                       (tasks, ps1) \<Rightarrow>
                         if \<not> should_persist_checkpoint pe instant ps1 then (Inr (), tasks, ps1, s1)
                         else case pe_cached_checkpoint ps1 of
                                None \<Rightarrow> (Inr (), tasks, ps1, s1)
                              | Some c \<Rightarrow>
                                  (case persist_checkpoint pe (cc_checkpoint c) s1 of
                                     (Inr u', tasks', s2) \<Rightarrow> (Inr (), tasks @ tasks', mark_checkpoint_created instant ps1, s2)
                                   | (Inl e, tasks', s2) \<Rightarrow> (Inr (), tasks @ tasks', ps1, s2)))))"

section \<open>Background tasks\<close>

definition persist_previous_month_checkpoint_async :: "('s, 'b) persister \<Rightarrow> snapshot_checkpoint \<Rightarrow> 's \<Rightarrow> 's" where
  "persist_previous_month_checkpoint_async pe cp s =
     (case to_vec_checkpoint (pe_codec pe) cp of
        None \<Rightarrow> s
      | Some json \<Rightarrow>
          snd (os_put (pe_store pe) (SnapshotCheckpointPath_new (pe_prefix pe) (cp_year_month cp)
                 (cp_last_snapshot_sequence_number cp)) json s))"

fun delete_each :: "('s, 'b) object_store \<Rightarrow> obj_path list \<Rightarrow> 's \<Rightarrow> 's" where
  "delete_each st [] s = s"
| "delete_each st (p # ps) s = delete_each st ps (snd (os_delete st p s))"

definition cleanup_old_checkpoints_for_month :: "('s, 'b) persister \<Rightarrow> year_month \<Rightarrow> 's \<Rightarrow> 's" where
  "cleanup_old_checkpoints_for_month pe ym s =
     (case os_list (pe_store pe) (SnapshotCheckpointPath_month_dir (pe_prefix pe) ym) s of
        (Inl e, s1) \<Rightarrow> s1
      | (Inr listed, s1) \<Rightarrow>
          if length listed \<le> CHECKPOINTS_TO_RETAIN_PER_MONTH then s1
          else delete_each (pe_store pe) (drop CHECKPOINTS_TO_RETAIN_PER_MONTH (sort listed)) s1)"

primrec run_task :: "('s, 'b) persister \<Rightarrow> persister_task \<Rightarrow> 's \<Rightarrow> 's" where
  "run_task pe (PersistPreviousMonth cp) s = persist_previous_month_checkpoint_async pe cp s"
| "run_task pe (CleanupMonth ym) s = cleanup_old_checkpoints_for_month pe ym s"

section \<open>Loading checkpoints\<close>

abbreviation ym_key :: "year_month \<Rightarrow> nat \<times> nat" where
  "ym_key ym \<equiv> (ym_year ym, ym_month ym)"

text \<open>The regular expression of a checkpoint path, on the path's last segments.\<close>

definition digits_only :: "nat \<Rightarrow> string \<Rightarrow> bool" where
  "digits_only n s \<longleftrightarrow> length s = n \<and> list_all is_digit s"

definition checkpoint_path_year_month :: "obj_path \<Rightarrow> year_month option" where
  "checkpoint_path_year_month path =
     (case rev (split_slash path) of
        name # month # dir # _ # _ \<Rightarrow>
          (case strip_suffix ''.checkpoint.json'' name of
             None \<Rightarrow> None
           | Some stem \<Rightarrow>
               if digits_only 20 stem \<and> dir = ''snapshot-checkpoints'' \<and> length month = 7 \<and>
                  digits_only 4 (take 4 month) \<and> month ! 4 = CHR ''-'' \<and> digits_only 2 (drop 5 month)
               then (case parse_year_month month of Inl e \<Rightarrow> None | Inr ym \<Rightarrow> Some ym)
               else None)
      | _ \<Rightarrow> None)"

definition latest_per_month :: "obj_path list \<Rightarrow> (year_month \<times> obj_path) list" where
  "latest_per_month listed =
     sort_key (\<lambda>(ym, p). ym_key ym)
       (map (\<lambda>(ym, ps). (ym, hd (sort ps)))
         (foldl (\<lambda>by_month p. case checkpoint_path_year_month p of
                    None \<Rightarrow> by_month
                  | Some ym \<Rightarrow> hm_upd [] ym (\<lambda>ps. ps @ [p]) by_month) [] listed))"

fun overlaps_lookback :: "nat \<Rightarrow> (year_month \<times> obj_path \<times> nat) list \<Rightarrow> (year_month \<times> obj_path) list" where
  "overlaps_lookback min_seq [] = []"
| "overlaps_lookback min_seq ((ym, p, sq) # rest) =
     (if sq \<ge> min_seq \<or> (case rest of [] \<Rightarrow> False | (_, _, next_seq) # _ \<Rightarrow> next_seq \<ge> min_seq)
      then (ym, p) # overlaps_lookback min_seq rest else overlaps_lookback min_seq rest)"

text \<open>A listing that fails because there is no directory is an empty listing.\<close>

definition list_latest_checkpoints_per_month ::
  "('s, 'b) persister \<Rightarrow> nat option \<Rightarrow> 's \<Rightarrow> (persister_error + obj_path list) \<times> 's" where
  "list_latest_checkpoints_per_month pe min_sequence s =
     (case os_list (pe_store pe) (SnapshotCheckpointPath_dir (pe_prefix pe)) s of
        (Inl e, s1) \<Rightarrow> if e = NotFound then (Inr [], s1) else (Inl (PersisterStore e), s1)
      | (Inr listed, s1) \<Rightarrow>
          (let result = latest_per_month listed;
               selected =
                 (case min_sequence of
                    None \<Rightarrow> result
                  | Some min_seq \<Rightarrow>
                      overlaps_lookback min_seq
                        (List.map_filter (\<lambda>(ym, p). map_option (\<lambda>sq. (ym, p, sq)) (checkpoint_parse_sequence_number p)) result))
           in (Inr (map snd selected), s1)))"

fun load_checkpoints ::
  "('s, 'b) persister \<Rightarrow> obj_path list \<Rightarrow> 's \<Rightarrow> (persister_error + snapshot_checkpoint list) \<times> 's" where
  "load_checkpoints pe [] s = (Inr [], s)"
| "load_checkpoints pe (p # ps) s =
     (case os_get (pe_store pe) p s of
        (Inl e, s1) \<Rightarrow> (Inl (PersisterStore e), s1)
      | (Inr x, s1) \<Rightarrow>
          (case from_slice_checkpoint (pe_codec pe) (so_body x) of
             None \<Rightarrow> (Inl SerdeJson, s1)
           | Some cp \<Rightarrow>
               (case load_checkpoints pe ps s1 of
                  (Inl e, s2) \<Rightarrow> (Inl e, s2)
                | (Inr cps, s2) \<Rightarrow> (Inr (cp # cps), s2))))"

text \<open>The months of the loaded manifests, oldest first; a manifest with no file has no time and is
  left out.  The loop keeps the current month's checkpoint.\<close>

definition manifests_by_month ::
  "('s, 'b) persister \<Rightarrow> persisted_snapshot list \<Rightarrow> (year_month \<times> persisted_snapshot list) list" where
  "manifests_by_month pe snapshots =
     sort_key (\<lambda>(ym, ss). ym_key ym)
       (foldl (\<lambda>by_month snap.
          if ps_max_time snap = i64_min then by_month
          else hm_upd [] (pe_month_of pe (case ps_persisted_at snap of None \<Rightarrow> ps_max_time snap | Some ms \<Rightarrow> ms))
                 (\<lambda>ss. ss @ [snap]) by_month) [] snapshots)"

fun persist_months ::
  "('s, 'b) persister \<Rightarrow> year_month \<Rightarrow> (year_month \<times> persisted_snapshot list) list \<Rightarrow> 's \<Rightarrow>
   snapshot_checkpoint option \<times> persister_task list \<times> 's" where
  "persist_months pe current_month [] s = (None, [], s)"
| "persist_months pe current_month ((month, ss) # rest) s =
     (let cp = build_checkpoint (pe_prefix pe) month (rev ss)
      in case persist_checkpoint pe cp s of
           (r, tasks, s1) \<Rightarrow>
             (case persist_months pe current_month rest s1 of
                (kept, tasks', s2) \<Rightarrow>
                  (if kept = None \<and> month = current_month then Some cp else kept, tasks @ tasks', s2)))"

definition build_and_persist_checkpoints_from_snapshots ::
  "('s, 'b) persister \<Rightarrow> persisted_snapshot list \<Rightarrow> year_month \<Rightarrow> 's \<Rightarrow>
   snapshot_checkpoint option \<times> persister_task list \<times> 's" where
  "build_and_persist_checkpoints_from_snapshots pe snapshots current_month s =
     persist_months pe current_month (manifests_by_month pe snapshots) s"


section \<open>Manifests in the store\<close>

abbreviation manifest_path :: "('s, 'b) persister \<Rightarrow> persisted_snapshot \<Rightarrow> obj_path" where
  "manifest_path pe x \<equiv> SnapshotInfoFilePath_new (pe_prefix pe) (ps_snapshot_sequence_number x)"

abbreviation manifest_dir :: "('s, 'b) persister \<Rightarrow> obj_path" where
  "manifest_dir pe \<equiv> SnapshotInfoFilePath_dir (pe_prefix pe)"

text \<open>The manifests of a node, newest first: the objects of the directory are exactly these.\<close>

definition manifests_in ::
  "('s, 'b) persister \<Rightarrow> (obj_path \<rightharpoonup> 'b stored_object) \<Rightarrow> persisted_snapshot list \<Rightarrow> bool" where
  "manifests_in pe c ss \<longleftrightarrow>
     sorted_wrt (\<lambda>x y. ps_snapshot_sequence_number y < ps_snapshot_sequence_number x) ss \<and>
     (\<forall>x \<in> set ss. ps_snapshot_sequence_number x \<le> u64_max) \<and>
     {p. c p \<noteq> None \<and> under (manifest_dir pe) p} = manifest_path pe ` set ss \<and>
     (\<forall>x \<in> set ss. \<forall>b. c (manifest_path pe x) = Some b \<longrightarrow> from_slice_manifest (pe_codec pe) (so_body b) = Some x)"

text \<open>What loading makes of a manifest: the time it was written is the object's.\<close>

definition loaded :: "('s, 'b) persister \<Rightarrow> persisted_snapshot \<Rightarrow> persisted_snapshot" where
  "loaded pe x = x\<lparr>ps_persisted_at := Some (pe_last_modified_ms pe (manifest_path pe x))\<rparr>"

lemma loaded_seq [simp]: "ps_snapshot_sequence_number (loaded pe x) = ps_snapshot_sequence_number x"
  by (simp add: loaded_def)

lemma manifest_paths_sorted:
  assumes "manifests_in pe c ss"
  shows "sorted_wrt (<) (map (manifest_path pe) ss)"
proof -
  have "sorted_wrt (\<lambda>x y. ps_snapshot_sequence_number y < ps_snapshot_sequence_number x) ss"
    and "\<forall>x \<in> set ss. ps_snapshot_sequence_number x \<le> u64_max"
    using assms by (simp_all add: manifests_in_def)
  then show ?thesis
    by (induction ss) (auto simp: snapshot_name_less)
qed

lemma under_append [simp]: "under (pre @ x) (pre @ y) = under x y"
  by (simp add: under_def)

lemma manifest_path_under [simp]: "under (SnapshotInfoFilePath_dir h) (SnapshotInfoFilePath_new h n)"
  by (simp add: SnapshotInfoFilePath_dir_def SnapshotInfoFilePath_new_def under_def)

lemma checkpoint_path_not_manifest [simp]:
  "\<not> under (SnapshotInfoFilePath_dir h) (SnapshotCheckpointPath_new h ym n)"
  by (simp add: SnapshotInfoFilePath_dir_def SnapshotCheckpointPath_new_def under_def)

section \<open>Paging\<close>

lemma strict_sorted_after_take:
  fixes xs :: "obj_path list"
  assumes "sorted_wrt (<) xs" and "take k xs \<noteq> []"
  shows "filter (\<lambda>p. last (take k xs) < p) xs = drop k xs"
proof -
  have split: "sorted_wrt (<) (take k xs @ drop k xs)" using assms(1) by simp
  have "last (take k xs) \<in> set (take k xs)" using assms(2) by simp
  with split have late: "\<forall>p \<in> set (drop k xs). last (take k xs) < p"
    unfolding sorted_wrt_append by blast
  have sorted: "sorted_wrt (<) (butlast (take k xs) @ [last (take k xs)])"
    using assms(1) append_butlast_last_id [OF assms(2)] sorted_wrt_take [of "(<)" xs k] by simp
  have early: "\<forall>p \<in> set (take k xs). \<not> last (take k xs) < p"
  proof
    fix p
    assume "p \<in> set (take k xs)"
    then have "p \<in> set (butlast (take k xs)) \<or> p = last (take k xs)"
      using append_butlast_last_id [OF assms(2)] by (metis Un_iff empty_iff insert_iff list.set(1,2) set_append)
    then show "\<not> last (take k xs) < p"
      using sorted unfolding sorted_wrt_append by (auto dest: less_asym)
  qed
  have "filter (\<lambda>p. last (take k xs) < p) (take k xs @ drop k xs) = drop k xs"
    unfolding filter_append using early late by (simp add: filter_empty_conv)
  then show ?thesis by simp
qed

definition after_offset :: "obj_path option \<Rightarrow> obj_path \<Rightarrow> bool" where
  "after_offset offset p \<longleftrightarrow> (case offset of None \<Rightarrow> True | Some o' \<Rightarrow> o' < p)"

context object_store_reads
begin

lemma list_manifests_ok:
  assumes "list_manifests pe offset s = (Inr ps, s')" and "pe_store pe = st"
    and "sorted_wrt (<) L" and "{p. contents s p \<noteq> None \<and> under (manifest_dir pe) p} = set L"
  shows "sort ps = filter (after_offset offset) L" and "contents s' = contents s"
proof -
  have "distinct ps \<and> set ps = set (filter (after_offset offset) L)"
  proof (cases offset)
    case None
    then have "os_list st (manifest_dir pe) s = (Inr ps, s')"
      using assms(1,2) by (simp add: list_manifests_def)
    from list_ok [OF this] show ?thesis using None assms(4) by (simp add: after_offset_def)
  next
    case (Some o')
    then have "os_list_with_offset st (manifest_dir pe) o' s = (Inr ps, s')"
      using assms(1,2) by (simp add: list_manifests_def)
    from list_offset_ok [OF this] show ?thesis
      using Some assms(4) [symmetric] by (auto simp: after_offset_def)
  qed
  moreover have "sorted_wrt (<) (filter (after_offset offset) L)"
    using assms(3) by (simp add: sorted_wrt_filter)
  ultimately show "sort ps = filter (after_offset offset) L"
    by (intro sorted_distinct_set_unique) (simp_all add: strict_sorted_iff)
  show "contents s' = contents s"
    using assms(1,2) list_frame list_offset_frame by (auto simp: list_manifests_def split: option.splits)
qed

lemma list_manifests_frame:
  "list_manifests pe offset s = (r, s') \<Longrightarrow> pe_store pe = st \<Longrightarrow> contents s' = contents s"
  using list_frame list_offset_frame by (auto simp: list_manifests_def split: option.splits)

lemma manifest_paths_ok:
  assumes "manifest_paths pe n offset s = (Inr ps, s')" and "pe_store pe = st"
    and "sorted_wrt (<) L" and "{p. contents s p \<noteq> None \<and> under (manifest_dir pe) p} = set L"
  shows "ps = take n (filter (after_offset offset) L) \<and> contents s' = contents s"
  using assms
proof (induction pe n offset s arbitrary: ps s' rule: manifest_paths.induct)
  case (1 pe n offset s)
  let ?F = "filter (after_offset offset) L" and ?k = "if n > 1000 then 1000 else n"
  show ?case
  proof (cases "n = 0")
    case True
    then show ?thesis using 1(2) by (simp add: manifest_paths.simps)
  next
    case False
    obtain listed s1 where listed: "list_manifests pe offset s = (Inr listed, s1)"
      using 1(2) False by (auto simp: manifest_paths.simps [of pe n] Let_def split: prod.splits sum.splits)
    note page = list_manifests_ok [OF listed 1(3,4,5)]
    show ?thesis
    proof (cases "take ?k ?F = []")
      case True
      then have "?F = []" using False by (auto simp: take_eq_Nil split: if_splits)
      then show ?thesis using 1(2) False listed page
        by (simp add: manifest_paths.simps [of pe n] Let_def)
    next
      case nonempty: False
      obtain later s2 where later: "manifest_paths pe (n - ?k) (Some (last (take ?k ?F))) s1 = (Inr later, s2)"
        and result: "ps = take ?k ?F @ later" "s' = s2"
        using 1(2) False listed page nonempty
        by (auto simp: manifest_paths.simps [of pe n] Let_def split: prod.splits sum.splits)
      have ih: "later = take (n - ?k) (filter (after_offset (Some (last (take ?k ?F)))) L) \<and> contents s2 = contents s1"
        using 1(1) [OF False refl listed [symmetric] refl refl, of later s2] nonempty later page 1(3,4,5) by simp
      have "last (take ?k ?F) \<in> set ?F" using nonempty by (meson in_set_takeD last_in_set)
      then have "filter (after_offset (Some (last (take ?k ?F)))) L = filter (\<lambda>p. last (take ?k ?F) < p) ?F"
        by (cases offset) (auto simp: after_offset_def filter_filter intro!: filter_cong)
      also have "\<dots> = drop ?k ?F"
        using strict_sorted_after_take [OF _ nonempty] 1(4) by (simp add: sorted_wrt_filter)
      finally have "ps = take ?k ?F @ take (n - ?k) (drop ?k ?F)" using result ih by simp
      also have "\<dots> = take n ?F" by (simp add: take_add [symmetric])
      finally show ?thesis using ih result page by simp
    qed
  qed
qed

lemma manifest_paths_frame:
  "manifest_paths pe n offset s = (r, s') \<Longrightarrow> pe_store pe = st \<Longrightarrow> contents s' = contents s"
proof (induction pe n offset s arbitrary: r s' rule: manifest_paths.induct)
  case (1 pe n offset s)
  then show ?case
    using list_manifests_frame [OF _ 1(3)]
    by (subst (asm) (2) manifest_paths.simps)
       (fastforce simp: Let_def split: prod.splits sum.splits if_splits)
qed

lemma manifest_paths_error:
  "manifest_paths pe n offset s = (Inl e, s') \<Longrightarrow> \<exists>x. e = PersisterStore x"
proof (induction pe n offset s arbitrary: s' rule: manifest_paths.induct)
  case (1 pe n offset s)
  then show ?case
    by (subst (asm) (2) manifest_paths.simps)
       (fastforce simp: Let_def split: prod.splits sum.splits if_splits)
qed

lemma get_snapshot_frame: "get_snapshot pe p s = (r, s') \<Longrightarrow> pe_store pe = st \<Longrightarrow> contents s' = contents s"
  using get_frame by (auto simp: get_snapshot_def split: prod.splits sum.splits option.splits)

lemma get_snapshots_frame:
  "get_snapshots pe ps s = (r, s') \<Longrightarrow> pe_store pe = st \<Longrightarrow> contents s' = contents s"
  by (induction ps arbitrary: r s) (auto split: prod.splits sum.splits dest: get_snapshot_frame)

lemma get_manifest:
  assumes "get_snapshot pe (manifest_path pe x) s = (r, s')" and "pe_store pe = st"
    and "manifests_in pe (contents s) ss" and "x \<in> set ss"
  shows "r = Inr (loaded pe x) \<or> (\<exists>e. r = Inl (PersisterStore e))"
proof (cases "os_get st (manifest_path pe x) s")
  case (Pair r1 s1)
  show ?thesis
  proof (cases r1)
    case (Inl e)
    then show ?thesis using assms(1,2) Pair by (auto simp: get_snapshot_def)
  next
    case (Inr b)
    then have "contents s (manifest_path pe x) = Some b" using Pair get_ok by simp
    then have "from_slice_manifest (pe_codec pe) (so_body b) = Some x"
      using assms(3,4) by (simp add: manifests_in_def)
    then show ?thesis using assms(1,2) Pair Inr by (auto simp: get_snapshot_def loaded_def)
  qed
qed

lemma get_manifests:
  assumes "get_snapshots pe (map (manifest_path pe) xs) s = (r, s')" and "pe_store pe = st"
    and "manifests_in pe (contents s) ss" and "set xs \<subseteq> set ss"
  shows "r = Inr (map (loaded pe) xs) \<or> (\<exists>e. r = Inl (PersisterStore e))"
  using assms(1,3,4)
proof (induction xs arbitrary: r s s')
  case Nil
  then show ?case by simp
next
  case (Cons x xs)
  obtain r1 s1 where get: "get_snapshot pe (manifest_path pe x) s = (r1, s1)" by fastforce
  obtain r2 s2 where rest: "get_snapshots pe (map (manifest_path pe) xs) s1 = (r2, s2)" by fastforce
  have "manifests_in pe (contents s1) ss" using get_snapshot_frame [OF get assms(2)] Cons.prems(2) by simp
  from Cons.IH [OF rest this] get_manifest [OF get assms(2) Cons.prems(2)] Cons.prems get rest
  show ?case by auto
qed

lemma load_manifests:
  assumes "load_snapshots pe n s = (r, s')" and "pe_store pe = st" and "manifests_in pe (contents s) ss"
  shows "r = Inr (map (loaded pe) (take n ss)) \<or> (\<exists>e. r = Inl (PersisterStore e))"
    and "contents s' = contents s"
proof -
  obtain r1 s1 where paths: "manifest_paths pe n None s = (r1, s1)" by fastforce
  have frame: "contents s1 = contents s" using manifest_paths_frame [OF paths assms(2)] .
  show "contents s' = contents s"
    using assms(1) paths frame get_snapshots_frame [OF _ assms(2)]
    by (auto simp: load_snapshots_def split: sum.splits)
  show "r = Inr (map (loaded pe) (take n ss)) \<or> (\<exists>e. r = Inl (PersisterStore e))"
  proof (cases r1)
    case (Inl e)
    then show ?thesis using assms(1) paths manifest_paths_error [of pe n None s e s1] by (auto simp: load_snapshots_def)
  next
    case (Inr ps)
    have "{p. contents s p \<noteq> None \<and> under (manifest_dir pe) p} = set (map (manifest_path pe) ss)"
      using assms(3) by (simp add: manifests_in_def)
    from manifest_paths_ok [OF paths [unfolded Inr] assms(2) manifest_paths_sorted [OF assms(3)] this]
    have "ps = map (manifest_path pe) (take n ss)" by (simp add: after_offset_def take_map)
    then have "get_snapshots pe (map (manifest_path pe) (take n ss)) s1 = (r, s')"
      using assms(1) paths Inr by (simp add: load_snapshots_def)
    from get_manifests [OF this assms(2), of ss] show ?thesis
      using frame assms(3) set_take_subset [of n ss] by simp
  qed
qed

end

section \<open>Writing a manifest\<close>

definition manifest_insert :: "persisted_snapshot \<Rightarrow> persisted_snapshot list \<Rightarrow> persisted_snapshot list" where
  "manifest_insert x ss =
     filter (\<lambda>y. ps_snapshot_sequence_number x < ps_snapshot_sequence_number y) ss @ [x] @
     filter (\<lambda>y. ps_snapshot_sequence_number y < ps_snapshot_sequence_number x) ss"

lemma set_manifest_insert:
  "set (manifest_insert x ss) =
     insert x {y \<in> set ss. ps_snapshot_sequence_number y \<noteq> ps_snapshot_sequence_number x}"
  by (auto simp: manifest_insert_def)

lemma manifest_insert_newest:
  "\<forall>y \<in> set ss. ps_snapshot_sequence_number y < ps_snapshot_sequence_number x \<Longrightarrow> manifest_insert x ss = x # ss"
  by (simp add: manifest_insert_def filter_empty_conv filter_id_conv order_less_imp_not_less)

lemma manifests_after_put:
  assumes m: "manifests_in pe c ss" and codec: "from_slice_manifest (pe_codec pe) (so_body b) = Some x"
    and bound: "ps_snapshot_sequence_number x \<le> u64_max"
  shows "manifests_in pe (c(manifest_path pe x \<mapsto> b)) (manifest_insert x ss)"
proof -
  let ?q = "ps_snapshot_sequence_number"
  have sorted: "sorted_wrt (\<lambda>x y. ?q y < ?q x) (manifest_insert x ss)"
    using m by (auto simp: manifests_in_def manifest_insert_def sorted_wrt_append sorted_wrt_filter)
  have bounds: "\<forall>y \<in> set (manifest_insert x ss). ?q y \<le> u64_max"
    using m bound by (auto simp: manifests_in_def manifest_insert_def)
  have old: "\<And>y. y \<in> set ss \<Longrightarrow> manifest_path pe y = manifest_path pe x \<longleftrightarrow> ?q y = ?q x"
    using m bound by (simp add: manifests_in_def snapshot_name_inj)
  have dir: "{p. c p \<noteq> None \<and> under (manifest_dir pe) p} = manifest_path pe ` set ss"
    using m by (simp add: manifests_in_def)
  have "{p. (c(manifest_path pe x \<mapsto> b)) p \<noteq> None \<and> under (manifest_dir pe) p} =
      insert (manifest_path pe x) {p. c p \<noteq> None \<and> under (manifest_dir pe) p}"
    by (auto split: if_splits)
  also have "\<dots> = manifest_path pe ` set (manifest_insert x ss)"
    unfolding dir set_manifest_insert using old by auto
  finally have listed: "{p. (c(manifest_path pe x \<mapsto> b)) p \<noteq> None \<and> under (manifest_dir pe) p} =
      manifest_path pe ` set (manifest_insert x ss)" .
  have "\<forall>y \<in> set (manifest_insert x ss). \<forall>b'. (c(manifest_path pe x \<mapsto> b)) (manifest_path pe y) = Some b' \<longrightarrow>
      from_slice_manifest (pe_codec pe) (so_body b') = Some y"
  proof (intro ballI allI impI)
    fix y b'
    assume y: "y \<in> set (manifest_insert x ss)" and b': "(c(manifest_path pe x \<mapsto> b)) (manifest_path pe y) = Some b'"
    show "from_slice_manifest (pe_codec pe) (so_body b') = Some y"
    proof (cases "y = x")
      case True
      then show ?thesis using b' codec by simp
    next
      case False
      then have "y \<in> set ss" "?q y \<noteq> ?q x" using y unfolding set_manifest_insert by auto
      then show ?thesis using b' old m by (simp add: manifests_in_def)
    qed
  qed
  with sorted bounds listed show ?thesis unfolding manifests_in_def by blast
qed

lemma manifests_frame:
  assumes "\<And>p. under (manifest_dir pe) p \<Longrightarrow> c' p = c p"
  shows "manifests_in pe c' ss = manifests_in pe c ss"
proof -
  have "{p. c' p \<noteq> None \<and> under (manifest_dir pe) p} = {p. c p \<noteq> None \<and> under (manifest_dir pe) p}"
    using assms by auto
  then show ?thesis using assms by (simp add: manifests_in_def)
qed

lemma month_dir_not_manifest:
  "under (SnapshotCheckpointPath_month_dir h ym) p \<Longrightarrow> \<not> under (SnapshotInfoFilePath_dir h) p"
proof -
  assume "under (SnapshotCheckpointPath_month_dir h ym) p"
  then obtain q where "p = SnapshotCheckpointPath_month_dir h ym @ ''/'' @ q"
    unfolding under_def by (metis append.assoc append_take_drop_id)
  then show ?thesis by (simp add: under_def SnapshotCheckpointPath_month_dir_def SnapshotInfoFilePath_dir_def)
qed

context object_store_laws
begin

lemma put_outcome:
  "os_put st p b s = (r, s') \<Longrightarrow>
     contents s' = (contents s)(p \<mapsto> \<lparr>so_body = b, so_attrs = []\<rparr>) \<or> (\<exists>e. r = Inl e) \<and> contents s' = contents s"
  using put_ok put_failed by (cases r) blast+

lemma persist_checkpoint_frame:
  assumes "persist_checkpoint pe cp s = (r, tasks, s')" and "pe_store pe = st" and "under (manifest_dir pe) p"
  shows "contents s' p = contents s p"
  using assms put_outcome
  by (fastforce simp: persist_checkpoint_def split: option.splits prod.splits sum.splits)

lemma previous_month_frame:
  assumes "pe_store pe = st" and "under (manifest_dir pe) p"
  shows "contents (persist_previous_month_checkpoint_async pe cp s) p = contents s p"
proof (cases "to_vec_checkpoint (pe_codec pe) cp")
  case None
  then show ?thesis by (simp add: persist_previous_month_checkpoint_async_def)
next
  case (Some json)
  have "p \<noteq> SnapshotCheckpointPath_new (pe_prefix pe) (cp_year_month cp) (cp_last_snapshot_sequence_number cp)"
    using assms(2) checkpoint_path_not_manifest by metis
  then show ?thesis
    using put_outcome [OF surjective_pairing, of
        "SnapshotCheckpointPath_new (pe_prefix pe) (cp_year_month cp) (cp_last_snapshot_sequence_number cp)" json s]
      Some assms(1)
    by (auto simp: persist_previous_month_checkpoint_async_def)
qed

lemma delete_outcome: "contents (snd (os_delete st p s)) q = contents s q \<or> p = q \<and> contents (snd (os_delete st p s)) q = None"
proof (cases "os_delete st p s")
  case (Pair r s')
  then show ?thesis
    using delete_ok [of p s _ s'] delete_failed [of p s _ s'] by (cases r) (auto split: if_splits)
qed

lemma delete_each_frame: "q \<notin> set ps \<Longrightarrow> contents (delete_each st ps s) q = contents s q"
  using delete_outcome by (induction ps arbitrary: s) fastforce+

text \<open>Cleaning a month up touches nothing outside it and none of its two newest checkpoints.\<close>

lemma cleanup_frame:
  assumes "pe_store pe = st"
    and "under (SnapshotCheckpointPath_month_dir (pe_prefix pe) ym) q \<Longrightarrow>
      card {p. contents s p \<noteq> None \<and> under (SnapshotCheckpointPath_month_dir (pe_prefix pe) ym) p \<and> p < q} < 2"
  shows "contents (cleanup_old_checkpoints_for_month pe ym s) q = contents s q"
proof (cases "os_list st (SnapshotCheckpointPath_month_dir (pe_prefix pe) ym) s")
  case (Pair r s1)
  have frame: "contents s1 = contents s" using list_frame [OF Pair] .
  show ?thesis
  proof (cases r)
    case (Inl e)
    then show ?thesis using Pair frame assms(1) by (simp add: cleanup_old_checkpoints_for_month_def)
  next
    case (Inr ps)
    note ok = list_ok [OF Pair [unfolded Inr]]
    have "q \<notin> set (drop 2 (sort ps))"
    proof
      assume q: "q \<in> set (drop 2 (sort ps))"
      then have "q \<in> set ps" using in_set_dropD by fastforce
      then have few: "card {p. contents s p \<noteq> None \<and> under (SnapshotCheckpointPath_month_dir (pe_prefix pe) ym) p \<and> p < q} < 2"
        using assms(2) ok by simp
      have sorted: "sorted_wrt (<) (take 2 (sort ps) @ drop 2 (sort ps))"
        using ok by (simp add: strict_sorted_iff)
      then have before: "set (take 2 (sort ps)) \<subseteq> {p \<in> set ps. p < q}"
        using q unfolding sorted_wrt_append by (auto dest: in_set_takeD)
      have "length ps > 2" using q by (cases "length ps > 2") auto
      then have "card (set (take 2 (sort ps))) = 2"
        using ok by (simp add: distinct_card)
      then have "2 \<le> card {p \<in> set ps. p < q}"
        using card_mono [OF _ before] by simp
      then show False using few ok by (simp add: conj_ac)
    qed
    then show ?thesis
      using Pair Inr frame assms(1) delete_each_frame [of q "drop 2 (sort ps)" s1]
      by (simp add: cleanup_old_checkpoints_for_month_def CHECKPOINTS_TO_RETAIN_PER_MONTH_def)
  qed
qed

lemma run_task_manifests:
  assumes "pe_store pe = st"
  shows "manifests_in pe (contents (run_task pe task s)) ss = manifests_in pe (contents s) ss"
proof (rule manifests_frame)
  fix p
  assume p: "under (manifest_dir pe) p"
  show "contents (run_task pe task s) p = contents s p"
  proof (cases task)
    case (PersistPreviousMonth cp)
    then show ?thesis using previous_month_frame [OF assms p] by simp
  next
    case (CleanupMonth ym)
    have "\<not> under (SnapshotCheckpointPath_month_dir (pe_prefix pe) ym) p"
      using month_dir_not_manifest p by blast
    then show ?thesis using cleanup_frame [OF assms, of ym p s] CleanupMonth by simp
  qed
qed

lemma persist_manifest:
  assumes run: "persist_snapshot pe now_ms instant x ps s = (r, tasks, ps', s')" and st: "pe_store pe = st"
    and m: "manifests_in pe (contents s) ss" and bound: "ps_snapshot_sequence_number x \<le> u64_max"
    and codec: "\<And>json. to_vec_manifest (pe_codec pe) x = Some json \<Longrightarrow> from_slice_manifest (pe_codec pe) json = Some x"
  shows "manifests_in pe (contents s') (manifest_insert x ss) \<or> (\<exists>e. r = Inl e) \<and> manifests_in pe (contents s') ss"
proof (cases "to_vec_manifest (pe_codec pe) x")
  case None
  then show ?thesis using run m by (auto simp: persist_snapshot_def)
next
  case (Some json)
  obtain r1 s1 where put: "os_put st (manifest_path pe x) json s = (r1, s1)" by fastforce
  have written: "manifests_in pe (contents s1) (manifest_insert x ss) \<or> (\<exists>e. r1 = Inl e) \<and> manifests_in pe (contents s1) ss"
    using put_outcome [OF put] manifests_after_put [OF m _ bound, of "\<lparr>so_body = json, so_attrs = []\<rparr>"] codec [OF Some] m
    by auto
  show ?thesis
  proof (cases r1)
    case (Inl e)
    then show ?thesis using run put Some written st by (auto simp: persist_snapshot_def)
  next
    case (Inr u)
    have "\<And>p. under (manifest_dir pe) p \<Longrightarrow> contents s' p = contents s1 p"
      using run put Some Inr st persist_checkpoint_frame [OF _ st]
      by (auto simp: persist_snapshot_def split: if_splits prod.splits option.splits sum.splits)
    then have "manifests_in pe (contents s') (manifest_insert x ss) = manifests_in pe (contents s1) (manifest_insert x ss)"
      by (rule manifests_frame)
    then show ?thesis using written Inr by simp
  qed
qed

end

section \<open>The cached checkpoint\<close>

text \<open>The cache holds the checkpoint of a month built from a sequence of snapshots.\<close>

definition cache_holds :: "('s, 'b) persister \<Rightarrow> year_month \<Rightarrow> persisted_snapshot list \<Rightarrow> persister_state \<Rightarrow> bool" where
  "cache_holds pe ym ss ps \<longleftrightarrow>
     (\<exists>c. pe_cached_checkpoint ps = Some c \<and> cp_year_month (cc_checkpoint c) = ym \<and>
        (cc_checkpoint c, cc_file_index c) = foldl checkpoint_snapshot (checkpoint_new (pe_prefix pe) ym, []) ss)"

lemma cache_holds_build:
  "cache_holds pe ym ss ps \<Longrightarrow>
     \<exists>c. pe_cached_checkpoint ps = Some c \<and> cc_checkpoint c = build_checkpoint (pe_prefix pe) ym ss"
  unfolding cache_holds_def build_checkpoint_def by (metis fst_conv)

lemma month_fold: "cp_year_month (fst (foldl checkpoint_snapshot (checkpoint_new node ym, []) ss)) = ym"
  using build_checkpoint_month by (simp add: build_checkpoint_def)

lemma update_cached:
  assumes upd: "update_cached_checkpoint pe now_ms x ps = (tasks, ps')"
    and old: "pe_cached_checkpoint ps = None \<and> ss = [] \<and> ym = pe_month_of pe now_ms \<or> cache_holds pe ym ss ps"
  shows "cache_holds pe (pe_month_of pe now_ms) (if pe_month_of pe now_ms = ym then ss @ [x] else [x]) ps'"
    and "tasks = (if pe_month_of pe now_ms = ym then [] else [PersistPreviousMonth (build_checkpoint (pe_prefix pe) ym ss)])"
proof -
  define start where "start = (checkpoint_new (pe_prefix pe) (pe_month_of pe now_ms), [] :: checkpoint_index)"
  define base where "base = (if pe_month_of pe now_ms = ym then foldl checkpoint_snapshot start ss else start)"
  have cached: "(case pe_cached_checkpoint ps of None \<Rightarrow> ([], start)
      | Some c \<Rightarrow> if cp_year_month (cc_checkpoint c) = pe_month_of pe now_ms then ([], (cc_checkpoint c, cc_file_index c))
          else ([PersistPreviousMonth (cc_checkpoint c)], start)) =
      (if pe_month_of pe now_ms = ym then [] else [PersistPreviousMonth (build_checkpoint (pe_prefix pe) ym ss)], base)"
    using old
  proof
    assume "pe_cached_checkpoint ps = None \<and> ss = [] \<and> ym = pe_month_of pe now_ms"
    then show ?thesis by (simp add: base_def)
  next
    assume holds: "cache_holds pe ym ss ps"
    then obtain c where c: "pe_cached_checkpoint ps = Some c" "cp_year_month (cc_checkpoint c) = ym"
      "(cc_checkpoint c, cc_file_index c) = foldl checkpoint_snapshot (checkpoint_new (pe_prefix pe) ym, []) ss"
      unfolding cache_holds_def by blast
    moreover have "cc_checkpoint c = build_checkpoint (pe_prefix pe) ym ss"
      using c(3) unfolding build_checkpoint_def by (metis fst_conv)
    ultimately show ?thesis by (auto simp: base_def start_def)
  qed
  obtain cp index where new: "checkpoint_snapshot base x = (cp, index)" by fastforce
  have result: "tasks = (if pe_month_of pe now_ms = ym then [] else [PersistPreviousMonth (build_checkpoint (pe_prefix pe) ym ss)]) \<and>
      ps' = ps\<lparr>pe_cached_checkpoint := Some \<lparr>cc_checkpoint = cp, cc_file_index = index\<rparr>\<rparr>"
    using upd unfolding update_cached_checkpoint_def Let_def start_def [symmetric] cached by (simp add: new)
  have built: "(cp, index) = foldl checkpoint_snapshot start (if pe_month_of pe now_ms = ym then ss @ [x] else [x])"
    using new by (cases "pe_month_of pe now_ms = ym") (simp_all add: base_def)
  then have "cp_year_month cp = pe_month_of pe now_ms"
    using month_fold unfolding start_def by (metis fst_conv)
  with result built show "cache_holds pe (pe_month_of pe now_ms) (if pe_month_of pe now_ms = ym then ss @ [x] else [x]) ps'"
    by (simp add: cache_holds_def start_def)
  show "tasks = (if pe_month_of pe now_ms = ym then [] else [PersistPreviousMonth (build_checkpoint (pe_prefix pe) ym ss)])"
    using result by blast
qed

text \<open>
  A run of a persister that starts without a cached checkpoint, with the manifests it has acknowledged and the
  month of each by the clock.  The store changes in any way between two calls.
\<close>

inductive persister_run :: "('s, 'b) persister \<Rightarrow> persister_state \<Rightarrow> (year_month \<times> persisted_snapshot) list \<Rightarrow> bool"
  for pe where
  start: "persister_run pe persister_state_new []"
| acknowledged: "persister_run pe ps acked \<Longrightarrow> persist_snapshot pe now_ms instant x ps s = (Inr (), tasks, ps', s') \<Longrightarrow>
    persister_run pe ps' (acked @ [(pe_month_of pe now_ms, x)])"
| failed: "persister_run pe ps acked \<Longrightarrow> persist_snapshot pe now_ms instant x ps s = (Inl e, tasks, ps', s') \<Longrightarrow>
    persister_run pe ps' acked"

text \<open>The month of the last acknowledged manifest, and the manifests acknowledged since that month began.\<close>

definition acked_month :: "(year_month \<times> persisted_snapshot) list \<Rightarrow> (year_month \<times> persisted_snapshot list) option" where
  "acked_month acked =
     (if acked = [] then None
      else Some (fst (last acked), map snd (rev (takeWhile (\<lambda>a. fst a = fst (last acked)) (rev acked)))))"

lemma acked_month_snoc:
  "acked_month (acked @ [(ym, x)]) =
     Some (ym, case acked_month acked of None \<Rightarrow> [x] | Some (ym0, ss) \<Rightarrow> if ym0 = ym then ss @ [x] else [x])"
proof (cases acked rule: rev_cases)
  case (snoc as a)
  then show ?thesis by (cases "fst a = ym") (simp_all add: acked_month_def)
qed (simp add: acked_month_def)

lemma persist_snapshot_cache:
  assumes run: "persist_snapshot pe now_ms instant x ps s = (r, tasks, ps', s')" and on: "pe_checkpoint_interval pe \<noteq> None"
    and old: "pe_cached_checkpoint ps = None \<and> ss = [] \<and> ym = pe_month_of pe now_ms \<or> cache_holds pe ym ss ps"
  shows "r = Inr () \<Longrightarrow> cache_holds pe (pe_month_of pe now_ms) (if ym = pe_month_of pe now_ms then ss @ [x] else [x]) ps'"
    and "r = Inr () \<Longrightarrow> ym \<noteq> pe_month_of pe now_ms \<Longrightarrow> PersistPreviousMonth (build_checkpoint (pe_prefix pe) ym ss) \<in> set tasks"
proof -
  assume "r = Inr ()"
  moreover obtain tasks1 ps1 where upd: "update_cached_checkpoint pe now_ms x ps = (tasks1, ps1)" by fastforce
  ultimately have out: "pe_cached_checkpoint ps' = pe_cached_checkpoint ps1 \<and> set tasks1 \<subseteq> set tasks"
    using run on
    by (auto simp: persist_snapshot_def mark_checkpoint_created_def split: option.splits prod.splits sum.splits if_splits)
  then have same: "cache_holds pe m zs ps' = cache_holds pe m zs ps1" for m zs by (simp add: cache_holds_def)
  show "cache_holds pe (pe_month_of pe now_ms) (if ym = pe_month_of pe now_ms then ss @ [x] else [x]) ps'"
    using update_cached(1) [OF upd old] unfolding same by (metis (full_types))
  show "PersistPreviousMonth (build_checkpoint (pe_prefix pe) ym ss) \<in> set tasks" if "ym \<noteq> pe_month_of pe now_ms"
    using update_cached(2) [OF upd old] out that by auto
qed

lemma persist_snapshot_failed:
  "persist_snapshot pe now_ms instant x ps s = (Inl e, tasks, ps', s') \<Longrightarrow> ps' = ps \<and> tasks = []"
  by (auto simp: persist_snapshot_def split: option.splits prod.splits sum.splits if_splits)

lemma run_cache:
  assumes "persister_run pe ps acked" and on: "pe_checkpoint_interval pe \<noteq> None"
  shows "case acked_month acked of
      None \<Rightarrow> pe_cached_checkpoint ps = None | Some (ym, ss) \<Rightarrow> cache_holds pe ym ss ps"
  using assms(1)
proof induction
  case start
  then show ?case by (simp add: acked_month_def persister_state_new_def)
next
  case (acknowledged ps acked now_ms instant x s tasks ps' s')
  show ?case
  proof (cases "acked_month acked")
    case None
    then have "pe_cached_checkpoint ps = None" using acknowledged.IH by simp
    then show ?thesis
      using None persist_snapshot_cache(1) [OF acknowledged.hyps(2) on, of "[]" "pe_month_of pe now_ms"] by (simp add: acked_month_snoc)
  next
    case (Some a)
    obtain ym ss where a: "a = (ym, ss)" by (cases a)
    then have "cache_holds pe ym ss ps" using acknowledged.IH Some by simp
    then show ?thesis
      using Some a persist_snapshot_cache(1) [OF acknowledged.hyps(2) on, of ss ym] by (simp add: acked_month_snoc)
  qed
next
  case (failed ps acked now_ms instant x s e tasks ps' s')
  then show ?case using persist_snapshot_failed by metis
qed

section \<open>Listing checkpoints\<close>

definition ym_ok :: "year_month \<Rightarrow> bool" where
  "ym_ok ym \<longleftrightarrow> ym_year ym < 10 ^ 4 \<and> 1 \<le> ym_month ym \<and> ym_month ym \<le> 12"

lemma ym_key_inj: "ym_key a = ym_key b \<longleftrightarrow> a = b"
  by (cases a; cases b) auto

lemma digits_only_fixed [simp]: "digits_only w (fixed_digits w n)"
  by (auto simp: digits_only_def list_all_iff dest: fixed_digits_all_digits)

lemma checkpoint_name_month:
  assumes "ym_ok ym"
  shows "checkpoint_path_year_month (SnapshotCheckpointPath_new pre ym n) = Some ym"
proof -
  let ?month = "fixed_digits 4 (ym_year ym) @ CHR ''-'' # fixed_digits 2 (ym_month ym)"
  let ?name = "fixed_digits 20 (object_store_file_stem n) @ ''.checkpoint.json''"
  have show_ym: "show_year_month ym = ?month"
    using assms by (simp add: show_year_month_def pad0_fixed ym_ok_def)
  then have path: "SnapshotCheckpointPath_new pre ym n =
      pre @ CHR ''/'' # (''snapshot-checkpoints'' @ CHR ''/'' # (?month @ CHR ''/'' # ?name))"
    by (simp add: SnapshotCheckpointPath_new_def pad0_fixed stem_less [simplified])
  have no_slash: "CHR ''/'' \<notin> set ?month" "CHR ''/'' \<notin> set ?name"
    using fixed_digits_no_slash by auto
  obtain q qs where q: "rev (split_slash pre) = q # qs"
    by (cases "rev (split_slash pre)") auto
  have "rev (split_slash (SnapshotCheckpointPath_new pre ym n)) = ?name # ?month # ''snapshot-checkpoints'' # q # qs"
    unfolding path split_slash_append using no_slash q by (simp add: split_slash_no_slash)
  moreover have "parse_year_month ?month = Inr ym"
    using year_month_parse [of ym] assms show_ym by (simp add: ym_ok_def)
  ultimately show ?thesis
    by (simp add: checkpoint_path_year_month_def nth_append)
qed

lemma group_values:
  "hm_get [] (foldl (\<lambda>m x. case k x of None \<Rightarrow> m | Some y \<Rightarrow> hm_upd [] y (\<lambda>l. l @ [x]) m) m0 xs) y =
     hm_get [] m0 y @ filter (\<lambda>x. k x = Some y) xs"
  by (induction xs arbitrary: m0) (auto simp: hm_get_upd split: option.splits)

lemma group_keys:
  "fst ` set (foldl (\<lambda>m x. case k x of None \<Rightarrow> m | Some y \<Rightarrow> hm_upd [] y (\<lambda>l. l @ [x]) m) m0 xs) =
     fst ` set m0 \<union> {y. \<exists>x \<in> set xs. k x = Some y}"
  by (induction xs arbitrary: m0) (auto simp: hm_upd_def split: option.splits)

lemma group_distinct:
  "keys_distinct (foldl (\<lambda>m x. case k x of None \<Rightarrow> m | Some y \<Rightarrow> hm_upd [] y (\<lambda>l. l @ [x]) m) m0 xs) = keys_distinct m0"
  by (induction xs arbitrary: m0) (auto split: option.splits)

lemma hd_sort: "xs \<noteq> [] \<Longrightarrow> hd (sort xs) = Min (set (xs :: obj_path list))"
proof -
  assume "xs \<noteq> []"
  then obtain y ys where y: "sort xs = y # ys" by (metis list.exhaust set_empty set_sort)
  then have "sorted (y # ys)" by (metis sorted_sort)
  moreover have "set xs = set (y # ys)" by (metis y set_sort)
  ultimately show ?thesis using y by (auto intro!: Min_eqI [symmetric])
qed

lemma distinct_map_sort_key: "distinct (map f (sort_key k xs)) = distinct (map f xs)"
  by (rule mset_eq_imp_distinct_iff) simp

text \<open>One entry per month that occurs, months ascending, each with the first of its paths.\<close>

lemma latest_per_month_spec:
  "sorted_wrt (\<lambda>a b. ym_key (fst a) < ym_key (fst b)) (latest_per_month listed) \<and>
   set (latest_per_month listed) =
     {(ym, Min {p \<in> set listed. checkpoint_path_year_month p = Some ym}) |ym.
        \<exists>p \<in> set listed. checkpoint_path_year_month p = Some ym}"
proof -
  let ?g = "foldl (\<lambda>m p. case checkpoint_path_year_month p of None \<Rightarrow> m
      | Some ym \<Rightarrow> hm_upd [] ym (\<lambda>l. l @ [p]) m) ([] :: (year_month, obj_path list) hash_map) listed"
  let ?f = "\<lambda>(ym, ps). (ym, hd (sort ps)) :: year_month \<times> obj_path"
  have keys: "distinct (map fst ?g)" using group_distinct [of checkpoint_path_year_month "[]" listed] by simp
  have val: "ps = filter (\<lambda>p. checkpoint_path_year_month p = Some ym) listed" if "(ym, ps) \<in> set ?g" for ym ps
    using group_values [of checkpoint_path_year_month "[]" listed ym] map_of_is_SomeI [OF keys that]
    by (simp add: hm_get_def)
  have dom: "fst ` set ?g = {ym. \<exists>p \<in> set listed. checkpoint_path_year_month p = Some ym}"
    using group_keys [of checkpoint_path_year_month "[]" listed] by simp
  have first: "hd (sort ps) = Min {p \<in> set listed. checkpoint_path_year_month p = Some ym}"
    if "(ym, ps) \<in> set ?g" for ym ps
  proof -
    have "ym \<in> fst ` set ?g" using that by force
    then have "ps \<noteq> []" using val [OF that] unfolding dom by (auto simp: filter_empty_conv)
    then show ?thesis using hd_sort val [OF that] by simp
  qed
  have "set (map ?f ?g) =
      {(ym, Min {p \<in> set listed. checkpoint_path_year_month p = Some ym}) |ym. ym \<in> fst ` set ?g}"
  proof (intro set_eqI iffI)
    fix z
    assume "z \<in> set (map ?f ?g)"
    then obtain ym ps where "(ym, ps) \<in> set ?g" "z = (ym, hd (sort ps))" by auto
    then show "z \<in> {(ym, Min {p \<in> set listed. checkpoint_path_year_month p = Some ym}) |ym. ym \<in> fst ` set ?g}"
      using first [of ym ps] image_eqI [of ym fst "(ym, ps)" "set ?g"] by simp
  next
    fix z
    assume "z \<in> {(ym, Min {p \<in> set listed. checkpoint_path_year_month p = Some ym}) |ym. ym \<in> fst ` set ?g}"
    then obtain ym ps where "(ym, ps) \<in> set ?g"
      "z = (ym, Min {p \<in> set listed. checkpoint_path_year_month p = Some ym})" by auto
    then show "z \<in> set (map ?f ?g)"
      using first [of ym ps] image_eqI [of z ?f "(ym, ps)" "set ?g"] by simp
  qed
  then have set_eq: "set (latest_per_month listed) =
      {(ym, Min {p \<in> set listed. checkpoint_path_year_month p = Some ym}) |ym.
        \<exists>p \<in> set listed. checkpoint_path_year_month p = Some ym}"
    unfolding latest_per_month_def dom by (simp only: set_sort mem_Collect_eq)
  have same: "map fst (map ?f ?g) = map fst ?g" by (simp add: case_prod_unfold)
  have "distinct (map fst (map ?f ?g))" unfolding same by (rule keys)
  then have "distinct (map fst (latest_per_month listed))"
    unfolding latest_per_month_def by (simp only: distinct_map_sort_key)
  then have "distinct (map (ym_key \<circ> fst) (latest_per_month listed))"
    using ym_key_inj by (simp add: distinct_map inj_on_def)
  moreover have "sorted (map (ym_key \<circ> fst) (latest_per_month listed))"
    unfolding latest_per_month_def using sorted_sort_key [of "\<lambda>(ym, p). ym_key ym"]
    by (simp add: case_prod_unfold comp_def)
  ultimately have "sorted_wrt (<) (map (ym_key \<circ> fst) (latest_per_month listed))"
    by (simp only: strict_sorted_iff)
  then have "sorted_wrt (\<lambda>a b. ym_key (fst a) < ym_key (fst b)) (latest_per_month listed)"
    by (simp add: sorted_wrt_map)
  with set_eq show ?thesis by blast
qed

lemma checkpoint_name_less:
  assumes "m < n" and "n \<le> u64_max"
  shows "SnapshotCheckpointPath_new pre ym n < SnapshotCheckpointPath_new pre ym m"
proof -
  have stem: "object_store_file_stem n < object_store_file_stem m"
    using assms by (simp add: object_store_file_stem_def)
  show ?thesis using fixed_digits_less [OF stem stem_less] stem_less
    by (simp add: SnapshotCheckpointPath_new_def pad0_fixed append_less_cancel append_less_same_length)
qed

text \<open>The checkpoints of a node, by month and last sequence number.\<close>

definition checkpoints_in ::
  "('s, 'b) persister \<Rightarrow> (obj_path \<rightharpoonup> 'b stored_object) \<Rightarrow> (year_month \<times> nat) set \<Rightarrow> bool" where
  "checkpoints_in pe c K \<longleftrightarrow> finite K \<and> (\<forall>(ym, n) \<in> K. ym_ok ym \<and> n \<le> u64_max) \<and>
     {p. c p \<noteq> None \<and> under (SnapshotCheckpointPath_dir (pe_prefix pe)) p} =
       (\<lambda>(ym, n). SnapshotCheckpointPath_new (pe_prefix pe) ym n) ` K"

lemma first_of_month:
  assumes "finite K" and ok: "\<forall>(ym, n) \<in> K. ym_ok ym \<and> n \<le> u64_max" and "(ym, n0) \<in> K"
  shows "Min {p \<in> (\<lambda>(ym, n). SnapshotCheckpointPath_new pre ym n) ` K. checkpoint_path_year_month p = Some ym} =
    SnapshotCheckpointPath_new pre ym (Max {n. (ym, n) \<in> K})"
proof -
  let ?N = "{n. (ym, n) \<in> K}"
  have fin: "finite ?N" using finite_imageI [OF assms(1), of snd] by (rule finite_subset [rotated]) force
  have ne: "?N \<noteq> {}" using assms(3) by auto
  have months: "checkpoint_path_year_month (SnapshotCheckpointPath_new pre ym' n) = Some ym'" if "(ym', n) \<in> K" for ym' n
    using ok that checkpoint_name_month by fastforce
  have paths: "{p \<in> (\<lambda>(ym, n). SnapshotCheckpointPath_new pre ym n) ` K. checkpoint_path_year_month p = Some ym} =
      SnapshotCheckpointPath_new pre ym ` ?N"
    using months by force
  have "SnapshotCheckpointPath_new pre ym (Max ?N) \<le> SnapshotCheckpointPath_new pre ym n" if "n \<in> ?N" for n
  proof (cases "n = Max ?N")
    case False
    then have "n < Max ?N" using Max_ge [OF fin that] by simp
    moreover have "Max ?N \<le> u64_max" using Max_in [OF fin ne] ok by auto
    ultimately show ?thesis using checkpoint_name_less by (simp add: less_imp_le)
  qed simp
  then show ?thesis
    unfolding paths using fin Max_in [OF fin ne] by (intro Min_eqI) auto
qed

definition latest_checkpoint_path :: "('s, 'b) persister \<Rightarrow> (year_month \<times> nat) set \<Rightarrow> year_month \<Rightarrow> obj_path" where
  "latest_checkpoint_path pe K ym = SnapshotCheckpointPath_new (pe_prefix pe) ym (Max {n. (ym, n) \<in> K})"

context object_store_reads
begin

lemma latest_checkpoints:
  assumes "os_list st (SnapshotCheckpointPath_dir (pe_prefix pe)) s = (Inr listed, s')"
    and K: "checkpoints_in pe (contents s) K"
  shows "latest_per_month listed = map (\<lambda>ym. (ym, latest_checkpoint_path pe K ym)) (map fst (latest_per_month listed))"
    and "sorted_wrt (\<lambda>a b. ym_key a < ym_key b) (map fst (latest_per_month listed))"
    and "set (map fst (latest_per_month listed)) = fst ` K"
proof -
  let ?path = "\<lambda>(ym, n). SnapshotCheckpointPath_new (pe_prefix pe) ym n"
  have listed: "set listed = ?path ` K" using list_ok [OF assms(1)] K by (simp add: checkpoints_in_def)
  have fin: "finite K" and ok: "\<forall>(ym, n) \<in> K. ym_ok ym \<and> n \<le> u64_max" using K by (simp_all add: checkpoints_in_def)
  have occurs: "(\<exists>p \<in> set listed. checkpoint_path_year_month p = Some ym) \<longleftrightarrow> ym \<in> fst ` K" for ym
  proof
    assume "\<exists>p \<in> set listed. checkpoint_path_year_month p = Some ym"
    then obtain ym' n where "(ym', n) \<in> K" "checkpoint_path_year_month (?path (ym', n)) = Some ym"
      unfolding listed by auto
    moreover have "ym_ok ym'" using ok calculation(1) by auto
    ultimately show "ym \<in> fst ` K" using checkpoint_name_month image_eqI [of ym fst "(ym', n)"] by simp
  next
    assume "ym \<in> fst ` K"
    then obtain n where "(ym, n) \<in> K" by auto
    moreover have "ym_ok ym" using ok calculation by auto
    ultimately show "\<exists>p \<in> set listed. checkpoint_path_year_month p = Some ym"
      unfolding listed using checkpoint_name_month imageI [of "(ym, n)" K ?path]
      by (intro bexI [of _ "?path (ym, n)"]) simp_all
  qed
  have first: "Min {p \<in> set listed. checkpoint_path_year_month p = Some ym} = latest_checkpoint_path pe K ym"
    if "ym \<in> fst ` K" for ym
  proof -
    from that obtain n where "(ym, n) \<in> K" by auto
    from first_of_month [OF fin ok this] show ?thesis unfolding listed latest_checkpoint_path_def .
  qed
  note spec = latest_per_month_spec [of listed, unfolded occurs]
  show "sorted_wrt (\<lambda>a b. ym_key a < ym_key b) (map fst (latest_per_month listed))"
    unfolding sorted_wrt_map using conjunct1 [OF spec] .
  have "z = (fst z, latest_checkpoint_path pe K (fst z))" if "z \<in> set (latest_per_month listed)" for z
  proof -
    from that have "z \<in> {(ym, Min {p \<in> set listed. checkpoint_path_year_month p = Some ym}) |ym. ym \<in> fst ` K}"
      by (simp only: conjunct2 [OF spec])
    then obtain ym where "ym \<in> fst ` K" "z = (ym, Min {p \<in> set listed. checkpoint_path_year_month p = Some ym})"
      by (elim CollectE exE conjE)
    then show ?thesis using first by simp
  qed
  then have "map (\<lambda>z. (fst z, latest_checkpoint_path pe K (fst z))) (latest_per_month listed) = latest_per_month listed"
    by (intro map_idI) metis
  then show "latest_per_month listed = map (\<lambda>ym. (ym, latest_checkpoint_path pe K ym)) (map fst (latest_per_month listed))"
    by (simp add: o_def)
  have "fst ` {(ym, Min {p \<in> set listed. checkpoint_path_year_month p = Some ym}) |ym. ym \<in> fst ` K} = fst ` K"
    unfolding setcompr_eq_image image_image by simp
  then show "set (map fst (latest_per_month listed)) = fst ` K"
    using conjunct2 [OF spec] by simp
qed

end

lemma overlaps_keeps:
  "sorted_wrt R months \<Longrightarrow>
    \<exists>kept. map snd (overlaps_lookback m (map (\<lambda>ym. (ym, path ym, top_seq ym)) months)) = map path kept \<and>
      sorted_wrt R kept \<and> set kept \<subseteq> set months \<and> (\<forall>ym \<in> set months. m \<le> top_seq ym \<longrightarrow> ym \<in> set kept)"
proof (induction months)
  case (Cons ym months)
  then obtain kept where "map snd (overlaps_lookback m (map (\<lambda>ym. (ym, path ym, top_seq ym)) months)) = map path kept"
    "sorted_wrt R kept" "set kept \<subseteq> set months" "\<forall>ym \<in> set months. m \<le> top_seq ym \<longrightarrow> ym \<in> set kept"
    by auto
  with Cons.prems show ?case
    by (intro exI [of _ "if m \<le> top_seq ym \<or> (case map (\<lambda>ym. (ym, path ym, top_seq ym)) months of [] \<Rightarrow> False
      | (_, _, next_seq) # _ \<Rightarrow> m \<le> next_seq) then ym # kept else kept"]) auto
qed simp

lemma checkpoint_path_sequence:
  assumes "checkpoints_in pe c K" and "ym \<in> fst ` K"
  shows "checkpoint_parse_sequence_number (latest_checkpoint_path pe K ym) = Some (Max {n. (ym, n) \<in> K})"
proof -
  have "finite (snd ` K)" using assms(1) by (simp add: checkpoints_in_def)
  moreover have "{n. (ym, n) \<in> K} \<subseteq> snd ` K" by force
  ultimately have fin: "finite {n. (ym, n) \<in> K}" by (rule finite_subset [rotated])
  have "{n. (ym, n) \<in> K} \<noteq> {}" using assms(2) by auto
  then have "(ym, Max {n. (ym, n) \<in> K}) \<in> K" using Max_in [OF fin] by simp
  then have "Max {n. (ym, n) \<in> K} \<le> u64_max" using assms(1) by (auto simp: checkpoints_in_def)
  then show ?thesis by (simp add: latest_checkpoint_path_def checkpoint_name_parse)
qed

lemma map_filter_all: "(\<And>x. x \<in> set xs \<Longrightarrow> f x = Some (g x)) \<Longrightarrow> List.map_filter f xs = map g xs"
  by (induction xs) simp_all

context object_store_reads
begin

lemma latest_checkpoint_months:
  assumes st: "pe_store pe = st" and K: "checkpoints_in pe (contents s) K"
    and "list_latest_checkpoints_per_month pe min_sequence s = (Inr ps, s')"
    and "fst (os_list (pe_store pe) (SnapshotCheckpointPath_dir (pe_prefix pe)) s) \<noteq> Inl NotFound"
  shows "\<exists>months. ps = map (latest_checkpoint_path pe K) months \<and>
           sorted_wrt (\<lambda>a b. ym_key a < ym_key b) months \<and> set months \<subseteq> fst ` K \<and>
           (min_sequence = None \<longrightarrow> set months = fst ` K) \<and>
           (\<forall>m ym n. min_sequence = Some m \<and> (ym, n) \<in> K \<and> m \<le> n \<longrightarrow> ym \<in> set months)"
proof -
  obtain listed s1 where listed: "os_list (pe_store pe) (SnapshotCheckpointPath_dir (pe_prefix pe)) s = (Inr listed, s1)"
    using assms(3,4) by (auto simp: list_latest_checkpoints_per_month_def split: prod.splits sum.splits if_splits)
  define months where "months = map fst (latest_per_month listed)"
  note latest = latest_checkpoints [OF listed [unfolded st] K, folded months_def]
  show ?thesis
  proof (cases min_sequence)
    case None
    have "ps = map snd (latest_per_month listed)"
      using assms(3) listed None by (simp add: list_latest_checkpoints_per_month_def)
    then have "ps = map (latest_checkpoint_path pe K) months"
      by (subst (asm) latest(1)) (simp add: o_def)
    with latest(2,3) None show ?thesis by (intro exI [of _ months]) simp
  next
    case (Some m)
    let ?top = "\<lambda>ym. Max {n. (ym, n) \<in> K}" and ?path = "latest_checkpoint_path pe K"
    let ?xs = "map (\<lambda>ym. (ym, ?path ym, ?top ym)) months"
    have "List.map_filter (\<lambda>(ym, p). map_option (\<lambda>sq. (ym, p, sq)) (checkpoint_parse_sequence_number p))
        (latest_per_month listed) = ?xs"
      by (subst latest(1), subst map_filter_all [where g = "\<lambda>(ym, p). (ym, p, ?top ym)"])
        (use checkpoint_path_sequence [OF K] latest(3) in auto)
    then have ps: "ps = map snd (overlaps_lookback m ?xs)"
      using assms(3) listed Some by (simp add: list_latest_checkpoints_per_month_def)
    from overlaps_keeps [OF latest(2), of m ?path ?top]
    obtain kept where kept: "ps = map ?path kept" "sorted_wrt (\<lambda>a b. ym_key a < ym_key b) kept"
      "set kept \<subseteq> fst ` K" "\<forall>ym \<in> fst ` K. m \<le> ?top ym \<longrightarrow> ym \<in> set kept"
      unfolding ps [symmetric] latest(3) by (elim exE conjE)
    have "ym \<in> set kept" if "(ym, n) \<in> K" "m \<le> n" for ym n
    proof -
      have "finite (snd ` K)" using K by (simp add: checkpoints_in_def)
      then have "finite {n. (ym, n) \<in> K}" by (rule finite_subset [rotated]) force
      then have "n \<le> ?top ym" using that(1) by (intro Max_ge) simp_all
      then have "m \<le> ?top ym" using that(2) by simp
      moreover have "ym \<in> fst ` K" using image_eqI [of ym fst "(ym, n)" K] that(1) by simp
      ultimately show ?thesis using kept(4) by blast
    qed
    then have "\<forall>m' ym n. min_sequence = Some m' \<and> (ym, n) \<in> K \<and> m' \<le> n \<longrightarrow> ym \<in> set kept"
      using Some by auto
    with kept(1,2,3) Some show ?thesis by (intro exI [of _ kept]) simp
  qed
qed

end

section \<open>Claims\<close>

text \<open>A store whose objects are the values themselves, to run the persister.\<close>

type_synonym persisted_object = "persisted_snapshot + snapshot_checkpoint"

definition plain_codec :: "persisted_object snapshot_serde" where
  "plain_codec =
     \<lparr>to_vec_manifest = (\<lambda>x. Some (Inl x)),
      from_slice_manifest = (\<lambda>b. case b of Inl x \<Rightarrow> Some x | Inr cp \<Rightarrow> None),
      to_vec_checkpoint = (\<lambda>cp. Some (Inr cp)),
      from_slice_checkpoint = (\<lambda>b. case b of Inl x \<Rightarrow> None | Inr cp \<Rightarrow> Some cp)\<rparr>"

definition mem_persister :: "nat option \<Rightarrow> (persisted_object mem, persisted_object) persister" where
  "mem_persister interval =
     \<lparr>pe_store = mem_store, pe_codec = plain_codec, pe_prefix = ''node'', pe_checkpoint_interval = interval,
      pe_month_of = (\<lambda>ms. \<lparr>ym_year = 2025, ym_month = 1\<rparr>), pe_last_modified_ms = (\<lambda>p. 7)\<rparr>"

text \<open>Claim C10.  A manifest whose write was acknowledged is there when the node next loads its
  manifests: the newest \<open>n\<close> manifests come back newest first, the written one in its place by
  sequence number, after the background tasks the write spawned, and any failure to load is the
  store's own.\<close>

theorem persisted_manifest_loads_back:
  assumes "object_store_laws (pe_store pe) contents" and "manifests_in pe (contents s) ss"
    and "ps_snapshot_sequence_number x \<le> u64_max"
    and "\<And>json. to_vec_manifest (pe_codec pe) x = Some json \<Longrightarrow> from_slice_manifest (pe_codec pe) json = Some x"
    and "persist_snapshot pe now_ms instant x ps s = (Inr (), tasks, ps', s1)"
    and "load_snapshots pe n (foldl (\<lambda>s task. run_task pe task s) s1 tasks) = (r, s2)"
  shows "r = Inr (map (loaded pe) (take n (manifest_insert x ss))) \<or> (\<exists>e. r = Inl (PersisterStore e))"
proof -
  note laws = assms(1)
  have "manifests_in pe (contents s1) (manifest_insert x ss)"
    using object_store_laws.persist_manifest [OF laws assms(5) refl assms(2,3,4)] by simp
  then have "manifests_in pe (contents (foldl (\<lambda>s task. run_task pe task s) s1 tasks)) (manifest_insert x ss)"
    using object_store_laws.run_task_manifests [OF laws refl]
    by (induction tasks arbitrary: s1) simp_all
  then show ?thesis
    using object_store_reads.load_manifests(1) [OF object_store_laws.axioms(1) [OF laws] assms(6) refl] by simp
qed

theorem persisted_manifest_loads_back_witness:
  "fst (load_snapshots (mem_persister None) 5
      (snd (snd (snd (persist_snapshot (mem_persister None) 0 0 (pf_snapshot 3 [pf_file 4 ''a'' 3] []) persister_state_new []))))) =
    Inr [(pf_snapshot 3 [pf_file 4 ''a'' 3] [])\<lparr>ps_persisted_at := Some 7\<rparr>]"
proof -
  let ?pe = "mem_persister None" and ?x = "pf_snapshot 3 [pf_file 4 ''a'' 3] []"
  let ?s = "[(SnapshotInfoFilePath_new ''node'' 3, \<lparr>so_body = Inl ?x, so_attrs = []\<rparr>)]"
  have sq: "ps_snapshot_sequence_number ?x = 3" by (simp add: pf_snapshot_def PersistedSnapshot_new_def)
  have run: "persist_snapshot ?pe 0 0 ?x persister_state_new [] = (Inr (), [], persister_state_new, ?s)"
    by (simp add: persist_snapshot_def mem_persister_def plain_codec_def sq hm_insert_def)
  obtain r s2 where load: "load_snapshots ?pe 5 (foldl (\<lambda>s task. run_task ?pe task s) ?s []) = (r, s2)" by fastforce
  have "manifests_in ?pe (map_of []) []" by (simp add: manifests_in_def)
  moreover have "object_store_laws (pe_store ?pe) map_of"
    by (simp add: mem_persister_def mem.object_store_laws_axioms)
  ultimately have "r = Inr (map (loaded ?pe) (take 5 (manifest_insert ?x []))) \<or> (\<exists>e. r = Inl (PersisterStore e))"
    using persisted_manifest_loads_back [OF _ _ _ _ run load, of map_of "[]"] sq
    by (simp add: mem_persister_def plain_codec_def u64_max_def)
  moreover have "r \<noteq> Inl (PersisterStore e)" for e
    using load sq
    by (auto simp: load_snapshots_def manifest_paths.simps list_manifests_def mem_persister_def Let_def get_snapshot_def
        plain_codec_def)
  ultimately show ?thesis
    using load run sq by (auto simp: manifest_insert_def loaded_def mem_persister_def)
qed

text \<open>Claim C17.  In a process that started without a cached checkpoint and has checkpoints enabled, after any
  sequence of manifest writes, failed ones included, the cached checkpoint is that of the manifests
  acknowledged since the month of the last one began: it lists exactly the files they leave and keeps the
  removals of files they did not add.  The first manifest of another month hands the finished checkpoint to
  a background write, and a write that fails changes nothing.\<close>

theorem checkpoint_cache_follows_manifests:
  assumes "persister_run pe ps acked" and "pe_checkpoint_interval pe \<noteq> None"
    and "persist_snapshot pe now_ms instant x ps s = (r, tasks, ps', s')"
  shows "(case acked_month acked of
      None \<Rightarrow> pe_cached_checkpoint ps = None
    | Some (ym, ss) \<Rightarrow>
        (\<exists>c. pe_cached_checkpoint ps = Some c \<and> cp_year_month (cc_checkpoint c) = ym \<and>
           cc_checkpoint c = build_checkpoint (pe_prefix pe) ym ss \<and> (history_sane ss \<longrightarrow> checkpoint_of ss (cc_checkpoint c))) \<and>
        (r = Inr () \<and> ym \<noteq> pe_month_of pe now_ms \<longrightarrow> PersistPreviousMonth (build_checkpoint (pe_prefix pe) ym ss) \<in> set tasks)) \<and>
    (r \<noteq> Inr () \<longrightarrow> ps' = ps \<and> tasks = [])"
proof -
  have failed: "r \<noteq> Inr () \<longrightarrow> ps' = ps \<and> tasks = []"
    using assms(3) persist_snapshot_failed [of pe now_ms instant x ps s _ tasks ps' s'] by (cases r) auto
  show ?thesis
  proof (cases "acked_month acked")
    case None
    then show ?thesis using run_cache [OF assms(1,2)] failed by simp
  next
    case (Some a)
    obtain ym ss where a: "a = (ym, ss)" by (cases a)
    then have holds: "cache_holds pe ym ss ps" using run_cache [OF assms(1,2)] Some by simp
    then obtain c where c: "pe_cached_checkpoint ps = Some c" "cp_year_month (cc_checkpoint c) = ym"
      "cc_checkpoint c = build_checkpoint (pe_prefix pe) ym ss"
      using cache_holds_build [OF holds] unfolding cache_holds_def by auto
    have "checkpoint_of ss (cc_checkpoint c)" if "history_sane ss" using build_checkpoint_of [OF that] c(3) by simp
    then show ?thesis using Some a c failed persist_snapshot_cache(2) [OF assms(3,2)] holds by auto
  qed
qed

theorem checkpoint_cache_follows_manifests_witness:
  "\<exists>tasks ps' s' c. persist_snapshot (mem_persister (Some 10)) 0 0 (pf_snapshot 3 [pf_file 4 ''a'' 3] []) persister_state_new [] =
      (Inr (), tasks, ps', s') \<and> pe_cached_checkpoint ps' = Some c \<and>
      cc_checkpoint c = build_checkpoint ''node'' \<lparr>ym_year = 2025, ym_month = 1\<rparr> [pf_snapshot 3 [pf_file 4 ''a'' 3] []]"
proof -
  let ?pe = "mem_persister (Some 10)" and ?x = "pf_snapshot 3 [pf_file 4 ''a'' 3] []"
  obtain r tasks ps' s' where run: "persist_snapshot ?pe 0 0 ?x persister_state_new [] = (r, tasks, ps', s')"
    by (metis prod_cases4)
  have r: "r = Inr ()"
    using run by (auto simp: persist_snapshot_def mem_persister_def plain_codec_def
        split: prod.splits option.splits sum.splits if_splits)
  have one: "persister_run ?pe ps' ([] @ [(pe_month_of ?pe 0, ?x)])"
    using run r by (intro persister_run.acknowledged [OF persister_run.start]) simp
  obtain r2 tasks2 ps2 s2 where two: "persist_snapshot ?pe 0 0 ?x ps' s' = (r2, tasks2, ps2, s2)" by (metis prod_cases4)
  have "pe_checkpoint_interval ?pe \<noteq> None" by (simp add: mem_persister_def)
  from checkpoint_cache_follows_manifests [OF one this two]
  have "\<exists>c. pe_cached_checkpoint ps' = Some c \<and> cc_checkpoint c = build_checkpoint (pe_prefix ?pe) (pe_month_of ?pe 0) [?x]"
    by (auto simp: acked_month_def)
  then show ?thesis using run r by (simp add: mem_persister_def)
qed

text \<open>Listing the latest checkpoints gives, months ascending, for each month the path of the
  checkpoint with its highest sequence number: every month when there is no lower bound, and with one
  at least every month whose latest checkpoint reaches the bound.\<close>

theorem latest_checkpoints_listed:
  assumes "object_store_reads (pe_store pe) contents" and K: "checkpoints_in pe (contents s) K"
    and "list_latest_checkpoints_per_month pe min_sequence s = (Inr ps, s')"
    and "fst (os_list (pe_store pe) (SnapshotCheckpointPath_dir (pe_prefix pe)) s) \<noteq> Inl NotFound"
  shows "\<exists>months. ps = map (latest_checkpoint_path pe K) months \<and>
           sorted_wrt (\<lambda>a b. ym_key a < ym_key b) months \<and> set months \<subseteq> fst ` K \<and>
           (min_sequence = None \<longrightarrow> set months = fst ` K) \<and>
           (\<forall>m ym n. min_sequence = Some m \<and> (ym, n) \<in> K \<and> m \<le> n \<longrightarrow> ym \<in> set months)"
  using object_store_reads.latest_checkpoint_months [OF assms(1) refl assms(2,3,4)] .

theorem latest_checkpoints_listed_witness:
  "\<exists>ps s'. list_latest_checkpoints_per_month (mem_persister None) None
      [(SnapshotCheckpointPath_new ''node'' \<lparr>ym_year = 2025, ym_month = 2\<rparr> 3,
        \<lparr>so_body = Inl (pf_snapshot 3 [] []), so_attrs = []\<rparr>)] = (Inr ps, s') \<and>
      set ps = {SnapshotCheckpointPath_new ''node'' \<lparr>ym_year = 2025, ym_month = 2\<rparr> 3}"
proof -
  let ?pe = "mem_persister None" and ?ym = "\<lparr>ym_year = 2025, ym_month = 2\<rparr>" and ?K = "{(\<lparr>ym_year = 2025, ym_month = 2\<rparr>, 3)}"
  let ?s = "[(SnapshotCheckpointPath_new ''node'' ?ym 3, \<lparr>so_body = Inl (pf_snapshot 3 [] []), so_attrs = []\<rparr>)]"
  have under: "under (SnapshotCheckpointPath_dir ''node'') (SnapshotCheckpointPath_new ''node'' ?ym 3)"
    by (simp add: SnapshotCheckpointPath_dir_def SnapshotCheckpointPath_new_def under_def)
  have K: "checkpoints_in ?pe (map_of ?s) ?K"
    using under by (auto simp: checkpoints_in_def ym_ok_def u64_max_def mem_persister_def)
  have listing: "os_list (pe_store ?pe) (SnapshotCheckpointPath_dir (pe_prefix ?pe)) ?s =
      (Inr [SnapshotCheckpointPath_new ''node'' ?ym 3], ?s)"
    using under by (simp add: mem_persister_def)
  obtain ps where run: "list_latest_checkpoints_per_month ?pe None ?s = (Inr ps, ?s)"
    using listing by (simp add: list_latest_checkpoints_per_month_def)
  have "object_store_reads (pe_store ?pe) map_of"
    by (simp add: mem_persister_def mem.object_store_reads_axioms)
  from latest_checkpoints_listed [OF this K run] listing
  obtain months where "ps = map (latest_checkpoint_path ?pe ?K) months" "set months = {?ym}" by auto
  then have "set ps = {SnapshotCheckpointPath_new ''node'' ?ym 3}"
    by (simp add: latest_checkpoint_path_def mem_persister_def)
  with run show ?thesis by blast
qed

end
