(* ===== verification/Startup.thy ===== *)
theory Startup
  imports Persister
begin

text \<open>
  What a starting node reads before it replays its log: \<open>WriteBufferImpl::new\<close>
  (\<open>influxdb3_write/src/write_buffer/mod.rs\<close>) up to the point where the file list, the last
  persisted sequence numbers and the next file identifier are known.  It starts from the monthly
  checkpoints and the manifests after them when there are checkpoints, and from the newest manifests
  otherwise; in the second case a background task builds the checkpoints.
\<close>

section \<open>Loading\<close>

record loaded_state =
  ls_persisted_files :: persisted_files
  ls_last_wal_sequence_number :: "nat option"
  ls_last_snapshot_sequence_number :: "nat option"
  ls_next_file_id :: nat

datatype startup_task = BuildCheckpoints "persisted_snapshot list" year_month

definition sequence_cutoff :: "('s, 'b) persister \<Rightarrow> nat \<Rightarrow> 's \<Rightarrow> nat option \<times> 's" where
  "sequence_cutoff pe n_snapshots_to_load_on_start s =
     (case get_latest_snapshot_sequence pe s of
        (Inr (Some latest), s1) \<Rightarrow> (Some (latest - n_snapshots_to_load_on_start), s1)
      | (Inr None, s1) \<Rightarrow> (None, s1)
      | (Inl e, s1) \<Rightarrow> (None, s1))"

definition checkpoint_paths :: "('s, 'b) persister \<Rightarrow> nat option \<Rightarrow> 's \<Rightarrow> obj_path list \<times> 's" where
  "checkpoint_paths pe cutoff s =
     (case list_latest_checkpoints_per_month pe cutoff s of
        (Inr paths, s1) \<Rightarrow> (paths, s1)
      | (Inl e, s1) \<Rightarrow> ([], s1))"

text \<open>\<open>max_by_key\<close> returns the last of several maxima.\<close>

definition newest_checkpoint :: "snapshot_checkpoint list \<Rightarrow> snapshot_checkpoint option" where
  "newest_checkpoint cps =
     (case cps of
        [] \<Rightarrow> None
      | c # cs \<Rightarrow> Some (foldl (\<lambda>m c. if cp_last_snapshot_sequence_number m \<le> cp_last_snapshot_sequence_number c
                               then c else m) c cs))"

definition set_next_file_id :: "nat option \<Rightarrow> nat \<Rightarrow> nat" where
  "set_next_file_id next_file_id current =
     (case next_file_id of None \<Rightarrow> current | Some i \<Rightarrow> ParquetFileId_set_next_id i current)"

definition last_sequences ::
  "snapshot_checkpoint list \<Rightarrow> persisted_snapshot list \<Rightarrow> nat option \<times> nat option \<times> nat option" where
  "last_sequences checkpoints additional_snapshots =
     (case additional_snapshots of
        first_snap # _ \<Rightarrow>
          (Some (ps_wal_file_sequence_number first_snap), Some (ps_snapshot_sequence_number first_snap),
           Some (ps_next_file_id first_snap))
      | [] \<Rightarrow>
          (case newest_checkpoint checkpoints of
             Some c \<Rightarrow> (Some (cp_wal_file_sequence_number c), Some (cp_last_snapshot_sequence_number c), cp_next_file_id c)
           | None \<Rightarrow> (None, None, None)))"

definition load_from_checkpoints ::
  "('s, 'b) persister \<Rightarrow> int \<Rightarrow> nat \<Rightarrow> obj_path list \<Rightarrow> nat \<Rightarrow> persister_state \<Rightarrow> 's \<Rightarrow>
   (persister_error + loaded_state) \<times> persister_state \<times> 's" where
  "load_from_checkpoints pe now_ms n_snapshots_to_load_on_start paths file_id ps s =
     (case load_checkpoints pe paths s of
        (Inl e, s1) \<Rightarrow> (Inl e, ps, s1)
      | (Inr checkpoints, s1) \<Rightarrow>
          (let current_month = pe_month_of pe now_ms;
               ps1 = (case find (\<lambda>c. cp_year_month c = current_month) checkpoints of
                        Some c \<Rightarrow> warm_checkpoint_cache pe c ps
                      | None \<Rightarrow> ps);
               max_checkpoint_snapshot_seq = map_option cp_last_snapshot_sequence_number (newest_checkpoint checkpoints)
           in case (case max_checkpoint_snapshot_seq of
                      Some max_seq \<Rightarrow> load_snapshots_after pe max_seq n_snapshots_to_load_on_start s1
                    | None \<Rightarrow> (Inr [], s1)) of
                (Inl e, s2) \<Rightarrow> (Inl e, ps1, s2)
              | (Inr additional_snapshots, s2) \<Rightarrow>
                  (case last_sequences checkpoints additional_snapshots of
                     (last_wal_seq, last_snap_seq, next_file_id) \<Rightarrow>
                       (Inr \<lparr>ls_persisted_files = new_from_checkpoints_and_snapshots checkpoints additional_snapshots,
                             ls_last_wal_sequence_number = last_wal_seq,
                             ls_last_snapshot_sequence_number = last_snap_seq,
                             ls_next_file_id = set_next_file_id next_file_id file_id\<rparr>, ps1, s2))))"

definition load_from_snapshots ::
  "('s, 'b) persister \<Rightarrow> int \<Rightarrow> nat \<Rightarrow> nat \<Rightarrow> 's \<Rightarrow> (persister_error + loaded_state) \<times> startup_task list \<times> 's" where
  "load_from_snapshots pe now_ms n_snapshots_to_load_on_start file_id s =
     (case load_snapshots pe n_snapshots_to_load_on_start s of
        (Inl e, s1) \<Rightarrow> (Inl e, [], s1)
      | (Inr persisted_snapshots, s1) \<Rightarrow>
          (Inr \<lparr>ls_persisted_files = new_from_persisted_snapshots persisted_snapshots,
                ls_last_wal_sequence_number =
                  (case persisted_snapshots of [] \<Rightarrow> None | x # _ \<Rightarrow> Some (ps_wal_file_sequence_number x)),
                ls_last_snapshot_sequence_number =
                  (case persisted_snapshots of [] \<Rightarrow> None | x # _ \<Rightarrow> Some (ps_snapshot_sequence_number x)),
                ls_next_file_id =
                  set_next_file_id (case persisted_snapshots of [] \<Rightarrow> None | x # _ \<Rightarrow> Some (ps_next_file_id x)) file_id\<rparr>,
           if persisted_snapshots = [] then [] else [BuildCheckpoints persisted_snapshots (pe_month_of pe now_ms)], s1))"

definition load_on_start ::
  "('s, 'b) persister \<Rightarrow> int \<Rightarrow> nat \<Rightarrow> nat \<Rightarrow> persister_state \<Rightarrow> 's \<Rightarrow>
   (persister_error + loaded_state) \<times> startup_task list \<times> persister_state \<times> 's" where
  "load_on_start pe now_ms n_snapshots_to_load_on_start file_id ps s =
     (case sequence_cutoff pe n_snapshots_to_load_on_start s of
        (cutoff, s1) \<Rightarrow>
          (case checkpoint_paths pe cutoff s1 of
             (paths, s2) \<Rightarrow>
               if paths \<noteq> []
               then (case load_from_checkpoints pe now_ms n_snapshots_to_load_on_start paths file_id ps s2 of
                       (r, ps', s3) \<Rightarrow> (r, [], ps', s3))
               else (case load_from_snapshots pe now_ms n_snapshots_to_load_on_start file_id s2 of
                       (r, tasks, s3) \<Rightarrow> (r, tasks, ps, s3))))"

primrec run_startup_task ::
  "('s, 'b) persister \<Rightarrow> startup_task \<Rightarrow> persister_state \<Rightarrow> 's \<Rightarrow> persister_task list \<times> persister_state \<times> 's" where
  "run_startup_task pe (BuildCheckpoints snapshots current_month) ps s =
     (case build_and_persist_checkpoints_from_snapshots pe snapshots current_month s of
        (current_checkpoint, tasks, s') \<Rightarrow>
          (tasks, case current_checkpoint of Some cp \<Rightarrow> warm_checkpoint_cache pe cp ps | None \<Rightarrow> ps, s'))"

section \<open>Histories and their checkpoints\<close>

lemma loaded_fields [simp]:
  "added_files (loaded pe x) = added_files x" "removed_files (loaded pe x) = removed_files x"
  "snapshot_wf (loaded pe x) = snapshot_wf x"
  "ps_wal_file_sequence_number (loaded pe x) = ps_wal_file_sequence_number x"
  "ps_next_file_id (loaded pe x) = ps_next_file_id x"
  by (simp_all add: loaded_def added_files_def removed_files_def snapshot_wf_def)

lemma history_sane_loaded: "history_sane (xs @ map (loaded pe) ys) = history_sane (xs @ ys)"
proof -
  have files: "map added_files (xs @ map (loaded pe) ys) = map added_files (xs @ ys)" by simp
  have order: "sorted_wrt (\<lambda>s s'. gid ` set (removed_files s) \<inter> gid ` set (added_files s') = {}) (xs @ map (loaded pe) ys) =
      sorted_wrt (\<lambda>s s'. gid ` set (removed_files s) \<inter> gid ` set (added_files s') = {}) (xs @ ys)"
    by (simp add: sorted_wrt_append sorted_wrt_map)
  have wf: "(\<forall>s \<in> set (xs @ map (loaded pe) ys). snapshot_wf s) = (\<forall>s \<in> set (xs @ ys). snapshot_wf s)"
    by (simp add: ball_Un)
  have pairs: "(\<forall>s \<in> set (xs @ map (loaded pe) ys). \<forall>s' \<in> set (xs @ map (loaded pe) ys). Q (added_files s) (removed_files s')) =
      (\<forall>s \<in> set (xs @ ys). \<forall>s' \<in> set (xs @ ys). Q (added_files s) (removed_files s'))" for Q
    by (simp add: ball_Un)
  show ?thesis
    unfolding history_sane_def files order wf
      pairs [of "\<lambda>a r. \<forall>x \<in> set a. \<forall>r \<in> set r. gid x = gid r \<longrightarrow> place x = place r"] ..
qed

lemma left_by_loaded: "left_by (xs @ map (loaded pe) ys) = left_by (xs @ ys)"
proof -
  have "foldl leave S (map (loaded pe) ys) = foldl leave S ys" for S
    by (induction ys arbitrary: S) (simp_all add: leave_def)
  then show ?thesis by (simp add: left_by_def)
qed

lemma lists_history_loaded: "lists_history m (xs @ map (loaded pe) ys) = lists_history m (xs @ ys)"
  by (simp only: lists_history_def left_by_loaded)

text \<open>The node's checkpoints cover the given months of its history: the latest checkpoint of each
  month is the one built from that month's manifests.\<close>

definition checkpoints_cover ::
  "('s, 'b) persister \<Rightarrow> (obj_path \<rightharpoonup> 'b stored_object) \<Rightarrow> (year_month \<times> nat) set \<Rightarrow> year_month list \<Rightarrow>
   persisted_snapshot list list \<Rightarrow> bool" where
  "checkpoints_cover pe c K yms months \<longleftrightarrow>
     checkpoints_in pe c K \<and> fst ` K = set yms \<and> length yms = length months \<and>
     sorted_wrt (\<lambda>a b. ym_key a < ym_key b) yms \<and>
     (\<forall>(ym, m) \<in> set (zip yms months). m \<noteq> [] \<and> (ym, ps_snapshot_sequence_number (last m)) \<in> K \<and>
        (\<forall>b. c (latest_checkpoint_path pe K ym) = Some b \<longrightarrow>
           from_slice_checkpoint (pe_codec pe) (so_body b) = Some (build_checkpoint (pe_prefix pe) ym m)))"

abbreviation marks :: "snapshot_checkpoint \<Rightarrow> nat \<times> nat option \<times> nat" where
  "marks cp \<equiv> (cp_last_snapshot_sequence_number cp, cp_next_file_id cp, cp_wal_file_sequence_number cp)"

lemma marks_add_files:
  "marks (fst (foldl (\<lambda>(cp, index) (d, t, f). (add_file d t f cp, hm_insert (pf_id f) (d, t) index)) a xs)) = marks (fst a)"
  by (induction xs arbitrary: a) (simp_all add: add_file_def split: prod.splits)

lemma marks_remove: "marks (snd (remove_file d t i cp)) = marks cp"
  by (auto simp: remove_file_def split: option.splits)

lemma marks_process: "marks (fst (foldl process_removed a rs)) = marks (fst a)"
  using marks_remove by (induction rs arbitrary: a)
    (simp_all add: process_removed_def add_pending_removed_def split: prod.splits option.splits)

lemma marks_snapshot:
  "marks (fst (checkpoint_snapshot a x)) =
     (ps_snapshot_sequence_number x, Some (ps_next_file_id x), ps_wal_file_sequence_number x)"
proof -
  obtain cp index where add: "add_snapshot_files (ps_databases x) (update_from_snapshot x (fst a), snd a) = (cp, index)"
    by fastforce
  have "marks cp = marks (update_from_snapshot x (fst a))"
    using marks_add_files [of "(update_from_snapshot x (fst a), snd a)" "tm_items (ps_databases x)"] add
    by (simp add: add_snapshot_files_def)
  moreover obtain cp' index' any where "foldl process_removed (cp, index, False) (tm_items (ps_removed_files x)) =
      (cp', index', any)" by (metis prod_cases3)
  moreover have "marks (update_from_snapshot x (fst a)) =
      (ps_snapshot_sequence_number x, Some (ps_next_file_id x), ps_wal_file_sequence_number x)"
    by (simp add: update_from_snapshot_def)
  ultimately show ?thesis
    using marks_process [of "(cp, index, False)" "tm_items (ps_removed_files x)"]
    by (simp add: checkpoint_snapshot_def add process_removed_files_def recalculate_time_range_def)
qed

lemma build_checkpoint_marks:
  "m \<noteq> [] \<Longrightarrow> marks (build_checkpoint node ym m) =
     (ps_snapshot_sequence_number (last m), Some (ps_next_file_id (last m)), ps_wal_file_sequence_number (last m))"
  by (cases m rule: rev_cases) (simp_all add: build_checkpoint_def marks_snapshot del: Pair_inject prod.inject)

lemma newest_of_sorted:
  assumes "cps \<noteq> []" and "sorted (map cp_last_snapshot_sequence_number cps)"
  shows "newest_checkpoint cps = Some (last cps)"
proof -
  let ?q = cp_last_snapshot_sequence_number
  have "foldl (\<lambda>m c. if ?q m \<le> ?q c then c else m) c cs = last (c # cs)" if "sorted (map ?q (c # cs))" for c cs
    using that by (induction cs arbitrary: c) auto
  from this [of "hd cps" "tl cps"] show ?thesis using assms by (cases cps) (simp_all add: newest_checkpoint_def)
qed

lemma sorted_months_unique:
  assumes "sorted_wrt (\<lambda>a b. ym_key a < ym_key b) xs" and "sorted_wrt (\<lambda>a b. ym_key a < ym_key b) ys"
    and "set xs = set ys"
  shows "xs = ys"
proof -
  have "sorted_wrt (<) (map ym_key xs)" "sorted_wrt (<) (map ym_key ys)"
    unfolding sorted_wrt_map using assms(1,2) by this
  then have "map ym_key xs = map ym_key ys"
    unfolding strict_sorted_iff using assms(3) by (intro sorted_distinct_set_unique) (simp_all only: set_map)
  then show ?thesis by (rule map_injective) (simp add: inj_def ym_key_inj)
qed

context object_store_reads
begin

lemma load_checkpoints_ok:
  assumes "load_checkpoints pe ps s = (r, s')" and "pe_store pe = st"
    and "list_all2 (\<lambda>p cp. \<forall>b. contents s p = Some b \<longrightarrow> from_slice_checkpoint (pe_codec pe) (so_body b) = Some cp) ps cps"
  shows "(r = Inr cps \<or> (\<exists>e. r = Inl (PersisterStore e))) \<and> contents s' = contents s"
  using assms(1,3)
proof (induction ps arbitrary: s r s' cps)
  case (Cons p ps)
  obtain cp cps' where cps: "cps = cp # cps'" using Cons.prems(2) by (auto simp: list_all2_Cons1)
  obtain r1 s1 where get: "os_get st p s = (r1, s1)" by fastforce
  have frame: "contents s1 = contents s" using get_frame [OF get] .
  show ?case
  proof (cases r1)
    case (Inl e)
    then show ?thesis using Cons.prems(1) get assms(2) frame by auto
  next
    case (Inr x)
    then have "from_slice_checkpoint (pe_codec pe) (so_body x) = Some cp"
      using Cons.prems(2) cps get_ok get by simp
    moreover obtain r2 s2 where rest: "load_checkpoints pe ps s1 = (r2, s2)" by fastforce
    moreover note Cons.IH [OF rest, of cps']
    ultimately show ?thesis using Cons.prems get Inr assms(2) frame cps by auto
  qed
qed simp

lemma cutoff_ok:
  assumes "sequence_cutoff pe n s = (cutoff, s')" and "pe_store pe = st" and "manifests_in pe (contents s) ss"
  shows "contents s' = contents s"
    and "cutoff = None \<or> (\<exists>x xs. ss = x # xs \<and> cutoff = Some (ps_snapshot_sequence_number x - n))"
proof -
  obtain r s1 where load: "load_snapshots pe 1 s = (r, s1)" by fastforce
  note ok = load_manifests [OF load assms(2,3)]
  have "s' = s1"
    using assms(1) load
    by (auto simp: sequence_cutoff_def get_latest_snapshot_sequence_def split: sum.splits list.splits)
  then show "contents s' = contents s" using ok(2) by simp
  show "cutoff = None \<or> (\<exists>x xs. ss = x # xs \<and> cutoff = Some (ps_snapshot_sequence_number x - n))"
    using assms(1) load ok(1)
    by (cases ss) (auto simp: sequence_cutoff_def get_latest_snapshot_sequence_def)
qed

end

section \<open>A restart\<close>

lemma manifests_in_order:
  "manifests_in pe c (rev h) \<Longrightarrow> sorted_wrt (<) (map ps_snapshot_sequence_number h)"
  by (simp add: manifests_in_def sorted_wrt_rev sorted_wrt_map)

text \<open>What a restart should know of a history: its files and the marks of its last manifest.\<close>

definition restarts_from :: "persisted_snapshot list \<Rightarrow> loaded_state \<Rightarrow> bool" where
  "restarts_from h ls \<longleftrightarrow> lists_history (pi_files (ls_persisted_files ls)) h \<and>
     (h \<noteq> [] \<longrightarrow> ls_last_wal_sequence_number ls = Some (ps_wal_file_sequence_number (last h)) \<and>
        ls_last_snapshot_sequence_number ls = Some (ps_snapshot_sequence_number (last h)) \<and>
        ls_next_file_id ls = ps_next_file_id (last h))"

lemma sorted_lasts:
  assumes "\<forall>m \<in> set ms. m \<noteq> []" and "sorted_wrt (<) (map f (concat ms))"
  shows "sorted (map (\<lambda>m. f (last m) :: nat) ms)"
  using assms
proof (induction ms)
  case (Cons m ms)
  have "f (last m) < f (last m')" if "m' \<in> set ms" for m'
  proof -
    have "last m \<in> set m" "last m' \<in> set m'" using Cons.prems(1) that by simp_all
    then show ?thesis using Cons.prems(2) that by (simp add: sorted_wrt_append)
  qed
  then show ?case using Cons by (auto simp: sorted_wrt_append intro: less_imp_le)
qed simp

lemma sequence_last_max:
  assumes "sorted_wrt (<) (map f xs)" and "x \<in> set xs"
  shows "f x \<le> (f (last xs) :: nat)"
  using assms by (cases xs rule: rev_cases) (auto simp: sorted_wrt_append)

lemma cover_checkpoints:
  assumes cover: "checkpoints_cover pe c K yms months" and ne: "months \<noteq> []"
    and sorted: "sorted_wrt (<) (map ps_snapshot_sequence_number (concat months @ rest))"
  shows "newest_checkpoint (map2 (build_checkpoint (pe_prefix pe)) yms months) =
      Some (build_checkpoint (pe_prefix pe) (last yms) (last months))"
    and "last months \<noteq> []" and "last (concat months) = last (last months)"
proof -
  let ?cps = "map2 (build_checkpoint (pe_prefix pe)) yms months"
  have len: "length yms = length months" using cover by (simp add: checkpoints_cover_def)
  have nonempty: "\<forall>m \<in> set months. m \<noteq> []"
  proof
    fix m
    assume "m \<in> set months"
    then obtain ym where "(ym, m) \<in> set (zip yms months)" using len by (metis in_set_impl_in_set_zip2)
    then show "m \<noteq> []" using cover by (auto simp: checkpoints_cover_def)
  qed
  have "map cp_last_snapshot_sequence_number ?cps = map (\<lambda>m. ps_snapshot_sequence_number (last m)) months"
    using len nonempty by (induction yms months rule: list_induct2) (simp_all add: build_checkpoint_marks [unfolded prod.inject])
  then have "sorted (map cp_last_snapshot_sequence_number ?cps)"
    using sorted_lasts [OF nonempty] sorted by (simp add: sorted_wrt_append)
  moreover have "?cps \<noteq> [] \<and> last ?cps = build_checkpoint (pe_prefix pe) (last yms) (last months)"
    using len ne by (induction yms months rule: list_induct2) auto
  ultimately show "newest_checkpoint ?cps = Some (build_checkpoint (pe_prefix pe) (last yms) (last months))"
    using newest_of_sorted by metis
  show "last months \<noteq> []" using nonempty ne by simp
  then show "last (concat months) = last (last months)" using ne by (cases months rule: rev_cases) auto
qed

context object_store_reads
begin

lemma additional_snapshots:
  assumes load: "load_snapshots_after pe q n s = (Inr xs, s')" and st: "pe_store pe = st"
    and m: "manifests_in pe (contents s) (rev (old @ rest))" and n: "length rest \<le> n"
    and "\<forall>x \<in> set old. ps_snapshot_sequence_number x \<le> q" and "\<forall>x \<in> set rest. q < ps_snapshot_sequence_number x"
  shows "xs = map (loaded pe) (rev rest)"
proof -
  obtain r s1 where run: "load_snapshots pe n s = (r, s1)" by fastforce
  have "r = Inr (map (loaded pe) (take n (rev (old @ rest))))"
    using load_manifests(1) [OF run st m] load run by (auto simp: load_snapshots_after_def)
  moreover have "take n (rev (old @ rest)) = rev rest @ take (n - length rest) (rev old)" using n by simp
  moreover have "\<forall>x \<in> set (take (n - length rest) (rev old)). ps_snapshot_sequence_number x \<le> q"
    using assms(5) by (auto dest: in_set_takeD)
  ultimately show ?thesis
    using load run assms(6)
    by (auto simp: load_snapshots_after_def filter_empty_conv filter_id_conv not_less)
qed

lemma restart_without_checkpoints:
  assumes load: "load_from_snapshots pe now_ms n file_id s = (Inr ls, tasks, s')" and st: "pe_store pe = st"
    and m: "manifests_in pe (contents s) (rev h)" and sane: "history_sane h" and n: "length h \<le> n"
  shows "restarts_from h ls"
proof -
  obtain r s1 where run: "load_snapshots pe n s = (r, s1)" by fastforce
  have r: "r = Inr (map (loaded pe) (rev h))"
    using load_manifests(1) [OF run st m] load run n by (auto simp: load_from_snapshots_def)
  have "history_sane (map (loaded pe) h)" using history_sane_loaded [of "[]" pe h] sane by simp
  moreover have "sorted_wrt (<) (map ps_snapshot_sequence_number (map (loaded pe) h))"
    using manifests_in_order [OF m] by (simp add: o_def)
  moreover have "mset (map (loaded pe) (rev h)) = mset (map (loaded pe) h)" by (simp flip: rev_map)
  ultimately have "lists_history (pi_files (new_from_persisted_snapshots (map (loaded pe) (rev h)))) (map (loaded pe) h)"
    by (rule snapshots_startup_list)
  then have files: "lists_history (pi_files (new_from_persisted_snapshots (map (loaded pe) (rev h)))) h"
    using lists_history_loaded [of _ "[]" pe h] by (simp only: append_Nil)
  have ls: "ls = \<lparr>ls_persisted_files = new_from_persisted_snapshots (map (loaded pe) (rev h)),
      ls_last_wal_sequence_number =
        (case map (loaded pe) (rev h) of [] \<Rightarrow> None | x # _ \<Rightarrow> Some (ps_wal_file_sequence_number x)),
      ls_last_snapshot_sequence_number =
        (case map (loaded pe) (rev h) of [] \<Rightarrow> None | x # _ \<Rightarrow> Some (ps_snapshot_sequence_number x)),
      ls_next_file_id =
        set_next_file_id (case map (loaded pe) (rev h) of [] \<Rightarrow> None | x # _ \<Rightarrow> Some (ps_next_file_id x)) file_id\<rparr>"
    using load unfolding load_from_snapshots_def run r by simp
  show ?thesis
  proof (cases h rule: rev_cases)
    case Nil
    then show ?thesis using files by (simp add: restarts_from_def ls)
  next
    case (snoc ys y)
    then have "map (loaded pe) (rev h) = loaded pe y # map (loaded pe) (rev ys)" by simp
    then show ?thesis unfolding restarts_from_def ls using files snoc
      by (simp add: set_next_file_id_def ParquetFileId_set_next_id_def)
  qed
qed

lemma restart_with_checkpoints:
  assumes load: "load_from_checkpoints pe now_ms n (map (latest_checkpoint_path pe K) yms) file_id ps s = (Inr ls, ps', s')"
    and st: "pe_store pe = st" and cover: "checkpoints_cover pe (contents s) K yms months" and ne: "months \<noteq> []"
    and m: "manifests_in pe (contents s) (rev (concat months @ rest))" and sane: "history_sane (concat months @ rest)"
    and n: "length rest \<le> n"
  shows "restarts_from (concat months @ rest) ls"
proof -
  let ?cps = "map2 (build_checkpoint (pe_prefix pe)) yms months"
  have len: "length yms = length months" and keys: "sorted_wrt (\<lambda>a b. ym_key a < ym_key b) yms"
    using cover by (simp_all add: checkpoints_cover_def)
  note sorted = manifests_in_order [OF m] and new = cover_checkpoints [OF cover ne manifests_in_order [OF m]]
  obtain r1 s1 where run: "load_checkpoints pe (map (latest_checkpoint_path pe K) yms) s = (r1, s1)" by fastforce
  have "list_all2 (\<lambda>p cp. \<forall>b. contents s p = Some b \<longrightarrow> from_slice_checkpoint (pe_codec pe) (so_body b) = Some cp)
      (map (latest_checkpoint_path pe K) yms) ?cps"
    unfolding list_all2_conv_all_nth
  proof (intro conjI allI impI)
    fix i b
    assume i: "i < length (map (latest_checkpoint_path pe K) yms)"
      and b: "contents s (map (latest_checkpoint_path pe K) yms ! i) = Some b"
    then have "(yms ! i, months ! i) \<in> set (zip yms months)" using len by (auto simp: in_set_zip)
    then show "from_slice_checkpoint (pe_codec pe) (so_body b) = Some (?cps ! i)"
      using cover i b len by (fastforce simp: checkpoints_cover_def)
  qed (use len in simp)
  from load_checkpoints_ok [OF run st this] load run
  have r1: "r1 = Inr ?cps" and frame: "contents s1 = contents s"
    by (auto simp: load_from_checkpoints_def)
  let ?q = "ps_snapshot_sequence_number (last (concat months))"
  obtain xs s2 where after: "load_snapshots_after pe ?q n s1 = (Inr xs, s2)"
    and ls: "last_sequences ?cps xs = (w, sq, i) \<Longrightarrow> ls = \<lparr>ls_persisted_files = new_from_checkpoints_and_snapshots ?cps xs,
       ls_last_wal_sequence_number = w, ls_last_snapshot_sequence_number = sq,
       ls_next_file_id = set_next_file_id i file_id\<rparr>" for w sq i
    using load run r1 new build_checkpoint_marks [OF new(2), of "pe_prefix pe" "last yms"]
    by (auto simp: load_from_checkpoints_def Let_def split: prod.splits sum.splits)
  have cne: "concat months \<noteq> []" using new(2) ne by (metis concat_eq_Nil_conv last_in_set)
  have "\<forall>x \<in> set (concat months). ps_snapshot_sequence_number x \<le> ?q"
    using sorted sequence_last_max [of ps_snapshot_sequence_number "concat months"] by (simp add: sorted_wrt_append)
  moreover have "\<forall>x \<in> set rest. ?q < ps_snapshot_sequence_number x"
    using sorted last_in_set [OF cne] unfolding map_append sorted_wrt_append by fastforce
  ultimately have xs: "xs = map (loaded pe) (rev rest)"
    using additional_snapshots [OF after st _ n, of "concat months"] m frame by simp
  have "lists_history (pi_files (new_from_checkpoints_and_snapshots ?cps xs)) (concat months @ map (loaded pe) rest)"
  proof (rule checkpoints_startup_list)
    show "history_sane (concat months @ map (loaded pe) rest)" using sane by (simp only: history_sane_loaded)
    show "sorted_wrt (<) (map ps_snapshot_sequence_number (concat months @ map (loaded pe) rest))"
      using sorted by (simp add: o_def)
    show "sorted_wrt (<) (map ym_key yms)" unfolding sorted_wrt_map by (rule keys)
    show "mset xs = mset (map (loaded pe) rest)" unfolding xs by (simp flip: rev_map)
  qed (simp_all add: len)
  then have files: "lists_history (pi_files (new_from_checkpoints_and_snapshots ?cps xs)) (concat months @ rest)"
    by (simp only: lists_history_loaded)
  show ?thesis
  proof (cases rest rule: rev_cases)
    case Nil
    then show ?thesis
      using files ls xs new build_checkpoint_marks [OF new(2), of "pe_prefix pe" "last yms"] cne
      by (auto simp: restarts_from_def last_sequences_def set_next_file_id_def ParquetFileId_set_next_id_def)
  next
    case (snoc ys y)
    then show ?thesis
      using files ls xs
      by (auto simp: restarts_from_def last_sequences_def set_next_file_id_def ParquetFileId_set_next_id_def)
  qed
qed

end

context object_store_reads
begin

lemma start_paths:
  assumes run: "checkpoint_paths pe cutoff s = (paths, s')" and st: "pe_store pe = st"
    and cover: "checkpoints_cover pe (contents s) K yms months"
    and window: "\<forall>k ym. cutoff = Some k \<and> ym \<in> set yms \<longrightarrow> (\<exists>n. (ym, n) \<in> K \<and> k \<le> n)"
  shows "(paths = map (latest_checkpoint_path pe K) yms \<or>
      paths = [] \<and> (\<exists>e. fst (os_list st (SnapshotCheckpointPath_dir (pe_prefix pe)) s) = Inl e)) \<and> contents s' = contents s"
proof -
  obtain r1 s1 where listed: "os_list st (SnapshotCheckpointPath_dir (pe_prefix pe)) s = (r1, s1)" by fastforce
  have "s' = s1" using run listed st
    by (auto simp: checkpoint_paths_def list_latest_checkpoints_per_month_def Let_def split: sum.splits if_splits)
  then have frame: "contents s' = contents s" using list_frame [OF listed] by simp
  show ?thesis
  proof (cases r1)
    case (Inl e)
    then have "paths = []" using run listed st
      by (auto simp: checkpoint_paths_def list_latest_checkpoints_per_month_def split: if_splits)
    then show ?thesis using Inl listed frame by auto
  next
    case (Inr xs)
    then obtain ps where ps: "list_latest_checkpoints_per_month pe cutoff s = (Inr ps, s1)"
      using listed st by (simp add: list_latest_checkpoints_per_month_def Let_def)
    have K: "checkpoints_in pe (contents s) K" "fst ` K = set yms" "sorted_wrt (\<lambda>a b. ym_key a < ym_key b) yms"
      using cover by (simp_all add: checkpoints_cover_def)
    have "fst (os_list (pe_store pe) (SnapshotCheckpointPath_dir (pe_prefix pe)) s) \<noteq> Inl NotFound"
      using listed Inr st by simp
    from latest_checkpoint_months [OF st K(1) ps this] obtain ms where ms:
      "ps = map (latest_checkpoint_path pe K) ms" "sorted_wrt (\<lambda>a b. ym_key a < ym_key b) ms" "set ms \<subseteq> fst ` K"
      "cutoff = None \<longrightarrow> set ms = fst ` K"
      "\<forall>m ym n. cutoff = Some m \<and> (ym, n) \<in> K \<and> m \<le> n \<longrightarrow> ym \<in> set ms"
      by (elim exE conjE)
    have "set yms \<subseteq> set ms"
    proof (cases cutoff)
      case None
      then show ?thesis using ms(4) K(2) by simp
    next
      case (Some k)
      then show ?thesis using window ms(5) by blast
    qed
    then have "set ms = set yms" using ms(3) K(2) by simp
    then have "ms = yms" by (rule sorted_months_unique [OF ms(2) K(3)])
    then show ?thesis using run ps ms(1) frame by (simp add: checkpoint_paths_def)
  qed
qed

lemma restart:
  assumes load: "load_on_start pe now_ms n file_id ps s = (Inr ls, tasks, ps', s')" and st: "pe_store pe = st"
    and cover: "checkpoints_cover pe (contents s) K yms months"
    and m: "manifests_in pe (contents s) (rev (concat months @ rest))" and sane: "history_sane (concat months @ rest)"
    and n: "length rest \<le> n"
    and window: "\<forall>ym \<in> set yms. \<exists>k. (ym, k) \<in> K \<and> ps_snapshot_sequence_number (last (concat months @ rest)) - n \<le> k"
    and answers: "length (concat months @ rest) \<le> n \<or>
      (\<forall>s e. fst (os_list st (SnapshotCheckpointPath_dir (pe_prefix pe)) s) \<noteq> Inl e)"
  shows "restarts_from (concat months @ rest) ls"
proof -
  let ?h = "concat months @ rest"
  obtain cutoff s1 where cut: "sequence_cutoff pe n s = (cutoff, s1)" by fastforce
  obtain paths s2 where paths: "checkpoint_paths pe cutoff s1 = (paths, s2)" by fastforce
  have frame1: "contents s1 = contents s" using cutoff_ok(1) [OF cut st m] .
  have "\<exists>j. (ym, j) \<in> K \<and> k \<le> j" if "cutoff = Some k" "ym \<in> set yms" for k ym
  proof -
    have "k = ps_snapshot_sequence_number (last ?h) - n"
      using cutoff_ok(2) [OF cut st m] that(1) by (cases ?h rule: rev_cases) auto
    then show ?thesis using window that(2) by blast
  qed
  then have win: "\<forall>k ym. cutoff = Some k \<and> ym \<in> set yms \<longrightarrow> (\<exists>j. (ym, j) \<in> K \<and> k \<le> j)" by blast
  note found = start_paths [OF paths st cover [folded frame1] win]
  then have frame2: "contents s2 = contents s" using frame1 by simp
  have len: "length yms = length months" using cover by (simp add: checkpoints_cover_def)
  show ?thesis
  proof (cases "paths = []")
    case True
    then have "length ?h \<le> n" using found answers len n by (cases "yms = []") auto
    moreover obtain s3 where "load_from_snapshots pe now_ms n file_id s2 = (Inr ls, tasks, s3)"
      using load cut paths True by (auto simp: load_on_start_def split: prod.splits)
    ultimately show ?thesis using restart_without_checkpoints [OF _ st _ sane] m frame2 by metis
  next
    case False
    then have eq: "paths = map (latest_checkpoint_path pe K) yms" using found by blast
    then have "months \<noteq> []" using False len by auto
    moreover obtain ps3 s3 where "load_from_checkpoints pe now_ms n paths file_id ps s2 = (Inr ls, ps3, s3)"
      using load cut paths False by (auto simp: load_on_start_def split: prod.splits)
    ultimately show ?thesis
      using restart_with_checkpoints [OF _ st _ _ _ sane n] m cover unfolding eq frame2 [symmetric] by blast
  qed
qed

end

section \<open>Claims\<close>

text \<open>Claim C1.  A restart that succeeds recovers what the node had made durable, under the conditions below: it
  lists exactly the files its manifests added and did not later remove, and resumes at the sequence
  numbers and the file identifier of its newest manifest.  The conditions: either there are no
  checkpoints, or the latest stored checkpoint of every month is what a build from the manifests of that
  month gives, and those months are the beginning of the history; the manifests after the
  checkpoints fit into the number loaded at start; the lookback window reaches every month that has a
  checkpoint; the listing of checkpoints answers, where there are more manifests than the load reads.
  The code does not ensure the second: a cache warmed at start, or a background build over manifests
  that only remove files, writes checkpoints that are not such builds.\<close>

theorem restart_recovers_durable_state:
  assumes "object_store_reads (pe_store pe) contents"
    and "load_on_start pe now_ms n file_id ps s = (Inr ls, tasks, ps', s')"
    and "checkpoints_cover pe (contents s) K yms months"
    and "manifests_in pe (contents s) (rev (concat months @ rest))" and "history_sane (concat months @ rest)"
    and "length rest \<le> n"
    and "\<forall>ym \<in> set yms. \<exists>k. (ym, k) \<in> K \<and> ps_snapshot_sequence_number (last (concat months @ rest)) - n \<le> k"
    and "length (concat months @ rest) \<le> n \<or>
      (\<forall>s e. fst (os_list (pe_store pe) (SnapshotCheckpointPath_dir (pe_prefix pe)) s) \<noteq> Inl e)"
  shows "set (persisted_get_files (ls_persisted_files ls) d t) = {f. (d, t, f) \<in> left_by (concat months @ rest)} \<and>
    (concat months @ rest \<noteq> [] \<longrightarrow>
       ls_last_wal_sequence_number ls = Some (ps_wal_file_sequence_number (last (concat months @ rest))) \<and>
       ls_last_snapshot_sequence_number ls = Some (ps_snapshot_sequence_number (last (concat months @ rest))) \<and>
       ls_next_file_id ls = ps_next_file_id (last (concat months @ rest)))"
proof -
  have "restarts_from (concat months @ rest) ls"
    by (rule object_store_reads.restart [OF assms(1,2) refl assms(3-8)])
  then show ?thesis by (simp add: restarts_from_def lists_history_def)
qed

text \<open>Witness: a month with one manifest and its checkpoint, and a later manifest that removes the
  file of the first.\<close>

definition restart_month :: year_month where
  "restart_month = \<lparr>ym_year = 2025, ym_month = 2\<rparr>"

definition restart_old :: persisted_snapshot where
  "restart_old = pf_snapshot 2 [pf_file 2 ''a'' 3] []"

definition restart_new :: persisted_snapshot where
  "restart_new = pf_snapshot 3 [pf_file 3 ''b'' 4] [pf_file 2 ''a'' 3]"

definition restart_store :: "persisted_object mem" where
  "restart_store =
     [(SnapshotInfoFilePath_new ''node'' 2, \<lparr>so_body = Inl restart_old, so_attrs = []\<rparr>),
      (SnapshotCheckpointPath_new ''node'' restart_month 2,
       \<lparr>so_body = Inr (build_checkpoint ''node'' restart_month [restart_old]), so_attrs = []\<rparr>),
      (SnapshotInfoFilePath_new ''node'' 3, \<lparr>so_body = Inl restart_new, so_attrs = []\<rparr>)]"

lemma restart_seqs [simp]:
  "ps_snapshot_sequence_number restart_old = 2" "ps_snapshot_sequence_number restart_new = 3"
  by (simp_all add: restart_old_def restart_new_def pf_snapshot_def PersistedSnapshot_new_def)

lemma restart_paths:
  "under (SnapshotCheckpointPath_dir ''node'') (SnapshotCheckpointPath_new ''node'' restart_month 2)"
  "\<not> under (SnapshotCheckpointPath_dir ''node'') (SnapshotInfoFilePath_new ''node'' n)"
  "SnapshotInfoFilePath_new ''node'' 3 < SnapshotInfoFilePath_new ''node'' 2"
  "SnapshotInfoFilePath_new ''node'' n \<noteq> SnapshotCheckpointPath_new ''node'' restart_month k"
proof -
  show "under (SnapshotCheckpointPath_dir ''node'') (SnapshotCheckpointPath_new ''node'' restart_month 2)"
    and "\<not> under (SnapshotCheckpointPath_dir ''node'') (SnapshotInfoFilePath_new ''node'' n)"
    by (simp_all add: SnapshotCheckpointPath_dir_def SnapshotCheckpointPath_new_def SnapshotInfoFilePath_new_def under_def)
  show "SnapshotInfoFilePath_new ''node'' 3 < SnapshotInfoFilePath_new ''node'' 2"
    by (simp add: snapshot_name_less u64_max_def)
  show "SnapshotInfoFilePath_new ''node'' n \<noteq> SnapshotCheckpointPath_new ''node'' restart_month k"
    using checkpoint_path_not_manifest manifest_path_under by metis
qed

lemma restart_manifests: "manifests_in (mem_persister None) (map_of restart_store) [restart_new, restart_old]"
proof -
  have "{p. map_of restart_store p \<noteq> None \<and> under (SnapshotInfoFilePath_dir ''node'') p} =
      {SnapshotInfoFilePath_new ''node'' 3, SnapshotInfoFilePath_new ''node'' 2}"
    using restart_paths(4) by (auto simp: restart_store_def split: if_splits)
  then show ?thesis
    using restart_paths(3,4) by (auto simp: manifests_in_def mem_persister_def u64_max_def restart_store_def plain_codec_def
        split: if_splits dest: less_imp_neq)
qed

lemma restart_cover:
  "checkpoints_cover (mem_persister None) (map_of restart_store) {(restart_month, 2)} [restart_month] [[restart_old]]"
proof -
  have "{p. map_of restart_store p \<noteq> None \<and> under (SnapshotCheckpointPath_dir ''node'') p} =
      {SnapshotCheckpointPath_new ''node'' restart_month 2}"
    using restart_paths by (auto simp: restart_store_def split: if_splits)
  then show ?thesis
    using restart_paths by (auto simp: checkpoints_cover_def checkpoints_in_def mem_persister_def u64_max_def
        restart_month_def ym_ok_def latest_checkpoint_path_def restart_store_def plain_codec_def)
qed

lemma restart_history: "history_sane ([restart_old] @ [restart_new])"
  by (simp add: restart_old_def restart_new_def history_sane_def snapshot_wf_def tm_wf_def pf_snapshot_def
      PersistedSnapshot_new_def added_files_def removed_files_def tm_items_def)

lemma restart_load_snapshots:
  assumes "0 < n" and "n < 1000"
  shows "load_snapshots (mem_persister None) n restart_store =
    (Inr (map (loaded (mem_persister None)) (take n [restart_new, restart_old])), restart_store)"
proof -
  let ?pe = "mem_persister None" and ?p = "SnapshotInfoFilePath_new ''node''"
  have "sort [?p 2, ?p 3] = [?p 3, ?p 2]" using restart_paths(3) by auto
  moreover have "list_manifests ?pe None restart_store = (Inr [?p 2, ?p 3], restart_store)"
    using restart_paths(3) by (auto simp: list_manifests_def mem_persister_def restart_store_def)
  ultimately have "manifest_paths ?pe n None restart_store = (Inr (take n [?p 3, ?p 2]), restart_store)"
    using assms by (simp add: manifest_paths.simps [of _ n] manifest_paths.simps [of _ 0])
  moreover have "get_snapshot ?pe (?p 3) restart_store = (Inr (loaded ?pe restart_new), restart_store)"
    "get_snapshot ?pe (?p 2) restart_store = (Inr (loaded ?pe restart_old), restart_store)"
    using restart_paths(3,4) by (auto simp: get_snapshot_def mem_persister_def restart_store_def plain_codec_def loaded_def)
  moreover have "n = 1 \<or> 2 \<le> n" using assms(1) by auto
  ultimately show ?thesis by (auto simp: load_snapshots_def)
qed

lemma restart_loads: "\<exists>ls tasks ps' s'. load_on_start (mem_persister None) 0 5 0 persister_state_new restart_store = (Inr ls, tasks, ps', s')"
proof -
  let ?pe = "mem_persister None" and ?p = "SnapshotCheckpointPath_new ''node'' restart_month 2"
  let ?cp = "build_checkpoint ''node'' restart_month [restart_old]"
  have cutoff: "sequence_cutoff ?pe 5 restart_store = (Some 0, restart_store)"
    using restart_load_snapshots [of 1] by (simp add: sequence_cutoff_def get_latest_snapshot_sequence_def)
  have month: "checkpoint_path_year_month ?p = Some restart_month"
    by (rule checkpoint_name_month) (simp add: ym_ok_def restart_month_def)
  have "os_list mem_store (SnapshotCheckpointPath_dir ''node'') restart_store = (Inr [?p], restart_store)"
    using restart_paths by (simp add: restart_store_def)
  then have paths: "checkpoint_paths ?pe (Some 0) restart_store = ([?p], restart_store)"
    using checkpoint_name_parse [of 2 "''node''" restart_month] month
    by (simp add: checkpoint_paths_def list_latest_checkpoints_per_month_def mem_persister_def latest_per_month_def
        hm_upd_def u64_max_def)
  have cps: "load_checkpoints ?pe [?p] restart_store = (Inr [?cp], restart_store)"
    using restart_paths(4) [symmetric] by (simp add: mem_persister_def restart_store_def plain_codec_def)
  have "cp_last_snapshot_sequence_number ?cp = 2"
    using build_checkpoint_marks [of "[restart_old]" "''node''" restart_month] by simp
  then show ?thesis
    using restart_load_snapshots [of 5]
    by (simp add: load_on_start_def cutoff paths load_from_checkpoints_def cps newest_checkpoint_def
        load_snapshots_after_def Let_def split_beta del: load_checkpoints.simps)
qed

theorem restart_recovers_durable_state_witness:
  "\<exists>ls tasks ps' s'. load_on_start (mem_persister None) 0 5 0 persister_state_new restart_store = (Inr ls, tasks, ps', s') \<and>
     set (persisted_get_files (ls_persisted_files ls) 1 2) = {f. (1, 2, f) \<in> left_by [restart_old, restart_new]} \<and>
     ls_last_snapshot_sequence_number ls = Some 3"
proof -
  let ?pe = "mem_persister None"
  obtain ls tasks ps' s' where load: "load_on_start ?pe 0 5 0 persister_state_new restart_store = (Inr ls, tasks, ps', s')"
    using restart_loads by blast
  have "object_store_reads (pe_store ?pe) map_of" by (simp add: mem_persister_def mem.object_store_reads_axioms)
  from restart_recovers_durable_state [OF this load restart_cover, of "[restart_new]" 1 2] load
  show ?thesis using restart_manifests restart_history by simp
qed

end
