(* ===== verification/Publisher.thy ===== *)
theory Publisher
  imports File_Index_Log Startup
begin

text \<open>
  The publisher (\<open>influxdb3_cluster/src/file_index/publisher.rs\<close>): a node that ingests drains its own
  snapshot manifests above its published watermark into the shared log, oldest first, as one entry
  of per-table deltas.  The task around it calls \<open>publish_pending\<close> at its start, on every tick and on
  every announced snapshot, and logs the errors; a sequence of passes is a sequence of calls.

  The correctness statement joins two histories: the ghost history of the log and the node's
  manifests in the object store.
\<close>

section \<open>Operations\<close>

definition MAX_MANIFESTS_PER_PASS :: nat where
  "MAX_MANIFESTS_PER_PASS = 256"

definition blank_delta :: "persisted_snapshot \<Rightarrow> db_id \<times> table_id \<Rightarrow> file_index_delta" where
  "blank_delta x k =
     \<lparr>fd_node_id = ps_node_id x, fd_db_id = fst k, fd_table_id = snd k,
      fd_snapshot_sequence = ps_snapshot_sequence_number x, fd_added = [], fd_removed = []\<rparr>"

text \<open>The nested loops over databases and tables, with the key of each table.\<close>

definition tables_of :: "'a table_map \<Rightarrow> ((db_id \<times> table_id) \<times> 'a list) list" where
  "tables_of m = concat (map (\<lambda>(d, ts). map (\<lambda>(t, fs). ((d, t), fs)) ts) m)"

definition extend_removed ::
  "persisted_snapshot \<Rightarrow> (db_id \<times> table_id, file_index_delta) hash_map \<Rightarrow> (db_id \<times> table_id) \<times> parquet_file list \<Rightarrow>
   (db_id \<times> table_id, file_index_delta) hash_map" where
  "extend_removed x by_table kfs =
     (case kfs of (k, fs) \<Rightarrow>
        hm_upd (blank_delta x k) k (\<lambda>dl. dl\<lparr>fd_removed := fd_removed dl @ map pf_path fs\<rparr>) by_table)"

definition extend_added ::
  "persisted_snapshot \<Rightarrow> (db_id \<times> table_id, file_index_delta) hash_map \<Rightarrow> (db_id \<times> table_id) \<times> parquet_file list \<Rightarrow>
   (db_id \<times> table_id, file_index_delta) hash_map" where
  "extend_added x by_table kfs =
     (case kfs of (k, fs) \<Rightarrow>
        hm_upd (blank_delta x k) k (\<lambda>dl. dl\<lparr>fd_added := fd_added dl @ fs\<rparr>) by_table)"

definition deltas_from_snapshot :: "persisted_snapshot \<Rightarrow> file_index_delta list" where
  "deltas_from_snapshot x =
     map snd (foldl (extend_added x) (foldl (extend_removed x) [] (tables_of (ps_removed_files x)))
       (tables_of (ps_databases x)))"

definition publish_pending ::
  "node_name \<Rightarrow> ('s, 'b) persister \<Rightarrow> ('s, 'b) file_index_log \<Rightarrow> (nat \<Rightarrow> string) \<Rightarrow> file_index \<Rightarrow> 's \<Rightarrow>
   (file_index_log_error + unit) \<times> file_index \<times> 's" where
  "publish_pending node pe lg nonces i s =
     (case sync lg i s of
        (Inl e, i1, s1) \<Rightarrow> (Inl e, i1, s1)
      | (Inr n, i1, s1) \<Rightarrow>
          (let watermark = published_watermark i1 node
           in case (case watermark of
                      Some q \<Rightarrow> load_snapshots_after pe q MAX_MANIFESTS_PER_PASS s1
                    | None \<Rightarrow> load_snapshots pe MAX_MANIFESTS_PER_PASS s1) of
                (Inl e, s2) \<Rightarrow> (Inl (ObjectStoreError Generic), i1, s2)
              | (Inr manifests, s2) \<Rightarrow>
                  if manifests = [] then (Inr (), i1, s2)
                  else
                    let unpublished = filter (\<lambda>x. case watermark of None \<Rightarrow> True
                                    | Some q \<Rightarrow> \<not> ps_snapshot_sequence_number x \<le> q)
                                    (sort_key ps_snapshot_sequence_number manifests);
                        deltas = concat (map deltas_from_snapshot unpublished)
                    in if deltas = [] then (Inr (), i1, s2)
                       else case append_deltas lg nonces deltas i1 s2 of
                              (Inl e, i2, s3) \<Rightarrow> (Inl e, i2, s3)
                            | (Inr q, i2, s3) \<Rightarrow> (Inr (), i2, s3)))"

section \<open>The deltas of a manifest\<close>

abbreviation removed_of :: "(db_id \<times> table_id, file_index_delta) hash_map \<Rightarrow> db_id \<times> table_id \<Rightarrow> obj_path list" where
  "removed_of m k \<equiv> (case map_of m k of None \<Rightarrow> [] | Some dl \<Rightarrow> fd_removed dl)"

abbreviation added_of :: "(db_id \<times> table_id, file_index_delta) hash_map \<Rightarrow> db_id \<times> table_id \<Rightarrow> parquet_file list" where
  "added_of m k \<equiv> (case map_of m k of None \<Rightarrow> [] | Some dl \<Rightarrow> fd_added dl)"

text \<open>Every delta sits under its own key and carries the manifest's node and sequence number.\<close>

definition keyed :: "persisted_snapshot \<Rightarrow> (db_id \<times> table_id, file_index_delta) hash_map \<Rightarrow> bool" where
  "keyed x m \<longleftrightarrow> keys_distinct m \<and>
     (\<forall>(k, dl) \<in> set m. (fd_db_id dl, fd_table_id dl) = k \<and> fd_node_id dl = ps_node_id x \<and>
        fd_snapshot_sequence dl = ps_snapshot_sequence_number x)"

lemma keyed_upd:
  assumes "keyed x m" and "\<And>dl. (fd_db_id (f dl), fd_table_id (f dl)) = (fd_db_id dl, fd_table_id dl) \<and>
      fd_node_id (f dl) = fd_node_id dl \<and> fd_snapshot_sequence (f dl) = fd_snapshot_sequence dl"
  shows "keyed x (hm_upd (blank_delta x k) k f m)"
proof -
  let ?P = "\<lambda>k dl. (fd_db_id dl, fd_table_id dl) = k \<and> fd_node_id dl = ps_node_id x \<and>
        fd_snapshot_sequence dl = ps_snapshot_sequence_number x"
  have "?P k' dl" if "(k', dl) \<in> set (hm_upd (blank_delta x k) k f m)" for k' dl
    using hm_entry_values [OF that [unfolded hm_upd_def]] assms
    by (auto simp: keyed_def blank_delta_def split: option.splits)
  then show ?thesis using assms(1) by (auto simp: keyed_def)
qed

lemma keyed_extend:
  "keyed x m \<Longrightarrow> keyed x (extend_removed x m z)" "keyed x m \<Longrightarrow> keyed x (extend_added x m z)"
  unfolding extend_removed_def extend_added_def by (cases z; simp add: keyed_upd)+

lemma keyed_fold:
  "keyed x m \<Longrightarrow> keyed x (foldl (extend_removed x) m zs)" "keyed x m \<Longrightarrow> keyed x (foldl (extend_added x) m zs)"
  by (induction zs arbitrary: m) (simp_all add: keyed_extend)

lemma extend_at:
  "removed_of (extend_removed x m (k', fs)) k = removed_of m k @ (if k' = k then map pf_path fs else [])"
  "added_of (extend_removed x m (k', fs)) k = added_of m k"
  "removed_of (extend_added x m (k', fs)) k = removed_of m k"
  "added_of (extend_added x m (k', fs)) k = added_of m k @ (if k' = k then fs else [])"
  by (cases "map_of m k"; cases "k = k'";
      simp add: extend_removed_def extend_added_def hm_upd_def map_of_hm_entry blank_delta_def)+

lemma fold_removed:
  "removed_of (foldl (extend_removed x) m zs) k =
     removed_of m k @ map pf_path (concat (map snd (filter (\<lambda>(k', fs). k' = k) zs)))"
  "added_of (foldl (extend_removed x) m zs) k = added_of m k"
  by (induction zs arbitrary: m) (auto simp: extend_at)

lemma fold_added:
  "added_of (foldl (extend_added x) m zs) k =
     added_of m k @ concat (map snd (filter (\<lambda>(k', fs). k' = k) zs))"
  "removed_of (foldl (extend_added x) m zs) k = removed_of m k"
  by (induction zs arbitrary: m) (auto simp: extend_at)

lemma keys_extend:
  "fst ` set (extend_removed x m z) = insert (fst z) (fst ` set m)"
  "fst ` set (extend_added x m z) = insert (fst z) (fst ` set m)"
  by (cases z; simp add: extend_removed_def extend_added_def hm_upd_def)+

lemma keys_fold:
  "fst ` set (foldl (extend_removed x) m zs) = fst ` set m \<union> fst ` set zs"
  "fst ` set (foldl (extend_added x) m zs) = fst ` set m \<union> fst ` set zs"
  by (induction zs arbitrary: m) (simp_all add: keys_extend)

lemma tables_of_at:
  assumes "tm_wf m"
  shows "concat (map snd (filter (\<lambda>(k, fs). k = (d, t)) (tables_of m))) = tm_get m d t"
proof -
  let ?item = "\<lambda>((d, t), fs). map (\<lambda>x. (d, t, x)) fs"
  have items: "tm_items m = concat (map ?item (tables_of m))"
    unfolding tm_items_def tables_of_def by (induction m) (simp_all add: o_def case_prod_unfold)
  have "filter (\<lambda>(d', t', x). d' = d \<and> t' = t) (concat (map ?item zs)) =
      map (\<lambda>x. (d, t, x)) (concat (map snd (filter (\<lambda>(k, fs). k = (d, t)) zs)))" for zs :: "((nat \<times> nat) \<times> 'a list) list"
    by (induction zs) (auto simp: filter_map o_def split: prod.splits)
  then have "map (\<lambda>x. (d, t, x)) (concat (map snd (filter (\<lambda>(k, fs). k = (d, t)) (tables_of m)))) =
      map (\<lambda>x. (d, t, x)) (tm_get m d t)"
    using tm_items_at [OF assms, of d t] items by metis
  then show ?thesis by (rule map_injective) (simp add: inj_def)
qed

text \<open>What a manifest says of a table.\<close>

abbreviation gone_from :: "persisted_snapshot \<Rightarrow> db_id \<Rightarrow> table_id \<Rightarrow> obj_path set" where
  "gone_from x d t \<equiv> pf_path ` set (tm_get (ps_removed_files x) d t)"

definition delta_map :: "persisted_snapshot \<Rightarrow> (db_id \<times> table_id, file_index_delta) hash_map" where
  "delta_map x = foldl (extend_added x) (foldl (extend_removed x) [] (tables_of (ps_removed_files x)))
     (tables_of (ps_databases x))"

lemma deltas_delta_map: "deltas_from_snapshot x = map snd (delta_map x)"
  by (simp add: deltas_from_snapshot_def delta_map_def)

lemma delta_map_keyed: "keyed x (delta_map x)"
  unfolding delta_map_def by (intro keyed_fold) (simp add: keyed_def)

lemma delta_map_at:
  assumes "snapshot_wf x"
  shows "added_of (delta_map x) (d, t) = added_to x d t"
    and "set (removed_of (delta_map x) (d, t)) = gone_from x d t"
  using assms tables_of_at [of "ps_databases x" d t] tables_of_at [of "ps_removed_files x" d t]
  by (simp_all add: delta_map_def fold_added fold_removed added_to_def snapshot_wf_def del: map_concat)

lemma live_block:
  assumes "keys_distinct m" and "\<forall>(k, dl) \<in> set m. (fd_db_id dl, fd_table_id dl) = k \<and> fd_node_id dl = node"
  shows "live_path (ds @ map (Pair q) (map snd m)) node d t p \<longleftrightarrow>
    p \<in> pf_path ` set (added_of m (d, t)) \<or> live_path ds node d t p \<and> p \<notin> set (removed_of m (d, t))"
  using assms
proof (induction m rule: rev_induct)
  case Nil
  then show ?case by simp
next
  case (snoc z m)
  obtain k dl where z: "z = (k, dl)" by (cases z)
  have at: "delta_at node d t dl \<longleftrightarrow> k = (d, t)" using snoc.prems(2) z by (auto simp: delta_at_def)
  have new: "k \<notin> fst ` set m" using snoc.prems(1) z by auto
  have ih: "live_path (ds @ map (Pair q) (map snd m)) node d t p \<longleftrightarrow>
      p \<in> pf_path ` set (added_of m (d, t)) \<or> live_path ds node d t p \<and> p \<notin> set (removed_of m (d, t))"
    using snoc by simp
  show ?case
  proof (cases "k = (d, t)")
    case True
    then have "map_of m (d, t) = None" using new by (simp add: map_of_eq_None_iff)
    then show ?thesis using ih at True z
      by (simp add: live_path_snoc append_assoc [symmetric] map_add_def del: append_assoc)
  next
    case False
    then show ?thesis using ih at z
      by (simp add: live_path_snoc append_assoc [symmetric] map_add_def del: append_assoc split: option.splits)
  qed
qed

section \<open>Live paths of a sequence of manifests\<close>

text \<open>A path is live after a sequence of manifests when one of them added it and no later one
  removed it.\<close>

definition manifest_live :: "persisted_snapshot list \<Rightarrow> db_id \<Rightarrow> table_id \<Rightarrow> obj_path \<Rightarrow> bool" where
  "manifest_live ss d t p \<longleftrightarrow> (\<exists>before x after. ss = before @ x # after \<and>
     p \<in> pf_path ` set (added_to x d t) \<and> (\<forall>y \<in> set after. p \<notin> gone_from y d t))"

lemma manifest_live_Nil [simp]: "\<not> manifest_live [] d t p"
  by (simp add: manifest_live_def)

lemma manifest_live_snoc:
  "manifest_live (ss @ [x]) d t p \<longleftrightarrow>
     p \<in> pf_path ` set (added_to x d t) \<or> manifest_live ss d t p \<and> p \<notin> gone_from x d t" (is "?l \<longleftrightarrow> ?r")
proof
  assume ?l
  then obtain b y a where *: "ss @ [x] = b @ y # a" "p \<in> pf_path ` set (added_to y d t)"
    "\<forall>y \<in> set a. p \<notin> gone_from y d t" unfolding manifest_live_def by blast
  show ?r
  proof (cases a rule: rev_cases)
    case Nil
    then show ?thesis using * by simp
  next
    case (snoc a' z)
    then have ss: "ss = b @ y # a'" "z = x" using *(1) by auto
    then have "manifest_live ss d t p" unfolding manifest_live_def using *(2,3) snoc
      by (intro exI [of _ b] exI [of _ y] exI [of _ a']) simp
    then show ?thesis using *(3) snoc ss(2) by simp
  qed
next
  assume ?r
  then show ?l
  proof
    assume "p \<in> pf_path ` set (added_to x d t)"
    then show ?l unfolding manifest_live_def by (intro exI [of _ ss] exI [of _ x] exI [of _ "[]"]) simp
  next
    assume "manifest_live ss d t p \<and> p \<notin> gone_from x d t"
    then obtain b y a where "ss = b @ y # a" "p \<in> pf_path ` set (added_to y d t)"
      "\<forall>y \<in> set a. p \<notin> gone_from y d t" "p \<notin> gone_from x d t" unfolding manifest_live_def by blast
    then show ?l unfolding manifest_live_def by (intro exI [of _ b] exI [of _ y] exI [of _ "a @ [x]"]) auto
  qed
qed

lemma manifest_live_append:
  "manifest_live (ss @ ys) d t p \<longleftrightarrow>
     manifest_live ys d t p \<or> manifest_live ss d t p \<and> (\<forall>y \<in> set ys. p \<notin> gone_from y d t)"
proof (induction ys rule: rev_induct)
  case (snoc y ys)
  show ?case unfolding append_assoc [symmetric] manifest_live_snoc snoc.IH by auto
qed simp

lemma live_manifests:
  assumes "\<forall>x \<in> set ys. snapshot_wf x \<and> ps_node_id x = node"
  shows "live_path (ds @ map (Pair q) (concat (map deltas_from_snapshot ys))) node d t p \<longleftrightarrow>
    manifest_live ys d t p \<or> live_path ds node d t p \<and> (\<forall>y \<in> set ys. p \<notin> gone_from y d t)"
  using assms
proof (induction ys rule: rev_induct)
  case (snoc y ys)
  have block: "live_path (ds' @ map (Pair q) (deltas_from_snapshot y)) node d t p \<longleftrightarrow>
      p \<in> pf_path ` set (added_to y d t) \<or> live_path ds' node d t p \<and> p \<notin> gone_from y d t" for ds'
  proof -
    have y: "snapshot_wf y" "ps_node_id y = node" using snoc.prems by simp_all
    have "keys_distinct (delta_map y)" and "\<forall>(k, dl) \<in> set (delta_map y). (fd_db_id dl, fd_table_id dl) = k \<and> fd_node_id dl = node"
      using delta_map_keyed [of y] y(2) unfolding keyed_def by blast+
    from live_block [OF this, of ds' q d t p] show ?thesis
      unfolding deltas_delta_map delta_map_at [OF y(1)] .
  qed
  have "live_path ((ds @ map (Pair q) (concat (map deltas_from_snapshot ys))) @ map (Pair q) (deltas_from_snapshot y)) node d t p \<longleftrightarrow>
      manifest_live (ys @ [y]) d t p \<or> live_path ds node d t p \<and> (\<forall>z \<in> set (ys @ [y]). p \<notin> gone_from z d t)"
    unfolding block manifest_live_snoc using snoc by auto
  then show ?case by simp
qed simp

lemma repeated_snoc:
  "repeated h deltas (Suc k) = repeated h deltas k @ [\<lparr>le_sequence = length h + 1 + k, le_deltas = deltas\<rparr>]"
  by (simp add: repeated_def)

lemma log_deltas_snoc: "log_deltas (es @ [e]) = log_deltas es @ map (Pair (le_sequence e)) (le_deltas e)"
  by (simp add: log_deltas_def)

lemma live_repeated:
  assumes "\<forall>x \<in> set ys. snapshot_wf x \<and> ps_node_id x = node" and "1 \<le> k"
  shows "live_path (log_deltas (repeated h (concat (map deltas_from_snapshot ys)) k)) node d t p \<longleftrightarrow>
    manifest_live ys d t p \<or> live_path (log_deltas h) node d t p \<and> (\<forall>y \<in> set ys. p \<notin> gone_from y d t)"
  using assms(2)
proof (induction k rule: nat_induct_at_least)
  case base
  show ?case
    using live_manifests [OF assms(1), of "log_deltas h"] repeated_snoc [of h _ 0] by (simp add: log_deltas_snoc)
next
  case (Suc k)
  show ?case
    unfolding repeated_snoc log_deltas_snoc file_index_log_entry.simps live_manifests [OF assms(1)] Suc.IH by blast
qed

section \<open>Watermarks\<close>

definition log_watermark :: "file_index_log_entry list \<Rightarrow> node_name \<Rightarrow> nat option" where
  "log_watermark h node = list_max (map fd_snapshot_sequence (filter (\<lambda>x. fd_node_id x = node) (map snd (log_deltas h))))"

definition manifest_watermark :: "persisted_snapshot list \<Rightarrow> nat option" where
  "manifest_watermark ss = list_max (map ps_snapshot_sequence_number (filter (\<lambda>x. deltas_from_snapshot x \<noteq> []) ss))"

lemma list_max_set_cong: "set xs = set ys \<Longrightarrow> list_max xs = list_max (ys :: nat list)"
proof (cases "list_max ys")
  case (Some m)
  moreover assume eq: "set xs = set ys"
  moreover have "xs \<noteq> []" using eq Some by auto
  ultimately show ?thesis using list_max_Some [of xs m] list_max_Some [of ys m] by simp
qed auto

lemma deltas_sequences:
  assumes "\<forall>x \<in> set ys. ps_node_id x = node"
  shows "fd_snapshot_sequence ` {dl \<in> set (concat (map deltas_from_snapshot ys)). fd_node_id dl = node} =
    ps_snapshot_sequence_number ` {x \<in> set ys. deltas_from_snapshot x \<noteq> []}"
proof -
  have each: "fd_node_id dl = ps_node_id x \<and> fd_snapshot_sequence dl = ps_snapshot_sequence_number x"
    if "dl \<in> set (deltas_from_snapshot x)" for x dl
    using delta_map_keyed [of x] that unfolding deltas_delta_map keyed_def by auto
  show ?thesis
  proof (intro equalityI subsetI)
    fix q
    assume "q \<in> fd_snapshot_sequence ` {dl \<in> set (concat (map deltas_from_snapshot ys)). fd_node_id dl = node}"
    then obtain x dl where "x \<in> set ys" "dl \<in> set (deltas_from_snapshot x)" "q = fd_snapshot_sequence dl" by auto
    then show "q \<in> ps_snapshot_sequence_number ` {x \<in> set ys. deltas_from_snapshot x \<noteq> []}" using each by fastforce
  next
    fix q
    assume "q \<in> ps_snapshot_sequence_number ` {x \<in> set ys. deltas_from_snapshot x \<noteq> []}"
    then obtain x where x: "x \<in> set ys" "deltas_from_snapshot x \<noteq> []" "q = ps_snapshot_sequence_number x" by auto
    then have "hd (deltas_from_snapshot x) \<in> set (deltas_from_snapshot x)" by simp
    moreover from this have "hd (deltas_from_snapshot x) \<in> set (concat (map deltas_from_snapshot ys))"
      unfolding set_concat set_map image_image using x(1) by (intro UN_I [of x]) simp_all
    ultimately show "q \<in> fd_snapshot_sequence ` {dl \<in> set (concat (map deltas_from_snapshot ys)). fd_node_id dl = node}"
      using each [of "hd (deltas_from_snapshot x)" x] x(1,3) assms by force
  qed
qed

lemma watermark_repeated:
  assumes "\<forall>x \<in> set ys. ps_node_id x = node" and "1 \<le> k"
  shows "log_watermark (repeated h (concat (map deltas_from_snapshot ys)) k) node = opt_max (log_watermark h node) (manifest_watermark ys)"
proof -
  let ?D = "concat (map deltas_from_snapshot ys)" and ?sq = fd_snapshot_sequence
  have "snd ` set (log_deltas (repeated h ?D k)) = snd ` set (log_deltas h) \<union> set ?D"
    using assms(2)
  proof (induction k rule: nat_induct_at_least)
    case base
    show ?case using repeated_snoc [of h ?D 0] by (simp add: log_deltas_snoc image_Un image_image)
  next
    case (Suc k)
    then show ?case by (simp add: repeated_snoc log_deltas_snoc image_Un image_image)
  qed
  then have "set (map ?sq (filter (\<lambda>x. fd_node_id x = node) (map snd (log_deltas (repeated h ?D k))))) =
      set (map ?sq (filter (\<lambda>x. fd_node_id x = node) (map snd (log_deltas h)))) \<union> ?sq ` {dl \<in> set ?D. fd_node_id dl = node}"
    by (auto simp: image_iff)
  also have "\<dots> = set (map ?sq (filter (\<lambda>x. fd_node_id x = node) (map snd (log_deltas h))) @
      map ps_snapshot_sequence_number (filter (\<lambda>x. deltas_from_snapshot x \<noteq> []) ys))"
    unfolding deltas_sequences [OF assms(1)] by simp
  finally show ?thesis
    unfolding log_watermark_def manifest_watermark_def list_max_append [symmetric] by (rule list_max_set_cong)
qed

lemma no_deltas:
  assumes "snapshot_wf x" and "deltas_from_snapshot x = []"
  shows "added_to x d t = []" and "gone_from x d t = {}"
proof -
  have "delta_map x = []" using assms(2) by (simp add: deltas_delta_map)
  then show "added_to x d t = []" "gone_from x d t = {}" using delta_map_at [OF assms(1), of d t] by simp_all
qed

section \<open>A pass\<close>

text \<open>The log mirrors a sequence of manifests of a node: the node's live paths in the log are those
  of the manifests, and its watermark is the newest manifest that has anything to publish.\<close>

definition log_mirrors :: "node_name \<Rightarrow> persisted_snapshot list \<Rightarrow> file_index_log_entry list \<Rightarrow> bool" where
  "log_mirrors node ss h \<longleftrightarrow>
     (\<forall>d t p. live_path (log_deltas h) node d t p \<longleftrightarrow> manifest_live ss d t p) \<and>
     log_watermark h node = manifest_watermark ss"

definition above_mark :: "nat option \<Rightarrow> persisted_snapshot \<Rightarrow> bool" where
  "above_mark w x \<longleftrightarrow> (case w of None \<Rightarrow> True | Some q \<Rightarrow> q < ps_snapshot_sequence_number x)"

lemma split_at_mark:
  assumes "sorted_wrt (<) (map ps_snapshot_sequence_number ss)"
  shows "ss = filter (\<lambda>x. \<not> above_mark w x) ss @ filter (above_mark w) ss"
  using assms
proof (induction ss)
  case (Cons x ss)
  show ?case
  proof (cases "above_mark w x")
    case True
    then have "\<forall>y \<in> set ss. above_mark w y"
      using Cons.prems by (auto simp: above_mark_def split: option.splits)
    then show ?thesis using True by (simp add: filter_empty_conv filter_id_conv)
  next
    case False
    then show ?thesis using Cons by simp
  qed
qed simp

text \<open>Manifests above the watermark of a mirrored sequence have nothing to publish.\<close>

lemma above_mark_empty:
  "x \<in> set ss \<Longrightarrow> above_mark (manifest_watermark ss) x \<Longrightarrow> deltas_from_snapshot x = []"
  using list_max_ge [of "map ps_snapshot_sequence_number (filter (\<lambda>x. deltas_from_snapshot x \<noteq> []) ss)"]
  by (cases "manifest_watermark ss")
    (auto simp: above_mark_def manifest_watermark_def filter_empty_conv dest: leD)

lemma manifest_live_empty:
  assumes "\<forall>x \<in> set ys. snapshot_wf x \<and> deltas_from_snapshot x = []"
  shows "manifest_live (ss @ ys) d t p = manifest_live ss d t p"
proof -
  have "\<forall>y \<in> set ys. added_to y d t = [] \<and> gone_from y d t = {}" using assms no_deltas by blast
  moreover from this have "\<not> manifest_live ys d t p" unfolding manifest_live_def by fastforce
  ultimately show ?thesis unfolding manifest_live_append by simp
qed

lemma manifest_watermark_append: "manifest_watermark (xs @ ys) = opt_max (manifest_watermark xs) (manifest_watermark ys)"
  by (simp add: manifest_watermark_def list_max_append)

lemma manifest_watermark_empty: "\<forall>x \<in> set ys. deltas_from_snapshot x = [] \<Longrightarrow> manifest_watermark ys = None"
  by (simp add: manifest_watermark_def filter_empty_conv)

text \<open>Publishing what is above the watermark completes the mirror.\<close>

lemma due_deltas:
  assumes "sorted_wrt (<) (map ps_snapshot_sequence_number (ss @ new))"
  shows "concat (map deltas_from_snapshot (filter (above_mark (manifest_watermark ss)) (ss @ new))) =
    concat (map deltas_from_snapshot new)"
proof -
  let ?w = "manifest_watermark ss"
  have "above_mark ?w y" if "y \<in> set new" for y
  proof (cases ?w)
    case None
    then show ?thesis by (simp add: above_mark_def)
  next
    case (Some q)
    then obtain x where "x \<in> set ss" "q = ps_snapshot_sequence_number x"
      using list_max_mem unfolding manifest_watermark_def by fastforce
    then show ?thesis using assms that Some by (auto simp: above_mark_def sorted_wrt_append)
  qed
  then have "filter (above_mark ?w) new = new" by (simp add: filter_id_conv)
  moreover have "concat (map deltas_from_snapshot (filter (above_mark ?w) ss)) = []"
    using above_mark_empty by auto
  ultimately show ?thesis by simp
qed

lemma mirror_step:
  assumes mirror: "log_mirrors node ss h" and ok: "\<forall>x \<in> set new. snapshot_wf x \<and> ps_node_id x = node" and k: "1 \<le> k"
  shows "log_mirrors node (ss @ new) (repeated h (concat (map deltas_from_snapshot new)) k)"
proof -
  have nodes: "\<forall>x \<in> set new. ps_node_id x = node" using ok by blast
  show ?thesis
    using mirror unfolding log_mirrors_def live_repeated [OF ok k] manifest_live_append watermark_repeated [OF nodes k]
      manifest_watermark_append by simp
qed

lemma mirror_idle:
  assumes mirror: "log_mirrors node ss h" and ok: "\<forall>x \<in> set new. snapshot_wf x \<and> deltas_from_snapshot x = []"
  shows "log_mirrors node (ss @ new) h"
proof -
  have "manifest_watermark new = None" using ok manifest_watermark_empty by blast
  then have "manifest_watermark (ss @ new) = manifest_watermark ss"
    by (cases "manifest_watermark ss") (simp_all add: manifest_watermark_append opt_max_def)
  then show ?thesis using mirror manifest_live_empty [OF ok] by (simp add: log_mirrors_def)
qed

text \<open>What a pass loads: the manifests above the watermark, as long as they fit into one pass.\<close>

lemma above_mark_loaded [simp]: "above_mark w (loaded pe x) = above_mark w x"
  by (simp add: above_mark_def split: option.splits)

lemma deltas_loaded [simp]: "deltas_from_snapshot (loaded pe x) = deltas_from_snapshot x"
proof -
  have "extend_removed (loaded pe x) = extend_removed x" "extend_added (loaded pe x) = extend_added x"
    by (simp_all add: fun_eq_iff extend_removed_def extend_added_def blank_delta_def loaded_def)
  then show ?thesis by (simp add: deltas_from_snapshot_def) (simp add: loaded_def)
qed

context object_store_reads
begin

lemma load_above_mark:
  assumes load: "(case w of Some q \<Rightarrow> load_snapshots_after pe q n s | None \<Rightarrow> load_snapshots pe n s) = (Inr xs, s')"
    and st: "pe_store pe = st" and m: "manifests_in pe (contents s) (rev ss)"
    and fit: "length (filter (above_mark w) ss) \<le> n"
  shows "filter (\<lambda>x. case w of None \<Rightarrow> True | Some q \<Rightarrow> \<not> ps_snapshot_sequence_number x \<le> q)
      (sort_key ps_snapshot_sequence_number xs) = map (loaded pe) (filter (above_mark w) ss)"
proof -
  let ?q = ps_snapshot_sequence_number
  note sorted = manifests_in_order [OF m]
  obtain r s1 where run: "load_snapshots pe n s = (r, s1)" by fastforce
  have r: "r = Inr (map (loaded pe) (take n (rev ss)))"
    using load_manifests(1) [OF run st m] load run by (auto simp: load_snapshots_after_def split: option.splits)
  define A where "A = rev (filter (above_mark w) ss)"
  define B where "B = rev (filter (\<lambda>x. \<not> above_mark w x) ss)"
  have ss: "rev ss = A @ B" unfolding A_def B_def using split_at_mark [OF sorted, of w] by (metis rev_append)
  have "filter (above_mark w) A = A" by (simp add: A_def filter_id_conv)
  moreover have "filter (above_mark w) (take k B) = []" for k
    by (auto simp: B_def filter_empty_conv dest!: in_set_takeD)
  moreover have "length A \<le> n" using fit by (simp add: A_def)
  ultimately have "filter (above_mark w) (take n (rev ss)) = A" unfolding ss by simp
  then have "filter (above_mark w) (take n (rev ss)) = rev (filter (above_mark w) ss)" by (simp only: A_def)
  moreover have "filter (above_mark w) xs = filter (above_mark w) (map (loaded pe) (take n (rev ss)))"
  proof (cases w)
    case (Some q)
    have "above_mark (Some q) = (\<lambda>x. q < ?q x)" by (simp add: above_mark_def fun_eq_iff)
    then show ?thesis using load run r Some by (auto simp: load_snapshots_after_def)
  qed (use load run r in simp)
  ultimately have above: "filter (above_mark w) xs = map (loaded pe) (rev (filter (above_mark w) ss))"
    by (simp add: filter_map o_def)
  have test: "(case w of None \<Rightarrow> True | Some q \<Rightarrow> \<not> ?q x \<le> q) = above_mark w x" for x
    by (simp add: above_mark_def not_le split: option.splits)
  have "filter (above_mark w) (sort_key ?q xs) = sort_key ?q (filter (above_mark w) xs)"
    by (rule filter_sort)
  also have "\<dots> = map (loaded pe) (filter (above_mark w) ss)"
    unfolding above
  proof (rule sequence_order_unique)
    show "sorted_wrt (<) (map ?q (map (loaded pe) (filter (above_mark w) ss)))"
      using sorted by (simp add: o_def sorted_wrt_map sorted_wrt_filter)
  qed (simp flip: rev_map)
  finally show ?thesis unfolding test .
qed

end

lemma index_watermark:
  assumes "history_ok h" and "index_at h (length h) i"
  shows "published_watermark i node = log_watermark h node"
    and "indexed_path ` set (table_entries i node d t) = {p. live_path (log_deltas h) node d t p}"
proof -
  have above: "log_above 0 h"
    using history_okD [OF assms(1)] by (simp add: log_above_def sorted_wrt_iff_nth_less nth_Cons' set_conv_nth)
  have view: "view i = view (replay h FileIndex_new)" using assms(2) by (simp add: index_at_def)
  then have "published_watermark i node = published_watermark (replay h FileIndex_new) node"
    unfolding published_watermark_def view_def by (metis index_view.ext_inject)
  then show "published_watermark i node = log_watermark h node"
    using watermarks_are_history_maxima [OF above] by (simp add: log_watermark_def)
  have "table_entries i node d t = table_entries (replay h FileIndex_new) node d t"
    using view unfolding view_def by (metis index_view.ext_inject)
  then show "indexed_path ` set (table_entries i node d t) = {p. live_path (log_deltas h) node d t p}"
    using table_entries_replay [of FileIndex_new h] above by (simp add: keys_fold_table)
qed

context shared_log
begin

text \<open>A pass brings the index to the head of the log, and then publishes the manifests above the
  node's watermark there, if loading them succeeds.\<close>

lemma publish_pending_cases:
  assumes run: "publish_pending node pe lg nonces i s = (r, i', s')"
    and st: "fl_store lg = st" "fl_codec lg = codec" "pe_store pe = st"
    and inv: "log_inv codec (fl_prefix lg) h S (contents s)" and at: "index_at h m i"
    and holes: "no_holes (fl_prefix lg) h (contents s) m" and head: "S < length h \<or> S \<le> m"
    and man: "manifests_in pe (contents s) (rev ss)"
    and fit: "length (filter (above_mark (log_watermark h node)) ss) \<le> MAX_MANIFESTS_PER_PASS"
    and D: "D = concat (map deltas_from_snapshot (filter (above_mark (log_watermark h node)) ss))"
  obtains (failed) e where "r = Inl e" "contents s' = contents s"
  | (idle) "r = Inr ()" "D = []" "contents s' = contents s" "index_at h (length h) i'"
  | (published) i1 s1 where "D \<noteq> []" "contents s1 = contents s" "index_at h (length h) i1"
      "(r, i', s') = (case append_loop lg nonces D MAX_APPEND_ATTEMPTS 0 i1 s1 of
         (Inl e, i2, s3) \<Rightarrow> (Inl e, i2, s3) | (Inr q, i2, s3) \<Rightarrow> (Inr (), i2, s3))"
proof -
  let ?w = "log_watermark h node"
  obtain r1 i1 s1 where sync: "sync lg i s = (r1, i1, s1)" by (metis prod_cases3)
  show thesis
  proof (cases r1)
    case (Inl e)
    then show thesis using run sync sync_error [OF _ st(1)] failed by (auto simp: publish_pending_def)
  next
    case (Inr n1)
    note up = sync_reaches_head [OF sync [unfolded Inr] st(1,2) inv at holes head]
    have "history_ok h" using inv by (simp add: log_inv_def)
    then have w: "published_watermark i1 node = ?w" using index_watermark(1) up by blast
    let ?load = "case ?w of Some q \<Rightarrow> load_snapshots_after pe q MAX_MANIFESTS_PER_PASS s1
      | None \<Rightarrow> load_snapshots pe MAX_MANIFESTS_PER_PASS s1"
    obtain r2 s2 where load: "?load = (r2, s2)" by fastforce
    have man1: "manifests_in pe (contents s1) (rev ss)" using man up by simp
    obtain r3 s3 where base: "load_snapshots pe MAX_MANIFESTS_PER_PASS s1 = (r3, s3)" by fastforce
    have "s2 = s3" using load base by (auto simp: load_snapshots_after_def split: option.splits sum.splits)
    then have frame: "contents s2 = contents s" using load_manifests(2) [OF base st(3) man1] up by simp
    show thesis
    proof (cases r2)
      case Inl2: (Inl e)
      have "r = Inl (ObjectStoreError Generic) \<and> s' = s2"
        using run unfolding publish_pending_def sync Inr prod.case sum.case w Let_def load Inl2 by simp
      then show thesis using failed frame by blast
    next
      case Inr2: (Inr xs)
      have "concat (map deltas_from_snapshot (filter (\<lambda>x. case ?w of None \<Rightarrow> True
          | Some q \<Rightarrow> \<not> ps_snapshot_sequence_number x \<le> q) (sort_key ps_snapshot_sequence_number xs))) = D"
        unfolding load_above_mark [OF load [unfolded Inr2] st(3) man1 fit] D by (simp add: o_def)
      then have body: "(r, i', s') = (if xs = [] \<or> D = [] then (Inr (), i1, s2)
         else case append_deltas lg nonces D i1 s2 of (Inl e, i2, s3) \<Rightarrow> (Inl e, i2, s3) | (Inr q, i2, s3) \<Rightarrow> (Inr (), i2, s3))"
        using run unfolding publish_pending_def sync Inr prod.case sum.case w Let_def load Inr2 by (simp split: if_splits)
      have "D = []" if "xs = []"
        unfolding D using load_above_mark [OF load [unfolded Inr2] st(3) man1 fit] that by simp
      then have "(r, i', s') = (case append_loop lg nonces D MAX_APPEND_ATTEMPTS 0 i1 s2 of
          (Inl e, i2, s3) \<Rightarrow> (Inl e, i2, s3) | (Inr q, i2, s3) \<Rightarrow> (Inr (), i2, s3))" if "D \<noteq> []"
        using that body by (auto simp: append_deltas_def)
      then show thesis using body idle published [of s2 i1] up frame by (cases "D = []") auto
    qed
  qed
qed

lemma publish_pass:
  assumes run: "publish_pending node pe lg nonces i s = (Inr (), i', s')"
    and st: "fl_store lg = st" "fl_codec lg = codec" "pe_store pe = st"
    and inv: "log_inv codec (fl_prefix lg) h S (contents s)" and at: "index_at h m i"
    and holes: "no_holes (fl_prefix lg) h (contents s) m" and head: "S < length h \<or> S \<le> m"
    and nonces: "nonces_ok nonces 0 (contents s)" and room: "length h + MAX_APPEND_ATTEMPTS \<le> u64_max"
    and man: "manifests_in pe (contents s) (rev (ss @ new))"
    and ok: "\<forall>x \<in> set new. snapshot_wf x \<and> ps_node_id x = node"
    and mirror: "log_mirrors node ss h"
    and fit: "length (filter (above_mark (manifest_watermark ss)) (ss @ new)) \<le> MAX_MANIFESTS_PER_PASS"
  shows "\<exists>h' S'. log_inv codec (fl_prefix lg) h' S' (contents s') \<and> index_at h' (length h') i' \<and>
    log_mirrors node (ss @ new) h'"
proof -
  let ?D = "concat (map deltas_from_snapshot new)"
  have w: "log_watermark h node = manifest_watermark ss" using mirror by (simp add: log_mirrors_def)
  have D: "?D = concat (map deltas_from_snapshot (filter (above_mark (log_watermark h node)) (ss @ new)))"
    unfolding w using due_deltas [OF manifests_in_order [OF man]] by simp
  show ?thesis
  proof (rule publish_pending_cases [OF run st inv at holes head man fit [folded w] D])
    assume "?D = []" and unchanged: "contents s' = contents s" "index_at h (length h) i'"
    then have "\<forall>x \<in> set new. snapshot_wf x \<and> deltas_from_snapshot x = []" using ok by auto
    from mirror_idle [OF mirror this] show ?thesis using inv unchanged by auto
  next
    fix i1 s1
    assume same: "contents s1 = contents s" and at1: "index_at h (length h) i1"
      and app: "(Inr (), i', s') = (case append_loop lg nonces ?D MAX_APPEND_ATTEMPTS 0 i1 s1 of
         (Inl e, i2, s3) \<Rightarrow> (Inl e, i2, s3) | (Inr q, i2, s3) \<Rightarrow> (Inr (), i2, s3))"
    obtain q where app: "append_loop lg nonces ?D MAX_APPEND_ATTEMPTS 0 i1 s1 = (Inr q, i', s')"
      using app by (auto split: prod.splits sum.splits)
    have inv1: "log_inv codec (fl_prefix lg) h S (contents s1)" using inv same by simp
    have S: "S \<le> length h" using inv by (simp add: log_inv_def)
    from append_loop_inv [OF app st(1,2) inv1 at1 log_inv_no_holes [OF inv1 S]]
    have "appended codec (fl_prefix lg) h ?D MAX_APPEND_ATTEMPTS (Inr q) i' (contents s')"
      using S nonces room same by simp
    then obtain k S' where "1 \<le> k" "log_inv codec (fl_prefix lg) (repeated h ?D k) S' (contents s')"
      "index_at (repeated h ?D k) (length (repeated h ?D k)) i'"
      by (auto simp: appended_def)
    then show ?thesis using mirror_step [OF mirror ok] by blast
  qed simp
qed

end

section \<open>Claims\<close>

text \<open>Claim C4.  A publisher pass that reports success leaves the shared index listing, for every table of the
  node, exactly the paths that one of the node's manifests added and no later one removed, under the
  conditions below; manifests written while the node was down are then published too.  The
  conditions: the log already mirrors the manifests up to some sequence number, and every other manifest
  in the store has a greater one; at most 256 manifests are above the watermark, the number one pass
  loads; the surviving log objects above the publisher's index have no holes; and the publisher is not
  behind a rollup that was pruned to the head of the log.  A manifest that reaches the store late, with
  a sequence number at or below the watermark, is outside the claim: it is never published.\<close>

theorem published_index_mirrors_manifests:
  assumes "shared_log st contents codec"
    and "fl_store lg = st" and "fl_codec lg = codec" and "pe_store pe = st"
    and "publish_pending node pe lg nonces i s = (Inr (), i', s')"
    and "log_inv codec (fl_prefix lg) h S (contents s)" and "index_at h m i"
    and "no_holes (fl_prefix lg) h (contents s) m" and "S < length h \<or> S \<le> m"
    and "nonces_ok nonces 0 (contents s)" and "length h + MAX_APPEND_ATTEMPTS \<le> u64_max"
    and "manifests_in pe (contents s) (rev (ss @ new))"
    and "\<forall>x \<in> set new. snapshot_wf x \<and> ps_node_id x = node"
    and "log_mirrors node ss h"
    and "length (filter (above_mark (manifest_watermark ss)) (ss @ new)) \<le> MAX_MANIFESTS_PER_PASS"
  shows "\<exists>h' S'. log_inv codec (fl_prefix lg) h' S' (contents s') \<and> index_at h' (length h') i' \<and>
    log_mirrors node (ss @ new) h' \<and>
    (\<forall>d t. indexed_path ` set (table_entries i' node d t) = {p. manifest_live (ss @ new) d t p})"
proof -
  from shared_log.publish_pass [OF assms(1,5,2,3,4,6-15)] obtain h' S' where
    inv: "log_inv codec (fl_prefix lg) h' S' (contents s')" and at: "index_at h' (length h') i'"
    and mirror: "log_mirrors node (ss @ new) h'" by blast
  have ok: "history_ok h'" using inv by (simp add: log_inv_def)
  have live: "live_path (log_deltas h') node d t p = manifest_live (ss @ new) d t p" for d t p
    using mirror by (simp add: log_mirrors_def)
  have "\<forall>d t. indexed_path ` set (table_entries i' node d t) = {p. manifest_live (ss @ new) d t p}"
    unfolding index_watermark(2) [OF ok at] live by simp
  then show ?thesis using inv at mirror by blast
qed

text \<open>Witness: a store that holds log documents and manifests, and a node that publishes its first
  manifest.\<close>

type_synonym joint_object = "json_doc + persisted_object"

definition joint_log_codec :: "joint_object serde" where
  "joint_log_codec =
     \<lparr>to_vec_entry = (\<lambda>e. Some (Inl (EntryDoc e))),
      from_slice_entry = (\<lambda>b. case b of Inl (EntryDoc e) \<Rightarrow> Some e | _ \<Rightarrow> None),
      to_vec_snapshot = (\<lambda>sn. Some (Inl (SnapshotDoc sn))),
      from_slice_snapshot = (\<lambda>b. case b of Inl (SnapshotDoc sn) \<Rightarrow> Some sn | _ \<Rightarrow> None)\<rparr>"

definition joint_codec :: "joint_object snapshot_serde" where
  "joint_codec =
     \<lparr>to_vec_manifest = (\<lambda>x. Some (Inr (Inl x))),
      from_slice_manifest = (\<lambda>b. case b of Inr (Inl x) \<Rightarrow> Some x | _ \<Rightarrow> None),
      to_vec_checkpoint = (\<lambda>cp. Some (Inr (Inr cp))),
      from_slice_checkpoint = (\<lambda>b. case b of Inr (Inr cp) \<Rightarrow> Some cp | _ \<Rightarrow> None)\<rparr>"

definition joint_store :: "(joint_object mem, joint_object) object_store" where
  "joint_store = SelfVerifyingCreateStore ''g'' mem_store"

definition joint_log :: "(joint_object mem, joint_object) file_index_log" where
  "joint_log = \<lparr>fl_store = joint_store, fl_codec = joint_log_codec, fl_prefix = ''c'', fl_snapshot_interval = 500\<rparr>"

definition joint_persister :: "(joint_object mem, joint_object) persister" where
  "joint_persister =
     \<lparr>pe_store = joint_store, pe_codec = joint_codec, pe_prefix = ''node'', pe_checkpoint_interval = None,
      pe_month_of = (\<lambda>ms. restart_month), pe_last_modified_ms = (\<lambda>p. 7)\<rparr>"

definition joint_manifest :: persisted_snapshot where
  "joint_manifest = (pf_snapshot 3 [pf_file 4 ''node/a'' 3] [])\<lparr>ps_node_id := ''node''\<rparr>"

definition joint_state :: "joint_object mem" where
  "joint_state = [(SnapshotInfoFilePath_new ''node'' 3, \<lparr>so_body = Inr (Inl joint_manifest), so_attrs = []\<rparr>)]"

text \<open>The same store, with a manifest that arrived after a later one had been published.\<close>

definition joint_late :: "joint_object mem" where
  "joint_late = (log_path ''c'' 1, \<lparr>so_body = Inl (EntryDoc (ex_entry 1 (ex_delta ''node'' 9 ''node/b''))), so_attrs = []\<rparr>) # joint_state"

lemma joint_shared_log: "shared_log joint_store map_of joint_log_codec"
  unfolding joint_store_def
  by (intro shared_log.intro sv_mem.object_store_laws_axioms shared_log_axioms.intro) (auto simp: joint_log_codec_def)

lemma joint_fields [simp]:
  "fl_store joint_log = joint_store" "fl_codec joint_log = joint_log_codec" "fl_prefix joint_log = ''c''"
  "fl_snapshot_interval joint_log = 500" "pe_store joint_persister = joint_store"
  "pe_codec joint_persister = joint_codec" "pe_prefix joint_persister = ''node''"
  "ps_snapshot_sequence_number joint_manifest = 3" "ps_node_id joint_manifest = ''node''"
  by (simp_all add: joint_log_def joint_persister_def joint_manifest_def pf_snapshot_def PersistedSnapshot_new_def)

lemma joint_not_log: "\<not> under (logs_dir ''c'') (SnapshotInfoFilePath_new ''node'' n)"
  "log_path ''c'' k \<noteq> SnapshotInfoFilePath_new ''node'' n"
  "\<not> under (SnapshotInfoFilePath_dir ''node'') (log_path ''c'' k)"
  by (simp_all add: logs_dir_def SnapshotInfoFilePath_new_def SnapshotInfoFilePath_dir_def log_path_def under_def)

lemma joint_sync: "sync joint_log FileIndex_new joint_state = (Inr 0, FileIndex_new, joint_state)"
  by (simp add: sync_def load_after_def joint_store_def joint_state_def joint_not_log FileIndex_new_def replay_def Let_def)

lemma joint_load: "load_snapshots joint_persister 256 joint_state = (Inr [loaded joint_persister joint_manifest], joint_state)"
  by (simp add: load_snapshots_def manifest_paths.simps list_manifests_def joint_store_def joint_state_def Let_def
      get_snapshot_def joint_codec_def loaded_def)

lemma joint_deltas: "deltas_from_snapshot joint_manifest = [\<lparr>fd_node_id = ''node'', fd_db_id = 1, fd_table_id = 2,
    fd_snapshot_sequence = 3, fd_added = [pf_file 4 ''node/a'' 3], fd_removed = []\<rparr>]"
  by (simp add: deltas_from_snapshot_def joint_manifest_def pf_snapshot_def PersistedSnapshot_new_def tables_of_def
      extend_added_def extend_removed_def hm_upd_def blank_delta_def)

lemma joint_append: "dl \<noteq> [] \<Longrightarrow> \<exists>i' s'. append_deltas joint_log (ex_nonces ''a'') dl FileIndex_new joint_state = (Inr 1, i', s')"
  using joint_sync joint_not_log
  by (simp add: append_deltas_run seq_next_def joint_log_codec_def joint_store_def self_verifying_put_opts_def
      SelfVerifyingCreate_put_options_def SelfVerifyingCreate_with_nonce_def into_nonce_def joint_state_def Let_def
      FileIndex_new_def)

lemma joint_publishes:
  "\<exists>i' s'. publish_pending ''node'' joint_persister joint_log (ex_nonces ''a'') FileIndex_new joint_state = (Inr (), i', s')"
proof -
  obtain i' s' where "append_deltas joint_log (ex_nonces ''a'') (deltas_from_snapshot joint_manifest) FileIndex_new joint_state = (Inr 1, i', s')"
    using joint_append [of "deltas_from_snapshot joint_manifest"] by (auto simp: joint_deltas)
  moreover have "published_watermark FileIndex_new ''node'' = None" by (simp add: published_watermark_def FileIndex_new_def)
  ultimately show ?thesis
    using joint_deltas by (simp add: publish_pending_def joint_sync MAX_MANIFESTS_PER_PASS_def joint_load)
qed

theorem published_index_mirrors_manifests_witness:
  "\<exists>i' s'. publish_pending ''node'' joint_persister joint_log (ex_nonces ''a'') FileIndex_new joint_state = (Inr (), i', s') \<and>
     indexed_path ` set (table_entries i' ''node'' 1 2) = {''node/a''}"
proof -
  obtain i' s' where run: "publish_pending ''node'' joint_persister joint_log (ex_nonces ''a'') FileIndex_new joint_state = (Inr (), i', s')"
    using joint_publishes by blast
  have manifests: "manifests_in joint_persister (map_of joint_state) [joint_manifest]"
    by (auto simp: manifests_in_def joint_state_def joint_codec_def u64_max_def split: if_splits)
  have inv: "log_inv joint_log_codec ''c'' [] 0 (map_of joint_state)"
    using joint_not_log by (auto simp: log_inv_def history_ok_def joint_state_def snapshot_path_def SnapshotInfoFilePath_new_def split: if_splits)
  have nonces: "nonces_ok (ex_nonces ''a'') 0 (map_of joint_state)"
    by (auto simp: nonces_ok_def nonce_fresh_def inj_ex_nonces joint_state_def nonce_check_def split: if_splits)
  have mirror: "log_mirrors ''node'' [] []"
    by (simp add: log_mirrors_def log_watermark_def manifest_watermark_def log_deltas_def live_path_def)
  have live: "{p. manifest_live ([] @ [joint_manifest]) 1 2 p} = {''node/a''}"
    unfolding manifest_live_snoc
    by (auto simp: joint_manifest_def pf_snapshot_def added_to_def tm_get_def hm_get_def)
  from published_index_mirrors_manifests [OF joint_shared_log _ _ _ run, of "[]" 0 0 "[]" "[joint_manifest]"]
  have "\<forall>d t. indexed_path ` set (table_entries i' ''node'' d t) = {p. manifest_live ([] @ [joint_manifest]) d t p}"
    using manifests inv nonces mirror log_inv_no_holes [OF inv order_refl]
    by (auto simp: index_at_def u64_max_def MAX_APPEND_ATTEMPTS_def MAX_MANIFESTS_PER_PASS_def above_mark_def
        manifest_watermark_def joint_manifest_def pf_snapshot_def snapshot_wf_def PersistedSnapshot_new_def tm_wf_def)
  then show ?thesis using run live by auto
qed

text \<open>A pass never publishes a manifest at or below the node's watermark: when every manifest in
  the store is at or below it, the log stays as it is and the index ends at its head.  A manifest
  that reaches the store after a later one was published is therefore never published.\<close>

theorem late_manifest_is_not_published:
  assumes "shared_log st contents codec"
    and "fl_store lg = st" and "fl_codec lg = codec" and "pe_store pe = st"
    and "publish_pending node pe lg nonces i s = (r, i', s')"
    and "log_inv codec (fl_prefix lg) h S (contents s)" and "index_at h m i"
    and "no_holes (fl_prefix lg) h (contents s) m" and "S < length h \<or> S \<le> m"
    and "manifests_in pe (contents s) (rev ss)"
    and "log_watermark h node = Some w" and "\<forall>x \<in> set ss. ps_snapshot_sequence_number x \<le> w"
  shows "contents s' = contents s \<and> (r = Inr () \<longrightarrow> index_at h (length h) i')"
proof -
  have none: "filter (above_mark (log_watermark h node)) ss = []"
    using assms(11,12) by (auto simp: above_mark_def filter_empty_conv)
  show ?thesis
    by (rule shared_log.publish_pending_cases [OF assms(1,5,2,3,4,6-10), where D = "[]"])
      (simp_all add: none MAX_MANIFESTS_PER_PASS_def)
qed

theorem late_manifest_is_not_published_witness:
  "\<exists>r i' s'. publish_pending ''node'' joint_persister joint_log (ex_nonces ''a'')
      (replay [ex_entry 1 (ex_delta ''node'' 9 ''node/b'')] FileIndex_new) joint_late = (r, i', s') \<and>
      map_of s' = map_of joint_late"
proof -
  let ?h = "[ex_entry 1 (ex_delta ''node'' 9 ''node/b'')]"
  obtain r i' s' where run: "publish_pending ''node'' joint_persister joint_log (ex_nonces ''a'')
      (replay ?h FileIndex_new) joint_late = (r, i', s')" by (metis prod_cases3)
  have manifests: "manifests_in joint_persister (map_of joint_late) (rev [joint_manifest])"
    using joint_not_log joint_not_log(2) [symmetric]
    by (auto simp: manifests_in_def joint_state_def joint_late_def joint_codec_def u64_max_def split: if_splits)
  have snap: "snapshot_path ''c'' \<noteq> SnapshotInfoFilePath_new ''node'' 3" "snapshot_path ''c'' \<noteq> log_path ''c'' 1"
    using snapshot_path_neq_log by (simp_all add: snapshot_path_def SnapshotInfoFilePath_new_def log_path_def)
  have inv: "log_inv joint_log_codec ''c'' ?h 0 (map_of joint_late)"
    using joint_not_log snap
    by (auto simp: log_inv_def history_ok_def joint_late_def joint_state_def joint_log_codec_def log_present_def
        u64_max_def nth_Cons' less_Suc_eq_le le_Suc_eq split: if_splits)
  have at: "index_at ?h 1 (replay ?h FileIndex_new)" using index_at_replay_all [of ?h 1] by simp
  have mark: "log_watermark ?h ''node'' = Some 9"
    by (simp add: log_watermark_def log_deltas_def ex_entry_def ex_delta_def list_max_def)
  from late_manifest_is_not_published [OF joint_shared_log _ _ _ run _ at _ _ manifests mark, of 0]
  have "map_of s' = map_of joint_late" using inv log_inv_no_holes [OF inv, of 1] by simp
  then show ?thesis using run by blast
qed

end
