(* ===== verification/Catalog_Repository.thy ===== *)
theory Catalog_Repository
  imports Prelude
begin

text \<open>
  The collection type of the catalog (\<open>influxdb3_catalog/src/repository.rs\<close>): resources in insertion
  order by identifier, a bijection between identifiers and names beside them, and the next free
  identifier.  A panic of its consistency assertion is \<open>None\<close>.  What a resource is called is the
  parameter of the locale \<open>catalog_resource\<close>, which every kind of resource interprets.
\<close>

section \<open>The bijection\<close>

text \<open>\<open>BiHashMap\<close>: inserting a pair drops every pair that shares a side with it.\<close>

type_synonym bimap = "(nat \<times> string) list"

definition get_by_left :: "bimap \<Rightarrow> nat \<Rightarrow> string option" where
  "get_by_left m i = map_of m i"

definition get_by_right :: "bimap \<Rightarrow> string \<Rightarrow> nat option" where
  "get_by_right m n = map_of (map prod.swap m) n"

definition bm_insert :: "nat \<Rightarrow> string \<Rightarrow> bimap \<Rightarrow> bimap" where
  "bm_insert i n m = filter (\<lambda>(j, k). j \<noteq> i \<and> k \<noteq> n) m @ [(i, n)]"

definition remove_by_left :: "nat \<Rightarrow> bimap \<Rightarrow> bimap" where
  "remove_by_left i m = filter (\<lambda>(j, k). j \<noteq> i) m"

definition bm_wf :: "bimap \<Rightarrow> bool" where
  "bm_wf m \<longleftrightarrow> distinct (map fst m) \<and> distinct (map snd m)"

section \<open>The repository\<close>

datatype repository_error =
    RepoAlreadyExists nat
  | RepoAlreadyExistsByName string
  | RepoNotFound nat
  | RepoNotFoundByName string

record 'r repository =
  repo_items :: "(nat, 'r) hash_map"
  repo_id_name_map :: bimap
  repo_next_id :: nat

definition repository_new :: "'r repository" where
  "repository_new = \<lparr>repo_items = [], repo_id_name_map = [], repo_next_id = 0\<rparr>"

definition repo_clear :: "'r repository \<Rightarrow> 'r repository" where
  "repo_clear r = r\<lparr>repo_items := [], repo_id_name_map := []\<rparr>"

definition get_by_id :: "'r repository \<Rightarrow> nat \<Rightarrow> 'r option" where
  "get_by_id r i = map_of (repo_items r) i"

definition require_by_id :: "'r repository \<Rightarrow> nat \<Rightarrow> repository_error + 'r" where
  "require_by_id r i = (case get_by_id r i of None \<Rightarrow> Inl (RepoNotFound i) | Some x \<Rightarrow> Inr x)"

definition name_to_id :: "'r repository \<Rightarrow> string \<Rightarrow> nat option" where
  "name_to_id r n = get_by_right (repo_id_name_map r) n"

definition id_to_name :: "'r repository \<Rightarrow> nat \<Rightarrow> string option" where
  "id_to_name r i = get_by_left (repo_id_name_map r) i"

definition get_by_name :: "'r repository \<Rightarrow> string \<Rightarrow> 'r option" where
  "get_by_name r n =
     (case get_by_right (repo_id_name_map r) n of None \<Rightarrow> None | Some i \<Rightarrow> map_of (repo_items r) i)"

definition contains_id :: "'r repository \<Rightarrow> nat \<Rightarrow> bool" where
  "contains_id r i \<longleftrightarrow> map_of (repo_items r) i \<noteq> None"

definition contains_name :: "'r repository \<Rightarrow> string \<Rightarrow> bool" where
  "contains_name r n \<longleftrightarrow> get_by_right (repo_id_name_map r) n \<noteq> None"

definition resource_iter :: "'r repository \<Rightarrow> 'r list" where
  "resource_iter r = map snd (repo_items r)"

definition repo_id_exists :: "'r repository \<Rightarrow> nat \<Rightarrow> bool option" where
  "repo_id_exists r i =
     (let id_in_map = (get_by_left (repo_id_name_map r) i \<noteq> None); id_in_repo = (map_of (repo_items r) i \<noteq> None)
      in if id_in_map = id_in_repo then Some id_in_repo else None)"

definition id_and_name_exists :: "'r repository \<Rightarrow> nat \<Rightarrow> string \<Rightarrow> bool option" where
  "id_and_name_exists r i n =
     (let name_in_map = contains_name r n
      in case repo_id_exists r i of None \<Rightarrow> None | Some e \<Rightarrow> Some (e \<and> name_in_map))"

text \<open>The last argument of the type is \<open>I::MAX\<close>, past which the next identifier does not move.\<close>

definition repo_insert ::
  "('r \<Rightarrow> string) \<Rightarrow> nat \<Rightarrow> nat \<Rightarrow> 'r \<Rightarrow> 'r repository \<Rightarrow> ((repository_error + unit) \<times> 'r repository) option" where
  "repo_insert name_of id_max i x r =
     (case id_and_name_exists r i (name_of x) of
        None \<Rightarrow> None
      | Some True \<Rightarrow> Some (Inl (RepoAlreadyExists i), r)
      | Some False \<Rightarrow>
          Some (Inr (), r\<lparr>repo_id_name_map := bm_insert i (name_of x) (repo_id_name_map r),
                          repo_items := hm_insert i x (repo_items r),
                          repo_next_id := (if repo_next_id r \<le> i \<and> i < id_max then i + 1 else repo_next_id r)\<rparr>))"

definition repo_update ::
  "('r \<Rightarrow> string) \<Rightarrow> nat \<Rightarrow> 'r \<Rightarrow> 'r repository \<Rightarrow> ((repository_error + unit) \<times> 'r repository) option" where
  "repo_update name_of i x r =
     (case repo_id_exists r i of
        None \<Rightarrow> None
      | Some False \<Rightarrow> Some (Inl (RepoNotFound i), r)
      | Some True \<Rightarrow>
          (let owner = get_by_right (repo_id_name_map r) (name_of x)
           in if owner \<noteq> None \<and> owner \<noteq> Some i then Some (Inl (RepoAlreadyExistsByName (name_of x)), r)
              else Some (Inr (), r\<lparr>repo_id_name_map := bm_insert i (name_of x) (repo_id_name_map r),
                                   repo_items := hm_insert i x (repo_items r)\<rparr>)))"

text \<open>The closure of \<open>modify_by_id\<close> answers an error or the changed resource.\<close>

definition modify_by_id ::
  "('r \<Rightarrow> string) \<Rightarrow> (repository_error \<Rightarrow> 'e) \<Rightarrow> nat \<Rightarrow> ('r \<Rightarrow> 'e + 'r) \<Rightarrow> 'r repository \<Rightarrow>
   (('e + unit) \<times> 'r repository) option" where
  "modify_by_id name_of from_error i f r =
     (case require_by_id r i of
        Inl e \<Rightarrow> Some (Inl (from_error e), r)
      | Inr x \<Rightarrow>
          (case f x of
             Inl e \<Rightarrow> Some (Inl e, r)
           | Inr x' \<Rightarrow>
               (case repo_update name_of i x' r of
                  None \<Rightarrow> None
                | Some (Inl e, r') \<Rightarrow> Some (Inl (from_error e), r')
                | Some (Inr u, r') \<Rightarrow> Some (Inr (), r'))))"

definition repo_remove :: "nat \<Rightarrow> 'r repository \<Rightarrow> 'r repository" where
  "repo_remove i r = r\<lparr>repo_id_name_map := remove_by_left i (repo_id_name_map r), repo_items := hm_remove i (repo_items r)\<rparr>"

section \<open>Consistency\<close>

text \<open>The bijection names exactly the stored resources, and identifiers at or above the next one are free,
  but for the last identifier of the type.\<close>

definition repo_wf :: "('r \<Rightarrow> string) \<Rightarrow> nat \<Rightarrow> 'r repository \<Rightarrow> bool" where
  "repo_wf name_of id_max r \<longleftrightarrow>
     bm_wf (repo_id_name_map r) \<and>
     (\<forall>i n. (i, n) \<in> set (repo_id_name_map r) \<longleftrightarrow> map_option name_of (get_by_id r i) = Some n) \<and>
     (\<forall>i. get_by_id r i \<noteq> None \<longrightarrow> i < repo_next_id r \<or> i = id_max) \<and> repo_next_id r \<le> id_max"

lemma bm_sides:
  assumes "bm_wf m"
  shows "get_by_left m i = Some n \<longleftrightarrow> (i, n) \<in> set m" and "get_by_right m n = Some i \<longleftrightarrow> (i, n) \<in> set m"
proof -
  show "get_by_left m i = Some n \<longleftrightarrow> (i, n) \<in> set m"
    using assms by (simp add: bm_wf_def get_by_left_def)
  have "distinct (map fst (map prod.swap m))" using assms by (simp add: bm_wf_def comp_def)
  then have "get_by_right m n = Some i \<longleftrightarrow> (n, i) \<in> set (map prod.swap m)"
    unfolding get_by_right_def by (rule map_of_eq_Some_iff)
  then show "get_by_right m n = Some i \<longleftrightarrow> (i, n) \<in> set m" by force
qed

lemma bm_wf_filter: "bm_wf m \<Longrightarrow> bm_wf (filter P m)"
  by (simp add: bm_wf_def distinct_map_filter_keys)

lemma bm_wf_insert: "bm_wf m \<Longrightarrow> bm_wf (bm_insert i n m)"
  using bm_wf_filter [of m "\<lambda>(j, k). j \<noteq> i \<and> k \<noteq> n"] by (auto simp: bm_insert_def bm_wf_def)

lemma set_bm_insert: "set (bm_insert i n m) = insert (i, n) {(j, k) \<in> set m. j \<noteq> i \<and> k \<noteq> n}"
  by (auto simp: bm_insert_def)

lemma repo_wf_new [simp]: "repo_wf nm mx repository_new"
  by (simp add: repo_wf_def repository_new_def bm_wf_def get_by_id_def)

lemma option_eqI: "(\<And>x. a = Some x \<longleftrightarrow> b = Some x) \<Longrightarrow> a = b"
  by (cases a) (auto, metis not_None_eq)

text \<open>What the locale asks of a kind of resource: how it is named, and that its identifiers have a
  largest one.\<close>

locale catalog_resource =
  fixes name_of :: "'r \<Rightarrow> string"
    and id_max :: nat
  assumes ids_exist: "0 < id_max"
begin

lemma lookup_name:
  assumes "repo_wf name_of id_max r"
  shows "name_to_id r n = Some i \<longleftrightarrow> (\<exists>x. get_by_id r i = Some x \<and> name_of x = n)"
    and "get_by_name r n = Some x \<longleftrightarrow> (\<exists>i. get_by_id r i = Some x \<and> name_of x = n)"
proof -
  have wf: "bm_wf (repo_id_name_map r)"
    "\<And>i n. (i, n) \<in> set (repo_id_name_map r) \<longleftrightarrow> map_option name_of (get_by_id r i) = Some n"
    using assms by (simp_all add: repo_wf_def)
  show ids: "name_to_id r n = Some i \<longleftrightarrow> (\<exists>x. get_by_id r i = Some x \<and> name_of x = n)" for i
    unfolding name_to_id_def bm_sides(2) [OF wf(1)] wf(2) by auto
  have one: "j = i" if "name_to_id r n = Some i" "get_by_id r j = Some y" "name_of y = n" for i j y
  proof -
    have "name_to_id r n = Some j" using ids [of j] that(2,3) by blast
    then show ?thesis using that(1) by simp
  qed
  have get: "get_by_name r n = (case name_to_id r n of None \<Rightarrow> None | Some i \<Rightarrow> get_by_id r i)"
    by (simp add: get_by_name_def name_to_id_def get_by_id_def split: option.splits)
  show "get_by_name r n = Some x \<longleftrightarrow> (\<exists>i. get_by_id r i = Some x \<and> name_of x = n)"
  proof
    assume "get_by_name r n = Some x"
    then obtain i where "name_to_id r n = Some i" "get_by_id r i = Some x" using get by (auto split: option.splits)
    then show "\<exists>i. get_by_id r i = Some x \<and> name_of x = n" using ids [of i] by auto
  next
    assume "\<exists>i. get_by_id r i = Some x \<and> name_of x = n"
    then obtain i where i: "get_by_id r i = Some x" "name_of x = n" by (elim exE conjE)
    then have "name_to_id r n = Some i" using ids [of i] by blast
    then show "get_by_name r n = Some x" using get i(1) by simp
  qed
qed

lemma name_free:
  assumes "repo_wf name_of id_max r"
  shows "get_by_name r n = None \<longleftrightarrow> name_to_id r n = None"
proof -
  have "name_to_id r n = Some i \<Longrightarrow> \<exists>x. get_by_id r i = Some x" for i using lookup_name(1) [OF assms] by blast
  then show ?thesis by (auto simp: get_by_name_def name_to_id_def get_by_id_def split: option.splits)
qed

lemma names_unique:
  assumes "repo_wf name_of id_max r" and "get_by_id r i = Some x" and "get_by_id r j = Some y" and "name_of x = name_of y"
  shows "i = j"
proof -
  have "name_to_id r (name_of x) = Some i" "name_to_id r (name_of x) = Some j"
    using lookup_name(1) [OF assms(1)] assms(2-4) by metis+
  then show ?thesis by simp
qed

lemma id_known:
  assumes "repo_wf name_of id_max r"
  shows "repo_id_exists r i = Some (get_by_id r i \<noteq> None)"
proof -
  have wf: "bm_wf (repo_id_name_map r)"
    "\<And>n. (i, n) \<in> set (repo_id_name_map r) \<longleftrightarrow> map_option name_of (get_by_id r i) = Some n"
    using assms by (simp_all add: repo_wf_def)
  have "get_by_left (repo_id_name_map r) i = map_option name_of (get_by_id r i)"
    by (rule option_eqI) (simp only: bm_sides(1) [OF wf(1)] wf(2))
  then show ?thesis by (simp add: repo_id_exists_def get_by_id_def)
qed

text \<open>A write of a resource whose name is its own or free keeps the repository consistent.\<close>

lemma write_wf:
  assumes wf: "repo_wf name_of id_max r" and name: "name_to_id r (name_of x) \<in> {None, Some i}"
    and next_id: "repo_next_id r \<le> k" "i < k \<or> i = id_max" "k \<le> id_max"
  shows "repo_wf name_of id_max
    (r\<lparr>repo_id_name_map := bm_insert i (name_of x) (repo_id_name_map r), repo_items := hm_insert i x (repo_items r), repo_next_id := k\<rparr>)"
proof -
  let ?r = "r\<lparr>repo_id_name_map := bm_insert i (name_of x) (repo_id_name_map r), repo_items := hm_insert i x (repo_items r), repo_next_id := k\<rparr>"
  have wfs: "bm_wf (repo_id_name_map r)"
    "\<And>i n. (i, n) \<in> set (repo_id_name_map r) \<longleftrightarrow> map_option name_of (get_by_id r i) = Some n"
    "\<And>i. get_by_id r i \<noteq> None \<Longrightarrow> i < repo_next_id r \<or> i = id_max"
    using wf by (simp_all add: repo_wf_def)
  have get: "get_by_id ?r = (get_by_id r)(i \<mapsto> x)" by (simp add: get_by_id_def map_of_hm_insert fun_eq_iff)
  have other: "name_of y \<noteq> name_of x" if "get_by_id r j = Some y" "j \<noteq> i" for j y
  proof
    assume "name_of y = name_of x"
    then have "name_to_id r (name_of x) = Some j" using lookup_name(1) [OF wf] that(1) by blast
    then show False using name that(2) by auto
  qed
  have "(j, n) \<in> set (bm_insert i (name_of x) (repo_id_name_map r)) \<longleftrightarrow> map_option name_of (get_by_id ?r j) = Some n" for j n
    unfolding get set_bm_insert using wfs(2) [of j n] other [of j] by auto
  moreover have "j < k \<or> j = id_max" if "get_by_id ?r j \<noteq> None" for j
    using that wfs(3) [of j] next_id unfolding get by (auto split: if_splits)
  ultimately show ?thesis using bm_wf_insert [OF wfs(1)] next_id(3) by (simp add: repo_wf_def)
qed

lemma insert_new:
  assumes "repo_wf name_of id_max r" and "get_by_id r i = None" and "name_to_id r (name_of x) = None" and "i \<le> id_max"
  obtains r' where "repo_insert name_of id_max i x r = Some (Inr (), r')" "repo_wf name_of id_max r'"
    "get_by_id r' = (get_by_id r)(i \<mapsto> x)" "repo_next_id r \<le> repo_next_id r'"
    "repo_next_id r' = (if repo_next_id r \<le> i \<and> i < id_max then i + 1 else repo_next_id r)"
proof -
  let ?k = "if repo_next_id r \<le> i \<and> i < id_max then i + 1 else repo_next_id r"
  let ?r = "r\<lparr>repo_id_name_map := bm_insert i (name_of x) (repo_id_name_map r), repo_items := hm_insert i x (repo_items r),
    repo_next_id := ?k\<rparr>"
  have "repo_next_id r \<le> id_max" using assms(1) by (simp add: repo_wf_def)
  then have "repo_wf name_of id_max ?r" using assms by (intro write_wf) auto
  moreover have "repo_insert name_of id_max i x r = Some (Inr (), ?r)"
    using id_known [OF assms(1), of i] assms(2)
    by (simp add: repo_insert_def id_and_name_exists_def)
  ultimately show thesis by (intro that [of ?r]) (auto simp: get_by_id_def map_of_hm_insert fun_eq_iff)
qed

lemma update_known:
  assumes "repo_wf name_of id_max r" and "get_by_id r i \<noteq> None" and "name_to_id r (name_of x) \<in> {None, Some i}"
  obtains r' where "repo_update name_of i x r = Some (Inr (), r')" "repo_wf name_of id_max r'"
    "get_by_id r' = (get_by_id r)(i \<mapsto> x)" "repo_next_id r' = repo_next_id r"
proof -
  let ?r = "r\<lparr>repo_id_name_map := bm_insert i (name_of x) (repo_id_name_map r), repo_items := hm_insert i x (repo_items r),
    repo_next_id := repo_next_id r\<rparr>"
  have "i < repo_next_id r \<or> i = id_max" "repo_next_id r \<le> id_max"
    using assms(1,2) by (auto simp: repo_wf_def)
  then have "repo_wf name_of id_max ?r" using assms by (intro write_wf) auto
  moreover have "repo_update name_of i x r = Some (Inr (), ?r)"
    using id_known [OF assms(1), of i] assms(2,3) by (auto simp: repo_update_def name_to_id_def)
  ultimately show thesis by (intro that [of ?r]) (auto simp: get_by_id_def map_of_hm_insert fun_eq_iff)
qed

lemma update_refused:
  assumes "repo_wf name_of id_max r"
  shows "get_by_id r i = None \<Longrightarrow> repo_update name_of i x r = Some (Inl (RepoNotFound i), r)"
    and "get_by_id r i \<noteq> None \<Longrightarrow> name_to_id r (name_of x) \<notin> {None, Some i} \<Longrightarrow>
      repo_update name_of i x r = Some (Inl (RepoAlreadyExistsByName (name_of x)), r)"
  using id_known [OF assms, of i] by (auto simp: repo_update_def name_to_id_def)

lemma modify_known:
  assumes "repo_wf name_of id_max r" and "get_by_id r i = Some x" and "f x = Inr x'" and "name_of x' = name_of x"
  obtains r' where "modify_by_id name_of fe i f r = Some (Inr (), r')" "repo_wf name_of id_max r'"
    "get_by_id r' = (get_by_id r)(i \<mapsto> x')" "repo_next_id r' = repo_next_id r"
proof -
  have "name_to_id r (name_of x') = Some i" using lookup_name(1) [OF assms(1)] assms(2,4) by metis
  then obtain r' where "repo_update name_of i x' r = Some (Inr (), r')" "repo_wf name_of id_max r'"
    "get_by_id r' = (get_by_id r)(i \<mapsto> x')" "repo_next_id r' = repo_next_id r"
    using update_known [OF assms(1), of i x'] assms(2) by auto
  then show thesis using assms(2,3) by (intro that [of r']) (simp_all add: modify_by_id_def require_by_id_def)
qed

lemma remove_wf:
  assumes "repo_wf name_of id_max r"
  shows "repo_wf name_of id_max (repo_remove i r)" and "get_by_id (repo_remove i r) = (get_by_id r)(i := None)"
    and "repo_next_id (repo_remove i r) = repo_next_id r"
proof -
  have wfs: "bm_wf (repo_id_name_map r)"
    "\<And>i n. (i, n) \<in> set (repo_id_name_map r) \<longleftrightarrow> map_option name_of (get_by_id r i) = Some n"
    "\<And>i. get_by_id r i \<noteq> None \<Longrightarrow> i < repo_next_id r \<or> i = id_max" "repo_next_id r \<le> id_max"
    using assms by (simp_all add: repo_wf_def)
  show get: "get_by_id (repo_remove i r) = (get_by_id r)(i := None)"
    by (simp add: get_by_id_def repo_remove_def map_of_hm_remove fun_eq_iff)
  show next_id: "repo_next_id (repo_remove i r) = repo_next_id r" by (simp add: repo_remove_def)
  have "repo_id_name_map (repo_remove i r) = filter (\<lambda>(j, k). j \<noteq> i) (repo_id_name_map r)"
    by (simp add: repo_remove_def remove_by_left_def)
  then show "repo_wf name_of id_max (repo_remove i r)"
    using wfs bm_wf_filter [OF wfs(1)] unfolding repo_wf_def get next_id by (auto split: if_splits)
qed

lemma next_id_free:
  assumes "repo_wf name_of id_max r" and "repo_next_id r < id_max"
  shows "get_by_id r (repo_next_id r) = None"
  using assms by (auto simp: repo_wf_def)

end

end
