(* ===== verification/Catalog_Nodes.thy ===== *)
theory Catalog_Nodes
  imports Catalog_Repository
begin

text \<open>
  Membership of the cluster in the shared catalog: node definitions and their states
  (\<open>influxdb3_catalog/src/catalog/versions/v3/schema/node.rs\<close>), query groups, feature levels, the
  operations that validate a change (\<open>ops/node.rs\<close>, \<open>ops/query_group.rs\<close>, \<open>ops/feature_level.rs\<close>) and
  the records that carry it out on every replica (\<open>format/records\<close>).
\<close>

section \<open>Nodes\<close>

definition u32_max :: nat where
  "u32_max = 2 ^ 32 - 1"

datatype node_mode = CoreMode | QueryMode | IngestMode | CompactMode | ProcessMode | AllMode

fun node_mode_as_str :: "node_mode \<Rightarrow> string" where
  "node_mode_as_str CoreMode = ''core''"
| "node_mode_as_str QueryMode = ''query''"
| "node_mode_as_str IngestMode = ''ingest''"
| "node_mode_as_str CompactMode = ''compact''"
| "node_mode_as_str ProcessMode = ''process''"
| "node_mode_as_str AllMode = ''all''"

text \<open>Feature levels are ordered by component, and their minimum is by component.\<close>

datatype feature_level = FeatureLevel (fl_core: nat) (fl_enterprise: nat)

definition feature_level_le :: "feature_level \<Rightarrow> feature_level \<Rightarrow> bool" where
  "feature_level_le a b \<longleftrightarrow> fl_core a \<le> fl_core b \<and> fl_enterprise a \<le> fl_enterprise b"

instantiation feature_level :: order
begin

definition less_eq_feature_level :: "feature_level \<Rightarrow> feature_level \<Rightarrow> bool" where
  "less_eq_feature_level = feature_level_le"

definition less_feature_level :: "feature_level \<Rightarrow> feature_level \<Rightarrow> bool" where
  "less_feature_level a b \<longleftrightarrow> a \<le> b \<and> a \<noteq> (b :: feature_level)"

instance
  by standard (auto simp: less_eq_feature_level_def feature_level_le_def less_feature_level_def feature_level.expand)

end

definition feature_level_min :: "feature_level \<Rightarrow> feature_level \<Rightarrow> feature_level" where
  "feature_level_min a b = FeatureLevel (min (fl_core a) (fl_core b)) (min (fl_enterprise a) (fl_enterprise b))"

datatype record_id = CoreId nat | EnterpriseId nat

definition feature_level_allows :: "feature_level \<Rightarrow> record_id \<Rightarrow> bool" where
  "feature_level_allows l r = (case r of EnterpriseId e \<Rightarrow> e \<le> fl_enterprise l | CoreId c \<Rightarrow> c \<le> fl_core l)"

definition derive_feature_level :: "record_id list \<Rightarrow> feature_level" where
  "derive_feature_level registry =
     foldl (\<lambda>l r. case r of CoreId c \<Rightarrow> FeatureLevel (max (fl_core l) c) (fl_enterprise l)
                          | EnterpriseId e \<Rightarrow> FeatureLevel (fl_core l) (max (fl_enterprise l) e))
       (FeatureLevel 0 0) registry"

datatype node_state =
    Running time_ns
  | Stopping time_ns
  | Stopped time_ns time_ns "nat option"
  | Removing time_ns "nat option"

fun is_running :: "node_state \<Rightarrow> bool" where
  "is_running (Running t) = True"
| "is_running s = False"

fun is_removing :: "node_state \<Rightarrow> bool" where
  "is_removing (Removing t q) = True"
| "is_removing s = False"

fun final_snapshot_sequence :: "node_state \<Rightarrow> nat option" where
  "final_snapshot_sequence (Stopped t a q) = q"
| "final_snapshot_sequence (Removing t q) = q"
| "final_snapshot_sequence s = None"

fun updated_at_ns :: "node_state \<Rightarrow> time_ns" where
  "updated_at_ns (Running t) = t"
| "updated_at_ns (Stopping t) = t"
| "updated_at_ns (Stopped t a q) = a"
| "updated_at_ns (Removing t q) = t"

record node_definition =
  nd_node_id :: node_name
  nd_node_catalog_id :: nat
  nd_instance_id :: string
  nd_mode :: "node_mode list"
  nd_core_count :: nat
  nd_state :: node_state
  nd_conn_info :: "string option"
  nd_cli_params :: "string option"
  nd_row_delete_predicate_version :: nat
  nd_feature_level :: feature_level

definition can_re_register :: "node_definition \<Rightarrow> string \<Rightarrow> bool" where
  "can_re_register n incoming_instance_id =
     (case nd_state n of
        Stopped t a q \<Rightarrow> True
      | Running t \<Rightarrow> nd_instance_id n = incoming_instance_id
      | Stopping t \<Rightarrow> nd_instance_id n = incoming_instance_id
      | Removing t q \<Rightarrow> False)"

definition nd_is_ingest :: "node_definition \<Rightarrow> bool" where
  "nd_is_ingest n \<longleftrightarrow> list_ex (\<lambda>m. m = AllMode \<or> m = IngestMode) (nd_mode n)"

definition nd_is_query :: "node_definition \<Rightarrow> bool" where
  "nd_is_query n \<longleftrightarrow> list_ex (\<lambda>m. m = AllMode \<or> m = QueryMode) (nd_mode n)"

text \<open>\<open>NodeModes\<close> is the set of a node's modes.\<close>

definition modes_is_compactor :: "node_mode set \<Rightarrow> bool" where
  "modes_is_compactor ms \<longleftrightarrow> CompactMode \<in> ms \<or> AllMode \<in> ms"

section \<open>Query groups\<close>

record query_group =
  qg_id :: nat
  qg_name :: string
  qg_members :: "nat list"
  qg_replication_factor :: nat

record query_group_update =
  qu_name :: "string option"
  qu_members :: "nat list option"
  qu_replication_factor :: "nat option"

datatype insert_position = Append | Index nat

datatype member_mutation = AddMember nat insert_position | RemoveMember nat

section \<open>Records\<close>

record register_node =
  rn_node_catalog_id :: nat
  rn_node_id :: node_name
  rn_instance_id :: string
  rn_registered_time_ns :: time_ns
  rn_core_count :: nat
  rn_mode :: "node_mode list"
  rn_conn_info :: "string option"
  rn_cli_params :: "string option"
  rn_row_delete_predicate_version :: nat
  rn_feature_level :: feature_level

datatype catalog_record =
    RegisterNode register_node
  | StopNode nat time_ns
  | RequestStopNode nat time_ns
  | AckStopNode nat time_ns "nat option"
  | RemoveNode nat time_ns
  | UnregisterNode nat
  | AdvanceFeatureLevel feature_level
  | CreateQueryGroup nat string "nat list" nat
  | UpdateQueryGroup nat string "nat list" nat
  | DeleteQueryGroup nat

record membership =
  mb_committed_feature_level :: feature_level
  mb_nodes :: "node_definition repository"
  mb_query_groups :: "query_group repository"

definition membership_new :: "feature_level \<Rightarrow> membership" where
  "membership_new level =
     \<lparr>mb_committed_feature_level = level, mb_nodes = repository_new, mb_query_groups = repository_new\<rparr>"

datatype apply_error =
    InvalidReRegistration
  | NotInStoppedState
  | NotInRemovingState
  | GroupIdExists
  | GroupNameExists
  | GroupMissing
  | InvalidReplicationFactor
  | RepositoryFailed repository_error

abbreviation nodes_insert :: "nat \<Rightarrow> node_definition \<Rightarrow> node_definition repository \<Rightarrow>
    ((repository_error + unit) \<times> node_definition repository) option" where
  "nodes_insert \<equiv> repo_insert nd_node_id u32_max"

abbreviation nodes_modify :: "nat \<Rightarrow> (node_definition \<Rightarrow> apply_error + node_definition) \<Rightarrow>
    node_definition repository \<Rightarrow> ((apply_error + unit) \<times> node_definition repository) option" where
  "nodes_modify \<equiv> modify_by_id nd_node_id RepositoryFailed"

text \<open>The \<open>?\<close> after a repository operation, and the new repository stored in the catalog.\<close>

definition store_nodes ::
  "membership \<Rightarrow> (('e \<Rightarrow> apply_error)) \<Rightarrow> (('e + unit) \<times> node_definition repository) option \<Rightarrow>
   ((apply_error + unit) \<times> membership) option" where
  "store_nodes c wrap res =
     (case res of
        None \<Rightarrow> None
      | Some (Inl e, r) \<Rightarrow> Some (Inl (wrap e), c\<lparr>mb_nodes := r\<rparr>)
      | Some (Inr u, r) \<Rightarrow> Some (Inr (), c\<lparr>mb_nodes := r\<rparr>))"

definition store_groups ::
  "membership \<Rightarrow> ((repository_error + unit) \<times> query_group repository) option \<Rightarrow>
   ((apply_error + unit) \<times> membership) option" where
  "store_groups c res =
     (case res of
        None \<Rightarrow> None
      | Some (Inl e, r) \<Rightarrow> Some (Inl (RepositoryFailed e), c\<lparr>mb_query_groups := r\<rparr>)
      | Some (Inr u, r) \<Rightarrow> Some (Inr (), c\<lparr>mb_query_groups := r\<rparr>))"

definition registered_node :: "register_node \<Rightarrow> node_definition" where
  "registered_node a =
     \<lparr>nd_node_id = rn_node_id a, nd_node_catalog_id = rn_node_catalog_id a, nd_instance_id = rn_instance_id a,
      nd_mode = rn_mode a, nd_core_count = rn_core_count a, nd_state = Running (rn_registered_time_ns a),
      nd_conn_info = rn_conn_info a, nd_cli_params = rn_cli_params a,
      nd_row_delete_predicate_version = rn_row_delete_predicate_version a, nd_feature_level = rn_feature_level a\<rparr>"

definition apply_register_node :: "register_node \<Rightarrow> membership \<Rightarrow> ((apply_error + unit) \<times> membership) option" where
  "apply_register_node a c =
     (case get_by_name (mb_nodes c) (rn_node_id a) of
        Some n \<Rightarrow>
          if \<not> can_re_register n (rn_instance_id a) then Some (Inl InvalidReRegistration, c)
          else store_nodes c RepositoryFailed (repo_update nd_node_id (rn_node_catalog_id a)
                 (n\<lparr>nd_instance_id := rn_instance_id a, nd_mode := rn_mode a, nd_core_count := rn_core_count a,
                    nd_state := Running (rn_registered_time_ns a), nd_conn_info := rn_conn_info a,
                    nd_cli_params := rn_cli_params a,
                    nd_row_delete_predicate_version := rn_row_delete_predicate_version a,
                    nd_feature_level := rn_feature_level a\<rparr>) (mb_nodes c))
      | None \<Rightarrow> store_nodes c RepositoryFailed (nodes_insert (rn_node_catalog_id a) (registered_node a) (mb_nodes c)))"

definition request_stop :: "time_ns \<Rightarrow> node_definition \<Rightarrow> node_definition" where
  "request_stop t n = (case nd_state n of Running r \<Rightarrow> n\<lparr>nd_state := Stopping t\<rparr> | _ \<Rightarrow> n)"

definition ack_stop :: "time_ns \<Rightarrow> nat option \<Rightarrow> node_definition \<Rightarrow> node_definition" where
  "ack_stop t q n = (case nd_state n of Stopping stopped \<Rightarrow> n\<lparr>nd_state := Stopped stopped t q\<rparr> | _ \<Rightarrow> n)"

definition mark_removing :: "time_ns \<Rightarrow> node_definition \<Rightarrow> apply_error + node_definition" where
  "mark_removing t n =
     (case nd_state n of
        Stopped s a q \<Rightarrow> Inr (n\<lparr>nd_state := Removing t q\<rparr>)
      | Removing r q \<Rightarrow> Inr n
      | _ \<Rightarrow> Inl NotInStoppedState)"

definition apply_unregister_node :: "nat \<Rightarrow> membership \<Rightarrow> ((apply_error + unit) \<times> membership) option" where
  "apply_unregister_node i c =
     (case get_by_id (mb_nodes c) i of
        Some n \<Rightarrow> if \<not> is_removing (nd_state n) then Some (Inl NotInRemovingState, c)
                  else Some (Inr (), c\<lparr>mb_nodes := repo_remove i (mb_nodes c)\<rparr>)
      | None \<Rightarrow> Some (Inr (), c\<lparr>mb_nodes := repo_remove i (mb_nodes c)\<rparr>))"

text \<open>A \<open>usize\<close> of 64 bits: every wire value fits, only zero is rejected.\<close>

definition decode_replication_factor :: "nat \<Rightarrow> nat option" where
  "decode_replication_factor v = (if v \<le> u64_max \<and> v \<noteq> 0 then Some v else None)"

definition apply_create_query_group ::
  "nat \<Rightarrow> string \<Rightarrow> nat list \<Rightarrow> nat \<Rightarrow> membership \<Rightarrow> ((apply_error + unit) \<times> membership) option" where
  "apply_create_query_group i n ms rf c =
     (if contains_id (mb_query_groups c) i then Some (Inl GroupIdExists, c)
      else if name_to_id (mb_query_groups c) n \<noteq> None then Some (Inl GroupNameExists, c)
      else case decode_replication_factor rf of
             None \<Rightarrow> Some (Inl InvalidReplicationFactor, c)
           | Some f \<Rightarrow> store_groups c (repo_insert qg_name u32_max i
               \<lparr>qg_id = i, qg_name = n, qg_members = ms, qg_replication_factor = f\<rparr> (mb_query_groups c)))"

definition apply_update_query_group ::
  "nat \<Rightarrow> string \<Rightarrow> nat list \<Rightarrow> nat \<Rightarrow> membership \<Rightarrow> ((apply_error + unit) \<times> membership) option" where
  "apply_update_query_group i n ms rf c =
     (if \<not> contains_id (mb_query_groups c) i then Some (Inl GroupMissing, c)
      else if name_to_id (mb_query_groups c) n \<notin> {None, Some i} then Some (Inl GroupNameExists, c)
      else case decode_replication_factor rf of
             None \<Rightarrow> Some (Inl InvalidReplicationFactor, c)
           | Some f \<Rightarrow> store_groups c (repo_update qg_name i
               \<lparr>qg_id = i, qg_name = n, qg_members = ms, qg_replication_factor = f\<rparr> (mb_query_groups c)))"

definition apply_delete_query_group :: "nat \<Rightarrow> membership \<Rightarrow> ((apply_error + unit) \<times> membership) option" where
  "apply_delete_query_group i c =
     (if \<not> contains_id (mb_query_groups c) i then Some (Inl GroupMissing, c)
      else Some (Inr (), c\<lparr>mb_query_groups := repo_remove i (mb_query_groups c)\<rparr>))"

fun apply_record :: "catalog_record \<Rightarrow> membership \<Rightarrow> ((apply_error + unit) \<times> membership) option" where
  "apply_record (RegisterNode a) c = apply_register_node a c"
| "apply_record (StopNode i t) c = store_nodes c id (nodes_modify i (\<lambda>n. Inr (n\<lparr>nd_state := Stopped t t None\<rparr>)) (mb_nodes c))"
| "apply_record (RequestStopNode i t) c = store_nodes c id (nodes_modify i (\<lambda>n. Inr (request_stop t n)) (mb_nodes c))"
| "apply_record (AckStopNode i t q) c = store_nodes c id (nodes_modify i (\<lambda>n. Inr (ack_stop t q n)) (mb_nodes c))"
| "apply_record (RemoveNode i t) c = store_nodes c id (nodes_modify i (mark_removing t) (mb_nodes c))"
| "apply_record (UnregisterNode i) c = apply_unregister_node i c"
| "apply_record (AdvanceFeatureLevel l) c = Some (Inr (), c\<lparr>mb_committed_feature_level := l\<rparr>)"
| "apply_record (CreateQueryGroup i n ms rf) c = apply_create_query_group i n ms rf c"
| "apply_record (UpdateQueryGroup i n ms rf) c = apply_update_query_group i n ms rf c"
| "apply_record (DeleteQueryGroup i) c = apply_delete_query_group i c"

text \<open>The loop of \<open>apply_records\<close> over the records of a batch: the first failure ends it.  The records are
  decoded ones of known types; the flags that tell a reader how to treat unknown types, and the record
  that restores a whole catalog from a backup, are left out.\<close>

fun apply_batch :: "catalog_record list \<Rightarrow> membership \<Rightarrow> ((apply_error + unit) \<times> membership) option" where
  "apply_batch [] c = Some (Inr (), c)"
| "apply_batch (r # rs) c =
     (case apply_record r c of
        None \<Rightarrow> None
      | Some (Inl e, c') \<Rightarrow> Some (Inl e, c')
      | Some (Inr u, c') \<Rightarrow> apply_batch rs c')"

section \<open>Operations\<close>

datatype catalog_error =
    InvalidNodeRegistration
  | NodeNotFound node_name
  | NodeAlreadyStopped node_name
  | IdempotentNoOp
  | InvalidStopAck node_name
  | NodeModeNotRemovable node_name
  | NodeNotFullyStopped node_name
  | NodeInQueryGroup node_name string nat
  | InvalidUnregister node_name
  | GroupAlreadyExists
  | GroupNotFound nat
  | MemberNotFound nat
  | InvalidConfiguration
  | FeatureLevelRegression
  | NoCatalogChange
  | NodeBelowCommittedFeatureLevel feature_level feature_level


text \<open>The level all running nodes but the registering one support, with the level of this process.\<close>

definition feature_level_consensus_of_running_nodes :: "feature_level \<Rightarrow> membership \<Rightarrow> node_name \<Rightarrow> feature_level" where
  "feature_level_consensus_of_running_nodes local_level c registering =
     foldl (\<lambda>l n. if nd_node_id n = registering then l else if \<not> is_running (nd_state n) then l
                  else feature_level_min l (nd_feature_level n)) local_level (resource_iter (mb_nodes c))"

definition propose_new_feature_level :: "feature_level \<Rightarrow> membership \<Rightarrow> node_name \<Rightarrow> feature_level option" where
  "propose_new_feature_level local_level c registering =
     (let proposed = feature_level_consensus_of_running_nodes local_level c registering
      in if mb_committed_feature_level c < proposed then Some proposed else None)"

definition prepare_register_node ::
  "feature_level \<Rightarrow> register_node \<Rightarrow> membership \<Rightarrow> catalog_error + catalog_record list" where
  "prepare_register_node local_level args c =
     (let existing = get_by_name (mb_nodes c) (rn_node_id args)
      in if (case existing of Some n \<Rightarrow> \<not> can_re_register n (rn_instance_id args) | None \<Rightarrow> False)
         then Inl InvalidNodeRegistration
         else let i = (case existing of Some n \<Rightarrow> nd_node_catalog_id n | None \<Rightarrow> repo_next_id (mb_nodes c))
              in Inr (RegisterNode (args\<lparr>rn_node_catalog_id := i, rn_feature_level := local_level\<rparr>) #
                      (case propose_new_feature_level local_level c (rn_node_id args) of
                         Some target \<Rightarrow> [AdvanceFeatureLevel target] | None \<Rightarrow> [])))"

definition with_node ::
  "membership \<Rightarrow> node_name \<Rightarrow> (node_definition \<Rightarrow> catalog_error + catalog_record list) \<Rightarrow> catalog_error + catalog_record list" where
  "with_node c n f = (case get_by_name (mb_nodes c) n of None \<Rightarrow> Inl (NodeNotFound n) | Some d \<Rightarrow> f d)"

definition prepare_stop_node :: "node_name \<Rightarrow> time_ns \<Rightarrow> membership \<Rightarrow> catalog_error + catalog_record list" where
  "prepare_stop_node n t c =
     with_node c n (\<lambda>d. if \<not> is_running (nd_state d) then Inl (NodeAlreadyStopped n)
                        else Inr [StopNode (nd_node_catalog_id d) t])"

definition prepare_request_stop_node :: "node_name \<Rightarrow> time_ns \<Rightarrow> membership \<Rightarrow> catalog_error + catalog_record list" where
  "prepare_request_stop_node n t c =
     with_node c n (\<lambda>d. if \<not> is_running (nd_state d) then Inl IdempotentNoOp
                        else Inr [RequestStopNode (nd_node_catalog_id d) t])"

definition prepare_ack_stop_node ::
  "node_name \<Rightarrow> time_ns \<Rightarrow> nat option \<Rightarrow> membership \<Rightarrow> catalog_error + catalog_record list" where
  "prepare_ack_stop_node n t q c =
     with_node c n (\<lambda>d. case nd_state d of
         Stopping s \<Rightarrow> Inr [AckStopNode (nd_node_catalog_id d) t q]
       | _ \<Rightarrow> Inl (InvalidStopAck n))"

definition prepare_remove_node :: "node_name \<Rightarrow> time_ns \<Rightarrow> membership \<Rightarrow> catalog_error + catalog_record list" where
  "prepare_remove_node n t c =
     with_node c n (\<lambda>d.
       if modes_is_compactor (set (nd_mode d)) then Inl (NodeModeNotRemovable n)
       else case nd_state d of
              Stopped s a q \<Rightarrow>
                (case find (\<lambda>g. nd_node_catalog_id d \<in> set (qg_members g)) (resource_iter (mb_query_groups c)) of
                   Some g \<Rightarrow> Inl (NodeInQueryGroup n (qg_name g) (qg_id g))
                 | None \<Rightarrow> Inr [RemoveNode (nd_node_catalog_id d) t])
            | Removing r q \<Rightarrow> Inl IdempotentNoOp
            | _ \<Rightarrow> Inl (NodeNotFullyStopped n))"

definition prepare_unregister_node :: "node_name \<Rightarrow> membership \<Rightarrow> catalog_error + catalog_record list" where
  "prepare_unregister_node n c =
     with_node c n (\<lambda>d. if \<not> is_removing (nd_state d) then Inl (InvalidUnregister n)
                        else Inr [UnregisterNode (nd_node_catalog_id d)])"

definition prepare_advance_feature_level :: "feature_level \<Rightarrow> membership \<Rightarrow> catalog_error + catalog_record list" where
  "prepare_advance_feature_level target c =
     (let current = mb_committed_feature_level c
      in if fl_core target < fl_core current \<or> fl_enterprise target < fl_enterprise current then Inl FeatureLevelRegression
         else if target = current then Inl NoCatalogChange
         else Inr [AdvanceFeatureLevel target])"

definition prepare_create_query_group ::
  "string \<Rightarrow> nat list \<Rightarrow> nat \<Rightarrow> membership \<Rightarrow> catalog_error + catalog_record list" where
  "prepare_create_query_group n ms rf c =
     (if name_to_id (mb_query_groups c) n \<noteq> None then Inl GroupAlreadyExists
      else Inr [CreateQueryGroup (repo_next_id (mb_query_groups c)) n ms rf])"

definition prepare_update_query_group ::
  "nat \<Rightarrow> query_group_update \<Rightarrow> membership \<Rightarrow> catalog_error + catalog_record list" where
  "prepare_update_query_group i u c =
     (case get_by_id (mb_query_groups c) i of
        None \<Rightarrow> Inl (GroupNotFound i)
      | Some g \<Rightarrow>
          (let n = (case qu_name u of Some n \<Rightarrow> n | None \<Rightarrow> qg_name g)
           in if name_to_id (mb_query_groups c) n \<notin> {None, Some i} then Inl GroupAlreadyExists
              else Inr [UpdateQueryGroup i n (case qu_members u of Some ms \<Rightarrow> ms | None \<Rightarrow> qg_members g)
                          (case qu_replication_factor u of Some f \<Rightarrow> f | None \<Rightarrow> qg_replication_factor g)]))"

text \<open>\<open>Vec::insert\<close> and \<open>Vec::remove\<close> at an index.\<close>

definition mutate_members :: "member_mutation \<Rightarrow> nat list \<Rightarrow> catalog_error + nat list" where
  "mutate_members mu ms =
     (case mu of
        AddMember m p \<Rightarrow>
          (case p of
             Append \<Rightarrow> Inr (ms @ [m])
           | Index k \<Rightarrow> if k > length ms then Inl InvalidConfiguration else Inr (take k ms @ m # drop k ms))
      | RemoveMember m \<Rightarrow>
          (case position (\<lambda>x. x = m) ms of
             Some k \<Rightarrow> Inr (remove_at k ms)
           | None \<Rightarrow> Inl (MemberNotFound m)))"

definition prepare_update_query_group_members ::
  "nat \<Rightarrow> member_mutation \<Rightarrow> membership \<Rightarrow> catalog_error + catalog_record list" where
  "prepare_update_query_group_members i mu c =
     (case get_by_id (mb_query_groups c) i of
        None \<Rightarrow> Inl (GroupNotFound i)
      | Some g \<Rightarrow>
          (case mutate_members mu (qg_members g) of
             Inl e \<Rightarrow> Inl e
           | Inr ms \<Rightarrow> Inr [UpdateQueryGroup i (qg_name g) ms (qg_replication_factor g)]))"

definition prepare_delete_query_group :: "nat \<Rightarrow> membership \<Rightarrow> catalog_error + catalog_record list" where
  "prepare_delete_query_group i c =
     (case get_by_id (mb_query_groups c) i of
        None \<Rightarrow> Inl (GroupNotFound i)
      | Some g \<Rightarrow> Inr [DeleteQueryGroup (qg_id g)])"

datatype membership_op =
    RegisterNodeOp register_node
  | StopNodeOp node_name time_ns
  | RequestStopNodeOp node_name time_ns
  | AckStopNodeOp node_name time_ns "nat option"
  | RemoveNodeOp node_name time_ns
  | UnregisterNodeOp node_name
  | AdvanceFeatureLevelOp feature_level
  | CreateQueryGroupOp string "nat list" nat
  | UpdateQueryGroupOp nat query_group_update
  | UpdateQueryGroupMembersOp nat member_mutation
  | DeleteQueryGroupOp nat

fun prepare :: "feature_level \<Rightarrow> membership_op \<Rightarrow> membership \<Rightarrow> catalog_error + catalog_record list" where
  "prepare l (RegisterNodeOp a) c = prepare_register_node l a c"
| "prepare l (StopNodeOp n t) c = prepare_stop_node n t c"
| "prepare l (RequestStopNodeOp n t) c = prepare_request_stop_node n t c"
| "prepare l (AckStopNodeOp n t q) c = prepare_ack_stop_node n t q c"
| "prepare l (RemoveNodeOp n t) c = prepare_remove_node n t c"
| "prepare l (UnregisterNodeOp n) c = prepare_unregister_node n c"
| "prepare l (AdvanceFeatureLevelOp t) c = prepare_advance_feature_level t c"
| "prepare l (CreateQueryGroupOp n ms rf) c = prepare_create_query_group n ms rf c"
| "prepare l (UpdateQueryGroupOp i u) c = prepare_update_query_group i u c"
| "prepare l (UpdateQueryGroupMembersOp i mu) c = prepare_update_query_group_members i mu c"
| "prepare l (DeleteQueryGroupOp i) c = prepare_delete_query_group i c"

section \<open>Consistency of the membership\<close>

interpretation nodes: catalog_resource nd_node_id u32_max
  by unfold_locales (simp add: u32_max_def)

interpretation groups: catalog_resource qg_name u32_max
  by unfold_locales (simp add: u32_max_def)

definition group_ok :: "nat \<Rightarrow> query_group \<Rightarrow> bool" where
  "group_ok i g \<longleftrightarrow> qg_id g = i \<and> 0 < qg_replication_factor g \<and> qg_replication_factor g \<le> u64_max"

definition membership_wf :: "membership \<Rightarrow> bool" where
  "membership_wf c \<longleftrightarrow>
     repo_wf nd_node_id u32_max (mb_nodes c) \<and> repo_wf qg_name u32_max (mb_query_groups c) \<and>
     (\<forall>i n. get_by_id (mb_nodes c) i = Some n \<longrightarrow> nd_node_catalog_id n = i) \<and>
     (\<forall>i g. get_by_id (mb_query_groups c) i = Some g \<longrightarrow> group_ok i g)"

text \<open>What the types of the arguments ensure, and that identifiers are left.\<close>

fun op_ok :: "membership \<Rightarrow> membership_op \<Rightarrow> bool" where
  "op_ok c (RegisterNodeOp a) \<longleftrightarrow> repo_next_id (mb_nodes c) < u32_max"
| "op_ok c (CreateQueryGroupOp n ms rf) \<longleftrightarrow> repo_next_id (mb_query_groups c) < u32_max \<and> 0 < rf \<and> rf \<le> u64_max"
| "op_ok c (UpdateQueryGroupOp i u) \<longleftrightarrow> (\<forall>f. qu_replication_factor u = Some f \<longrightarrow> 0 < f \<and> f \<le> u64_max)"
| "op_ok c op' \<longleftrightarrow> True"

inductive lifecycle :: "node_state \<Rightarrow> node_state \<Rightarrow> bool" where
  restart: "\<not> is_removing s \<Longrightarrow> lifecycle s (Running t)"
| stop: "lifecycle (Running r) (Stopped t t None)"
| request: "lifecycle (Running r) (Stopping t)"
| ack: "lifecycle (Stopping t) (Stopped t a q)"
| remove: "lifecycle (Stopped t a q) (Removing r q)"

inductive_cases lifecycle_removing [elim!]: "lifecycle (Removing t q) s"

text \<open>How the nodes of a catalog may differ after an operation: a new node has a fresh identifier and runs,
  a node that left was being removed, every other keeps its name and follows its life cycle.\<close>

definition nodes_evolve :: "node_definition repository \<Rightarrow> node_definition repository \<Rightarrow> bool" where
  "nodes_evolve r r' \<longleftrightarrow>
     repo_next_id r \<le> repo_next_id r' \<and>
     (\<forall>i. case get_by_id r i of
            None \<Rightarrow> (case get_by_id r' i of None \<Rightarrow> True | Some n' \<Rightarrow> repo_next_id r \<le> i \<and> is_running (nd_state n'))
          | Some n \<Rightarrow> (case get_by_id r' i of None \<Rightarrow> is_removing (nd_state n)
                       | Some n' \<Rightarrow> nd_node_id n' = nd_node_id n \<and> (n' = n \<or> lifecycle (nd_state n) (nd_state n'))))"

lemma get_by_id_new [simp]: "get_by_id repository_new i = None"
  by (simp add: get_by_id_def repository_new_def)

lemma membership_wf_new: "membership_wf (membership_new l)"
  by (simp add: membership_wf_def membership_new_def)

lemma nodes_evolve_refl [simp]: "nodes_evolve r r"
  by (auto simp: nodes_evolve_def split: option.splits)

lemma nodes_evolve_write:
  assumes "get_by_id r' = (get_by_id r)(i \<mapsto> n')" and "repo_next_id r \<le> repo_next_id r'"
    and "\<And>n. get_by_id r i = Some n \<Longrightarrow> nd_node_id n' = nd_node_id n \<and> (n' = n \<or> lifecycle (nd_state n) (nd_state n'))"
    and "get_by_id r i = None \<Longrightarrow> repo_next_id r \<le> i \<and> is_running (nd_state n')"
  shows "nodes_evolve r r'"
  using assms by (auto simp: nodes_evolve_def split: option.splits)

lemma node_by_name:
  assumes "membership_wf c" and "get_by_name (mb_nodes c) n = Some d"
  shows "get_by_id (mb_nodes c) (nd_node_catalog_id d) = Some d" and "nd_node_id d = n"
  using assms nodes.lookup_name(2) [of "mb_nodes c" n d] by (auto simp: membership_wf_def)

text \<open>A change of a registered node that keeps its name.\<close>

lemma node_change:
  assumes wf: "membership_wf c" and at: "get_by_id (mb_nodes c) i = Some n" and f: "f n = Inr n'"
    and keep: "nd_node_id n' = nd_node_id n" "nd_node_catalog_id n' = nd_node_catalog_id n"
    and step: "n' = n \<or> lifecycle (nd_state n) (nd_state n')"
  shows "\<exists>c'. store_nodes c id (nodes_modify i f (mb_nodes c)) = Some (Inr (), c') \<and> membership_wf c' \<and>
    nodes_evolve (mb_nodes c) (mb_nodes c')"
proof -
  have wfn: "repo_wf nd_node_id u32_max (mb_nodes c)" using wf by (simp add: membership_wf_def)
  obtain r' where r: "nodes_modify i f (mb_nodes c) = Some (Inr (), r')" "repo_wf nd_node_id u32_max r'"
    "get_by_id r' = (get_by_id (mb_nodes c))(i \<mapsto> n')" "repo_next_id r' = repo_next_id (mb_nodes c)"
    by (rule nodes.modify_known [of "mb_nodes c" i n f n' RepositoryFailed, OF wfn at f keep(1)])
  let ?c = "c\<lparr>mb_nodes := r'\<rparr>"
  have "nd_node_catalog_id n = i" using wf at by (simp add: membership_wf_def)
  then have "membership_wf ?c" using wf r(2) keep(2) unfolding membership_wf_def by (simp add: r(3))
  moreover have "nodes_evolve (mb_nodes c) r'" using r(3,4) at keep(1) step by (intro nodes_evolve_write [of _ _ i n']) auto
  ultimately show ?thesis using r(1) by (simp add: store_nodes_def)
qed

text \<open>What a registration leaves: a node under its name with the level it announced.\<close>

definition registers :: "register_node \<Rightarrow> membership \<Rightarrow> membership \<Rightarrow> bool" where
  "registers a c c' \<longleftrightarrow>
     membership_wf c' \<and> nodes_evolve (mb_nodes c) (mb_nodes c') \<and>
     mb_committed_feature_level c' = mb_committed_feature_level c \<and>
     (\<exists>n'. get_by_id (mb_nodes c') = (get_by_id (mb_nodes c))(rn_node_catalog_id a \<mapsto> n') \<and> nd_node_id n' = rn_node_id a \<and>
       nd_feature_level n' = rn_feature_level a)"

lemma apply_register_new:
  assumes wf: "membership_wf c" and room: "repo_next_id (mb_nodes c) < u32_max"
    and i: "rn_node_catalog_id a = repo_next_id (mb_nodes c)" and new: "get_by_name (mb_nodes c) (rn_node_id a) = None"
  shows "\<exists>c'. apply_register_node a c = Some (Inr (), c') \<and> registers a c c'"
proof -
  let ?i = "repo_next_id (mb_nodes c)" and ?n = "registered_node a"
  have wfn: "repo_wf nd_node_id u32_max (mb_nodes c)" using wf by (simp add: membership_wf_def)
  have n: "nd_node_id ?n = rn_node_id a" "nd_node_catalog_id ?n = ?i" "is_running (nd_state ?n)" "nd_feature_level ?n = rn_feature_level a"
    by (simp_all add: registered_node_def i)
  note free = nodes.next_id_free [OF wfn room]
  have "name_to_id (mb_nodes c) (nd_node_id ?n) = None" using new nodes.name_free [OF wfn] n(1) by simp
  then obtain r' where r: "nodes_insert ?i ?n (mb_nodes c) = Some (Inr (), r')" "repo_wf nd_node_id u32_max r'"
    "get_by_id r' = (get_by_id (mb_nodes c))(?i \<mapsto> ?n)" "?i \<le> repo_next_id r'"
    using nodes.insert_new [OF wfn free, of ?n] room less_imp_le by metis
  let ?c = "c\<lparr>mb_nodes := r'\<rparr>"
  have "membership_wf ?c" using wf r(2) n(2) unfolding membership_wf_def by (simp add: r(3))
  moreover have "nodes_evolve (mb_nodes c) r'" using r(3,4) free n(3) by (intro nodes_evolve_write [of _ _ ?i ?n]) simp_all
  ultimately have "registers a c ?c" unfolding registers_def using r(3) n(1,4) i by (auto intro: exI [of _ ?n])
  then show ?thesis using r(1) new i by (simp add: apply_register_node_def store_nodes_def)
qed

lemma apply_register_known:
  assumes wf: "membership_wf c" and known: "get_by_name (mb_nodes c) (rn_node_id a) = Some n"
    and i: "rn_node_catalog_id a = nd_node_catalog_id n" and re: "can_re_register n (rn_instance_id a)"
  shows "\<exists>c'. apply_register_node a c = Some (Inr (), c') \<and> registers a c c'"
proof -
  note n = node_by_name [OF wf known]
  let ?i = "nd_node_catalog_id n"
  define n' where "n' = n\<lparr>nd_instance_id := rn_instance_id a, nd_mode := rn_mode a, nd_core_count := rn_core_count a,
                    nd_state := Running (rn_registered_time_ns a), nd_conn_info := rn_conn_info a,
                    nd_cli_params := rn_cli_params a,
                    nd_row_delete_predicate_version := rn_row_delete_predicate_version a,
                    nd_feature_level := rn_feature_level a\<rparr>"
  have n': "nd_node_id n' = rn_node_id a" "nd_node_catalog_id n' = ?i" "nd_state n' = Running (rn_registered_time_ns a)"
    "nd_feature_level n' = rn_feature_level a" by (simp_all add: n'_def n(2))
  have wfn: "repo_wf nd_node_id u32_max (mb_nodes c)" using wf by (simp add: membership_wf_def)
  have "name_to_id (mb_nodes c) (nd_node_id n') = Some ?i" using nodes.lookup_name(1) [OF wfn] n n'(1) by auto
  then obtain r' where r: "repo_update nd_node_id ?i n' (mb_nodes c) = Some (Inr (), r')" "repo_wf nd_node_id u32_max r'"
    "get_by_id r' = (get_by_id (mb_nodes c))(?i \<mapsto> n')" "repo_next_id r' = repo_next_id (mb_nodes c)"
    using nodes.update_known [OF wfn, of ?i n'] n(1) by auto
  let ?c = "c\<lparr>mb_nodes := r'\<rparr>"
  have "\<not> is_removing (nd_state n)" using re by (cases "nd_state n") (auto simp: can_re_register_def)
  then have "lifecycle (nd_state n) (nd_state n')" unfolding n'(3) by (rule lifecycle.restart)
  then have "nodes_evolve (mb_nodes c) r'" using r(3,4) n n'(1) by (intro nodes_evolve_write [of _ _ ?i n']) simp_all
  moreover have "membership_wf ?c" using wf r(2) n'(2) unfolding membership_wf_def by (simp add: r(3))
  ultimately have "registers a c ?c" unfolding registers_def using r(3) n'(1,4) i by (auto intro: exI [of _ n'])
  then show ?thesis using known re r(1) i by (simp add: apply_register_node_def store_nodes_def n'_def)
qed

lemma group_write:
  assumes wf: "membership_wf c" and g: "group_ok i g" and res: "res = Some (Inr (), r')" "repo_wf qg_name u32_max r'"
    and get: "get_by_id r' = (get_by_id (mb_query_groups c))(i \<mapsto> g)"
  shows "\<exists>c'. store_groups c res = Some (Inr (), c') \<and> membership_wf c' \<and> nodes_evolve (mb_nodes c) (mb_nodes c')"
proof -
  let ?c = "c\<lparr>mb_query_groups := r'\<rparr>"
  have "membership_wf ?c" using wf res(2) g unfolding membership_wf_def by (simp add: get)
  then show ?thesis using res(1) by (simp add: store_groups_def)
qed

lemma apply_update_group_ok:
  assumes wf: "membership_wf c" and at: "get_by_id (mb_query_groups c) i = Some g"
    and name: "name_to_id (mb_query_groups c) n \<in> {None, Some i}" and rf: "0 < rf" "rf \<le> u64_max"
  shows "\<exists>c'. apply_update_query_group i n ms rf c = Some (Inr (), c') \<and> membership_wf c' \<and> nodes_evolve (mb_nodes c) (mb_nodes c')"
proof -
  let ?g = "\<lparr>qg_id = i, qg_name = n, qg_members = ms, qg_replication_factor = rf\<rparr>"
  have "repo_wf qg_name u32_max (mb_query_groups c)" using wf by (simp add: membership_wf_def)
  then obtain r' where r: "repo_update qg_name i ?g (mb_query_groups c) = Some (Inr (), r')" "repo_wf qg_name u32_max r'"
    "get_by_id r' = (get_by_id (mb_query_groups c))(i \<mapsto> ?g)"
    using groups.update_known [of "mb_query_groups c" i ?g] at name by auto
  have "contains_id (mb_query_groups c) i" using at by (simp add: contains_id_def get_by_id_def)
  then show ?thesis
    using group_write [OF wf _ r(1,2,3)] name rf
    by (auto simp: apply_update_query_group_def decode_replication_factor_def group_ok_def)
qed

lemma apply_create_group_ok:
  assumes wf: "membership_wf c" and room: "repo_next_id (mb_query_groups c) < u32_max"
    and name: "name_to_id (mb_query_groups c) n = None" and rf: "0 < rf" "rf \<le> u64_max"
  shows "\<exists>c'. apply_create_query_group (repo_next_id (mb_query_groups c)) n ms rf c = Some (Inr (), c') \<and>
    membership_wf c' \<and> nodes_evolve (mb_nodes c) (mb_nodes c')"
proof -
  let ?i = "repo_next_id (mb_query_groups c)"
  let ?g = "\<lparr>qg_id = ?i, qg_name = n, qg_members = ms, qg_replication_factor = rf\<rparr>"
  have wfg: "repo_wf qg_name u32_max (mb_query_groups c)" using wf by (simp add: membership_wf_def)
  note free = groups.next_id_free [OF wfg room]
  then obtain r' where r: "repo_insert qg_name u32_max ?i ?g (mb_query_groups c) = Some (Inr (), r')" "repo_wf qg_name u32_max r'"
    "get_by_id r' = (get_by_id (mb_query_groups c))(?i \<mapsto> ?g)"
    using groups.insert_new [OF wfg, of ?i ?g] name room by auto
  have "\<not> contains_id (mb_query_groups c) ?i" using free by (simp add: contains_id_def get_by_id_def)
  then show ?thesis
    using group_write [OF wf _ r(1,2,3)] name rf
    by (auto simp: apply_create_query_group_def decode_replication_factor_def group_ok_def)
qed

lemma apply_delete_group_ok:
  assumes wf: "membership_wf c" and at: "get_by_id (mb_query_groups c) i = Some g"
  shows "\<exists>c'. apply_delete_query_group i c = Some (Inr (), c') \<and> membership_wf c' \<and> nodes_evolve (mb_nodes c) (mb_nodes c')"
proof -
  let ?c = "c\<lparr>mb_query_groups := repo_remove i (mb_query_groups c)\<rparr>"
  have wfg: "repo_wf qg_name u32_max (mb_query_groups c)" using wf by (simp add: membership_wf_def)
  have "membership_wf ?c"
    using wf groups.remove_wf(1) [OF wfg] unfolding membership_wf_def by (auto simp: groups.remove_wf(2) [OF wfg] split: if_splits)
  moreover have "contains_id (mb_query_groups c) i" using at by (simp add: contains_id_def get_by_id_def)
  ultimately show ?thesis by (simp add: apply_delete_query_group_def)
qed

lemma apply_unregister_ok:
  assumes wf: "membership_wf c" and at: "get_by_id (mb_nodes c) i = Some n" and gone: "is_removing (nd_state n)"
  shows "\<exists>c'. apply_unregister_node i c = Some (Inr (), c') \<and> membership_wf c' \<and> nodes_evolve (mb_nodes c) (mb_nodes c')"
proof -
  let ?c = "c\<lparr>mb_nodes := repo_remove i (mb_nodes c)\<rparr>"
  have wfn: "repo_wf nd_node_id u32_max (mb_nodes c)" using wf by (simp add: membership_wf_def)
  note get = nodes.remove_wf(2) [OF wfn, of i]
  have "membership_wf ?c"
    using wf nodes.remove_wf(1) [OF wfn] unfolding membership_wf_def by (auto simp: get split: if_splits)
  moreover have "nodes_evolve (mb_nodes c) (repo_remove i (mb_nodes c))"
    using at gone nodes.remove_wf(3) [OF wfn, of i] by (auto simp: nodes_evolve_def get split: option.splits)
  ultimately show ?thesis using at gone by (simp add: apply_unregister_node_def)
qed

section \<open>Accepted operations\<close>

lemma register_applies:
  assumes wf: "membership_wf c" and ok: "repo_next_id (mb_nodes c) < u32_max" and prep: "prepare_register_node l a c = Inr recs"
  shows "\<exists>i c1. apply_batch recs c = Some (Inr (), c1\<lparr>mb_committed_feature_level :=
        (case propose_new_feature_level l c (rn_node_id a) of Some t \<Rightarrow> t | None \<Rightarrow> mb_committed_feature_level c)\<rparr>) \<and>
    registers (a\<lparr>rn_node_catalog_id := i, rn_feature_level := l\<rparr>) c c1"
proof -
  let ?i = "case get_by_name (mb_nodes c) (rn_node_id a) of Some n \<Rightarrow> nd_node_catalog_id n | None \<Rightarrow> repo_next_id (mb_nodes c)"
  let ?a = "a\<lparr>rn_node_catalog_id := ?i, rn_feature_level := l\<rparr>"
  let ?adv = "case propose_new_feature_level l c (rn_node_id a) of Some target \<Rightarrow> [AdvanceFeatureLevel target] | None \<Rightarrow> []"
  have recs: "recs = RegisterNode ?a # ?adv"
    and re: "\<And>n. get_by_name (mb_nodes c) (rn_node_id a) = Some n \<Longrightarrow> can_re_register n (rn_instance_id a)"
    using prep by (auto simp: prepare_register_node_def Let_def split: option.splits if_splits)
  have "\<exists>c1. apply_register_node ?a c = Some (Inr (), c1) \<and> registers ?a c c1"
  proof (cases "get_by_name (mb_nodes c) (rn_node_id a)")
    case None
    then show ?thesis by (intro apply_register_new [OF wf ok]) simp_all
  next
    case (Some n)
    then show ?thesis using re by (intro apply_register_known [OF wf, of _ n]) simp_all
  qed
  then obtain c1 where c1: "apply_register_node ?a c = Some (Inr (), c1)" "registers ?a c c1" by blast
  then have "mb_committed_feature_level c1 = mb_committed_feature_level c" by (simp add: registers_def)
  then have "apply_batch recs c = Some (Inr (), c1\<lparr>mb_committed_feature_level :=
        (case propose_new_feature_level l c (rn_node_id a) of Some t \<Rightarrow> t | None \<Rightarrow> mb_committed_feature_level c)\<rparr>)"
    using c1(1) unfolding recs by (cases "propose_new_feature_level l c (rn_node_id a)") simp_all
  then show ?thesis using c1(2) by blast
qed

lemma stop_applies:
  assumes "membership_wf c" and "get_by_id (mb_nodes c) i = Some n" and "is_running (nd_state n)"
  shows "\<exists>c'. apply_record (StopNode i t) c = Some (Inr (), c') \<and> membership_wf c' \<and> nodes_evolve (mb_nodes c) (mb_nodes c')"
    and "\<exists>c'. apply_record (RequestStopNode i t) c = Some (Inr (), c') \<and> membership_wf c' \<and> nodes_evolve (mb_nodes c) (mb_nodes c')"
proof -
  obtain r where "nd_state n = Running r" using assms(3) by (cases "nd_state n") auto
  then show "\<exists>c'. apply_record (StopNode i t) c = Some (Inr (), c') \<and> membership_wf c' \<and> nodes_evolve (mb_nodes c) (mb_nodes c')"
    and "\<exists>c'. apply_record (RequestStopNode i t) c = Some (Inr (), c') \<and> membership_wf c' \<and> nodes_evolve (mb_nodes c) (mb_nodes c')"
    using node_change [OF assms(1,2), of "\<lambda>n. Inr (n\<lparr>nd_state := Stopped t t None\<rparr>)" "n\<lparr>nd_state := Stopped t t None\<rparr>"]
      node_change [OF assms(1,2), of "\<lambda>n. Inr (request_stop t n)" "n\<lparr>nd_state := Stopping t\<rparr>"]
    by (simp_all add: lifecycle.stop lifecycle.request request_stop_def)
qed

lemma ack_applies:
  assumes "membership_wf c" and "get_by_id (mb_nodes c) i = Some n" and "nd_state n = Stopping s"
  shows "\<exists>c'. apply_record (AckStopNode i t q) c = Some (Inr (), c') \<and> membership_wf c' \<and> nodes_evolve (mb_nodes c) (mb_nodes c')"
  using node_change [OF assms(1,2), of "\<lambda>n. Inr (ack_stop t q n)" "n\<lparr>nd_state := Stopped s t q\<rparr>"] assms(3)
  by (simp add: lifecycle.ack ack_stop_def)

lemma remove_applies:
  assumes "membership_wf c" and "get_by_id (mb_nodes c) i = Some n" and "nd_state n = Stopped s a q"
  shows "\<exists>c'. apply_record (RemoveNode i t) c = Some (Inr (), c') \<and> membership_wf c' \<and> nodes_evolve (mb_nodes c) (mb_nodes c')"
  using node_change [OF assms(1,2), of "mark_removing t" "n\<lparr>nd_state := Removing t q\<rparr>"] assms(3)
  by (simp add: lifecycle.remove mark_removing_def)

text \<open>The operations on one node: what \<open>with_node\<close> found is registered under its identifier.\<close>

lemma node_op_applies:
  assumes wf: "membership_wf c" and prep: "with_node c m f = Inr recs"
    and f: "\<And>d. f d = Inr recs \<Longrightarrow> get_by_id (mb_nodes c) (nd_node_catalog_id d) = Some d \<Longrightarrow> \<exists>r c'. recs = [r] \<and>
       apply_record r c = Some (Inr (), c') \<and> membership_wf c' \<and> nodes_evolve (mb_nodes c) (mb_nodes c')"
  shows "\<exists>c'. apply_batch recs c = Some (Inr (), c') \<and> membership_wf c' \<and> nodes_evolve (mb_nodes c) (mb_nodes c')"
proof -
  obtain d where d: "get_by_name (mb_nodes c) m = Some d" "f d = Inr recs"
    using prep by (auto simp: with_node_def split: option.splits)
  from f [OF d(2) node_by_name(1) [OF wf d(1)]] show ?thesis by auto
qed

lemma node_ops_apply:
  assumes wf: "membership_wf c"
  shows "prepare_stop_node m t c = Inr recs \<Longrightarrow>
      \<exists>c'. apply_batch recs c = Some (Inr (), c') \<and> membership_wf c' \<and> nodes_evolve (mb_nodes c) (mb_nodes c')"
    and "prepare_request_stop_node m t c = Inr recs \<Longrightarrow>
      \<exists>c'. apply_batch recs c = Some (Inr (), c') \<and> membership_wf c' \<and> nodes_evolve (mb_nodes c) (mb_nodes c')"
    and "prepare_ack_stop_node m t q c = Inr recs \<Longrightarrow>
      \<exists>c'. apply_batch recs c = Some (Inr (), c') \<and> membership_wf c' \<and> nodes_evolve (mb_nodes c) (mb_nodes c')"
    and "prepare_remove_node m t c = Inr recs \<Longrightarrow>
      \<exists>c'. apply_batch recs c = Some (Inr (), c') \<and> membership_wf c' \<and> nodes_evolve (mb_nodes c) (mb_nodes c')"
    and "prepare_unregister_node m c = Inr recs \<Longrightarrow>
      \<exists>c'. apply_batch recs c = Some (Inr (), c') \<and> membership_wf c' \<and> nodes_evolve (mb_nodes c) (mb_nodes c')"
  unfolding prepare_stop_node_def prepare_request_stop_node_def prepare_ack_stop_node_def prepare_remove_node_def
    prepare_unregister_node_def
  by (erule node_op_applies [OF wf]; auto split: if_splits node_state.splits option.splits simp del: apply_record.simps
      intro!: stop_applies [OF wf] ack_applies [OF wf] remove_applies [OF wf] apply_unregister_ok [OF wf, folded apply_record.simps])+

lemma group_ops_apply:
  assumes wf: "membership_wf c"
  shows "prepare_update_query_group i u c = Inr recs \<Longrightarrow> op_ok c (UpdateQueryGroupOp i u) \<Longrightarrow>
      \<exists>c'. apply_batch recs c = Some (Inr (), c') \<and> membership_wf c' \<and> nodes_evolve (mb_nodes c) (mb_nodes c')"
    and "prepare_update_query_group_members i mu c = Inr recs \<Longrightarrow>
      \<exists>c'. apply_batch recs c = Some (Inr (), c') \<and> membership_wf c' \<and> nodes_evolve (mb_nodes c) (mb_nodes c')"
proof -
  have known: "group_ok i g \<and> name_to_id (mb_query_groups c) (qg_name g) = Some i" if "get_by_id (mb_query_groups c) i = Some g" for g
    using that wf groups.lookup_name(1) [of "mb_query_groups c" "qg_name g" i] by (auto simp: membership_wf_def)
  show "prepare_update_query_group i u c = Inr recs \<Longrightarrow> op_ok c (UpdateQueryGroupOp i u) \<Longrightarrow>
      \<exists>c'. apply_batch recs c = Some (Inr (), c') \<and> membership_wf c' \<and> nodes_evolve (mb_nodes c) (mb_nodes c')"
  proof (cases "get_by_id (mb_query_groups c) i")
    case (Some g)
    let ?n = "case qu_name u of Some n \<Rightarrow> n | None \<Rightarrow> qg_name g"
    let ?rf = "case qu_replication_factor u of Some f \<Rightarrow> f | None \<Rightarrow> qg_replication_factor g"
    assume prep: "prepare_update_query_group i u c = Inr recs" and "op_ok c (UpdateQueryGroupOp i u)"
    then have "0 < ?rf" "?rf \<le> u64_max" using known [OF Some] by (auto simp: group_ok_def split: option.splits)
    moreover have "name_to_id (mb_query_groups c) ?n \<in> {None, Some i}"
      "recs = [UpdateQueryGroup i ?n (case qu_members u of Some ms \<Rightarrow> ms | None \<Rightarrow> qg_members g) ?rf]"
      using prep Some by (auto simp: prepare_update_query_group_def Let_def split: if_splits)
    ultimately show ?thesis
      using apply_update_group_ok [OF wf Some, of ?n ?rf "case qu_members u of Some ms \<Rightarrow> ms | None \<Rightarrow> qg_members g"] by auto
  qed (simp add: prepare_update_query_group_def)
  show "prepare_update_query_group_members i mu c = Inr recs \<Longrightarrow>
      \<exists>c'. apply_batch recs c = Some (Inr (), c') \<and> membership_wf c' \<and> nodes_evolve (mb_nodes c) (mb_nodes c')"
  proof (cases "get_by_id (mb_query_groups c) i")
    case (Some g)
    assume "prepare_update_query_group_members i mu c = Inr recs"
    then obtain ms where "recs = [UpdateQueryGroup i (qg_name g) ms (qg_replication_factor g)]"
      using Some by (auto simp: prepare_update_query_group_members_def split: sum.splits)
    then show ?thesis
      using apply_update_group_ok [OF wf Some, of "qg_name g" "qg_replication_factor g" ms] known [OF Some] by (auto simp: group_ok_def)
  qed (simp add: prepare_update_query_group_members_def)
qed

lemma accepted_applies:
  assumes wf: "membership_wf c" and ok: "op_ok c op'" and prep: "prepare l op' c = Inr recs"
  shows "\<exists>c'. apply_batch recs c = Some (Inr (), c') \<and> membership_wf c' \<and> nodes_evolve (mb_nodes c) (mb_nodes c')"
proof (cases op')
  case (RegisterNodeOp a)
  then obtain i c1 where "apply_batch recs c = Some (Inr (), c1\<lparr>mb_committed_feature_level :=
        (case propose_new_feature_level l c (rn_node_id a) of Some t \<Rightarrow> t | None \<Rightarrow> mb_committed_feature_level c)\<rparr>)"
    "registers (a\<lparr>rn_node_catalog_id := i, rn_feature_level := l\<rparr>) c c1"
    using register_applies [OF wf] ok prep by fastforce
  then show ?thesis by (auto simp: registers_def membership_wf_def)
next
  case (AdvanceFeatureLevelOp t)
  then have "recs = [AdvanceFeatureLevel t]" using prep by (auto simp: prepare_advance_feature_level_def Let_def split: if_splits)
  then show ?thesis using wf by (simp add: membership_wf_def)
next
  case (CreateQueryGroupOp n ms rf)
  then show ?thesis using apply_create_group_ok [OF wf, of n rf ms] ok prep
    by (auto simp: prepare_create_query_group_def split: if_splits)
next
  case (DeleteQueryGroupOp i)
  then show ?thesis using apply_delete_group_ok [OF wf, of i] prep wf
    by (auto simp: prepare_delete_query_group_def membership_wf_def group_ok_def split: option.splits)
qed (use prep ok node_ops_apply [OF wf] group_ops_apply [OF wf] in auto)

section \<open>Runs\<close>

text \<open>Operations are validated against the catalog they are applied to: an operation whose catalog has moved
  on is prepared again.\<close>

inductive membership_run :: "membership \<Rightarrow> membership \<Rightarrow> bool" where
  start: "membership_run c c"
| step: "membership_run c c' \<Longrightarrow> op_ok c' op' \<Longrightarrow> prepare l op' c' = Inr recs \<Longrightarrow>
    apply_batch recs c' = Some (Inr (), c'') \<Longrightarrow> membership_run c c''"

definition run_op :: "feature_level \<Rightarrow> membership \<Rightarrow> membership_op \<Rightarrow> membership" where
  "run_op l c op' =
     (case prepare l op' c of
        Inl e \<Rightarrow> c
      | Inr recs \<Rightarrow> (case apply_batch recs c of Some (Inr u, c') \<Rightarrow> c' | _ \<Rightarrow> c))"

lemma run_op_step: "membership_run c c' \<Longrightarrow> op_ok c' op' \<Longrightarrow> membership_run c (run_op l c' op')"
  by (auto simp: run_op_def split: sum.splits option.splits intro: membership_run.step)

text \<open>What a run keeps of an identifier that was allocated before it.\<close>

definition keeps_identity :: "nat \<Rightarrow> membership \<Rightarrow> membership \<Rightarrow> bool" where
  "keeps_identity i c c' \<longleftrightarrow>
     (case get_by_id (mb_nodes c') i of
        None \<Rightarrow> True
      | Some n' \<Rightarrow> (case get_by_id (mb_nodes c) i of
          None \<Rightarrow> False
        | Some n \<Rightarrow> nd_node_id n' = nd_node_id n \<and> (is_removing (nd_state n) \<longrightarrow> nd_state n' = nd_state n)))"

lemma keeps_identity_step:
  assumes "keeps_identity i c c'" and "nodes_evolve (mb_nodes c') (mb_nodes c'')" and "i < repo_next_id (mb_nodes c')"
  shows "keeps_identity i c c''"
proof -
  have at: "case get_by_id (mb_nodes c') i of
      None \<Rightarrow> (case get_by_id (mb_nodes c'') i of None \<Rightarrow> True | Some n' \<Rightarrow> repo_next_id (mb_nodes c') \<le> i \<and> is_running (nd_state n'))
    | Some n \<Rightarrow> (case get_by_id (mb_nodes c'') i of None \<Rightarrow> is_removing (nd_state n)
        | Some n' \<Rightarrow> nd_node_id n' = nd_node_id n \<and> (n' = n \<or> lifecycle (nd_state n) (nd_state n')))"
    using assms(2) unfolding nodes_evolve_def by blast
  show ?thesis
  proof (cases "get_by_id (mb_nodes c'') i")
    case (Some n2)
    with at assms(3) obtain n1 where n1: "get_by_id (mb_nodes c') i = Some n1" "nd_node_id n2 = nd_node_id n1"
      "n2 = n1 \<or> lifecycle (nd_state n1) (nd_state n2)" by (auto split: option.splits)
    with assms(1) obtain n where n: "get_by_id (mb_nodes c) i = Some n" "nd_node_id n1 = nd_node_id n"
      "is_removing (nd_state n) \<longrightarrow> nd_state n1 = nd_state n" by (auto simp: keeps_identity_def split: option.splits)
    have "is_removing (nd_state n) \<longrightarrow> nd_state n2 = nd_state n"
      using n1(3) n(3) by (cases "nd_state n") auto
    then show ?thesis using Some n n1 by (simp add: keeps_identity_def)
  qed (simp add: keeps_identity_def)
qed

lemma membership_run_keeps:
  assumes "membership_run c c'" and "membership_wf c"
  shows "membership_wf c' \<and> repo_next_id (mb_nodes c) \<le> repo_next_id (mb_nodes c') \<and>
    (\<forall>i < repo_next_id (mb_nodes c). keeps_identity i c c')"
  using assms
proof (induction rule: membership_run.induct)
  case (start c)
  then show ?case by (auto simp: keeps_identity_def split: option.splits)
next
  case (step c c' op' l recs c'')
  then have wf: "membership_wf c'" and le: "repo_next_id (mb_nodes c) \<le> repo_next_id (mb_nodes c')"
    and keeps: "\<forall>i < repo_next_id (mb_nodes c). keeps_identity i c c'" by blast+
  from accepted_applies [OF wf step.hyps(2,3)] step.hyps(4)
  have "membership_wf c''" and ev: "nodes_evolve (mb_nodes c') (mb_nodes c'')" by auto
  moreover have "repo_next_id (mb_nodes c') \<le> repo_next_id (mb_nodes c'')" using ev by (simp add: nodes_evolve_def)
  ultimately show ?case using le keeps keeps_identity_step [OF _ ev] by force
qed

section \<open>Feature levels\<close>















section \<open>Claims\<close>

text \<open>Claim C28.  An operation on the membership that its validation accepts never fails when its records are
  applied: no assertion of a repository fires, no record is rejected, and identifiers, names and
  definitions stay consistent.  Nodes change only along their life cycle: a new node has a fresh
  identifier and runs, a node disappears only while it is being removed.\<close>

theorem accepted_membership_changes_apply:
  assumes "membership_wf c" and "op_ok c op'" and "prepare l op' c = Inr recs"
  shows "\<exists>c'. apply_batch recs c = Some (Inr (), c') \<and> membership_wf c' \<and> nodes_evolve (mb_nodes c) (mb_nodes c')"
  by (rule accepted_applies [OF assms])

definition member_level :: feature_level where
  "member_level = FeatureLevel 46 9"

definition member_args :: register_node where
  "member_args = \<lparr>rn_node_catalog_id = 0, rn_node_id = ''a'', rn_instance_id = ''x'', rn_registered_time_ns = 5, rn_core_count = 4,
     rn_mode = [IngestMode], rn_conn_info = None, rn_cli_params = None, rn_row_delete_predicate_version = 0,
     rn_feature_level = FeatureLevel 0 0\<rparr>"

lemma u32_room [simp]: "0 < u32_max" "Suc 0 < u32_max" "u32_max \<noteq> 0"
  by (simp_all add: u32_max_def)

lemmas run_eval = run_op_def prepare_register_node_def prepare_request_stop_node_def prepare_ack_stop_node_def
  prepare_remove_node_def prepare_unregister_node_def with_node_def propose_new_feature_level_def
  feature_level_consensus_of_running_nodes_def apply_register_node_def apply_unregister_node_def store_nodes_def
  modify_by_id_def require_by_id_def repo_insert_def repo_update_def repo_remove_def repo_id_exists_def
  id_and_name_exists_def contains_name_def get_by_name_def get_by_id_def get_by_left_def get_by_right_def bm_insert_def
  remove_by_left_def hm_insert_def hm_remove_def resource_iter_def registered_node_def request_stop_def ack_stop_def
  mark_removing_def modes_is_compactor_def member_args_def member_level_def membership_new_def repository_new_def
  less_feature_level_def less_eq_feature_level_def feature_level_le_def feature_level_min_def Let_def

theorem accepted_membership_changes_apply_witness:
  "\<exists>c'. apply_batch [RegisterNode (member_args\<lparr>rn_feature_level := member_level\<rparr>)] (membership_new member_level) =
     Some (Inr (), c') \<and> membership_wf c'"
proof -
  have "prepare member_level (RegisterNodeOp member_args) (membership_new member_level) =
      Inr [RegisterNode (member_args\<lparr>rn_feature_level := member_level\<rparr>)]"
    by (simp add: run_eval)
  from accepted_membership_changes_apply [OF membership_wf_new _ this] show ?thesis
    by (auto simp: membership_new_def repository_new_def u32_max_def)
qed

text \<open>Claim C29.  Over any sequence of accepted operations an identifier that was allocated keeps its node:
  the node under it keeps its name, once the node has gone the identifier stays unused, and a node that
  is being removed stays so, with its last snapshot, until it is gone.\<close>

theorem allocated_identifiers_keep_their_node:
  assumes "membership_wf c" and "membership_run c c'" and "i < repo_next_id (mb_nodes c)"
  shows "(get_by_id (mb_nodes c) i = None \<longrightarrow> get_by_id (mb_nodes c') i = None) \<and>
    (\<forall>n n'. get_by_id (mb_nodes c) i = Some n \<and> get_by_id (mb_nodes c') i = Some n' \<longrightarrow>
       nd_node_id n' = nd_node_id n \<and> (is_removing (nd_state n) \<longrightarrow> nd_state n' = nd_state n))"
proof -
  have "keeps_identity i c c'" using membership_run_keeps [OF assms(2,1)] assms(3) by blast
  then show ?thesis by (auto simp: keeps_identity_def split: option.splits)
qed

definition member_gone :: membership where
  "member_gone = foldl (run_op member_level) (membership_new member_level)
     [RegisterNodeOp member_args, RequestStopNodeOp ''a'' 6, AckStopNodeOp ''a'' 7 (Some 3), RemoveNodeOp ''a'' 8,
      UnregisterNodeOp ''a'']"

theorem allocated_identifiers_keep_their_node_witness:
  "get_by_id (mb_nodes (run_op member_level member_gone (RegisterNodeOp member_args))) 0 = None \<and>
   get_by_name (mb_nodes (run_op member_level member_gone (RegisterNodeOp member_args))) ''a'' \<noteq> None"
proof -
  have run: "membership_run (membership_new member_level) member_gone"
    unfolding member_gone_def foldl.simps
    by (intro run_op_step membership_run.start; simp add: membership_new_def repository_new_def u32_max_def)
  have state: "member_gone = (membership_new member_level)\<lparr>mb_nodes := repository_new\<lparr>repo_next_id := 1\<rparr>\<rparr>"
    by (simp add: member_gone_def run_eval)
  have gone: "get_by_id (mb_nodes member_gone) 0 = None" "repo_next_id (mb_nodes member_gone) = 1"
    by (simp_all add: state get_by_id_def repository_new_def)
  have "membership_wf member_gone" using membership_run_keeps [OF run membership_wf_new] by blast
  moreover have "membership_run member_gone (run_op member_level member_gone (RegisterNodeOp member_args))"
    by (intro run_op_step membership_run.start) (simp add: gone(2) u32_max_def)
  ultimately have "get_by_id (mb_nodes (run_op member_level member_gone (RegisterNodeOp member_args))) 0 = None"
    using allocated_identifiers_keep_their_node [of member_gone _ 0] gone by simp
  moreover have "get_by_name (mb_nodes (run_op member_level member_gone (RegisterNodeOp member_args))) ''a'' \<noteq> None"
    by (simp add: state run_eval)
  ultimately show ?thesis by blast
qed



end
