(* ===== verification/Cluster_Config.thy ===== *)
theory Cluster_Config
  imports Catalog_Nodes Object_Store
begin

text \<open>
  A node's place in the cluster: the command line's roles and identifiers and how they are resolved
  (\<open>influxdb3_cluster/src/config.rs\<close>), which services a role starts (\<open>init.rs\<close>), and which node runs a
  trigger of the processing engine (\<open>pe_placement.rs\<close>).
\<close>

section \<open>Configuration\<close>

datatype cli_node_mode = CliCore | CliIngest | CliQuery | CliCompact | CliProcess | CliAll

fun node_mode_from :: "cli_node_mode \<Rightarrow> node_mode" where
  "node_mode_from CliCore = CoreMode"
| "node_mode_from CliIngest = IngestMode"
| "node_mode_from CliQuery = QueryMode"
| "node_mode_from CliCompact = CompactMode"
| "node_mode_from CliProcess = ProcessMode"
| "node_mode_from CliAll = AllMode"

datatype mode_reason = NoMode | CoreCombined | AllCombined | CompactCombined | NeedsCluster

datatype identifier_reason = EmptyIdentifier | TooLong | InvalidCharacter char

datatype cluster_error = InvalidIdentifier string string identifier_reason | InvalidMode mode_reason

text \<open>Durations are nanoseconds.\<close>

record compaction_config =
  cf_interval :: nat
  cf_min_age :: nat
  cf_max_input_size_bytes :: nat
  cf_target_size_bytes :: nat
  cf_max_inputs :: nat
  cf_input_grace :: nat

record cluster_config =
  cl_cluster_id :: "string option"
  cl_catalog_sync_interval :: nat
  cl_peer_sync_interval :: nat
  cl_file_index_snapshot_interval :: nat
  cl_cluster_rpc_bind :: string
  cl_mode :: "cli_node_mode list"
  cl_compaction :: compaction_config

record cluster_identity =
  ci_node_id :: node_name
  ci_cluster_id :: string
  ci_catalog_sync_interval :: nat
  ci_peer_sync_interval :: nat
  ci_file_index_snapshot_interval :: nat
  ci_cluster_rpc_bind :: string
  ci_modes :: "node_mode list"
  ci_compaction :: compaction_config

definition MAX_IDENTIFIER_LEN :: nat where
  "MAX_IDENTIFIER_LEN = 64"

definition is_ascii_alphanumeric :: "char \<Rightarrow> bool" where
  "is_ascii_alphanumeric c =
     (let n = (of_char c :: nat) in 48 \<le> n \<and> n \<le> 57 \<or> 65 \<le> n \<and> n \<le> 90 \<or> 97 \<le> n \<and> n \<le> 122)"

definition identifier_char :: "char \<Rightarrow> bool" where
  "identifier_char c \<longleftrightarrow> is_ascii_alphanumeric c \<or> c = CHR ''-'' \<or> c = CHR ''_''"

definition validate_identifier :: "string \<Rightarrow> string \<Rightarrow> cluster_error + unit" where
  "validate_identifier kind v =
     (if v = [] then Inl (InvalidIdentifier kind v EmptyIdentifier)
      else if length v > MAX_IDENTIFIER_LEN then Inl (InvalidIdentifier kind v TooLong)
      else case find (\<lambda>c. \<not> identifier_char c) v of
             Some c \<Rightarrow> Inl (InvalidIdentifier kind v (InvalidCharacter c))
           | None \<Rightarrow> Inr ())"

definition resolve_modes :: "cli_node_mode list \<Rightarrow> bool \<Rightarrow> bool \<Rightarrow> cluster_error + node_mode list" where
  "resolve_modes requested is_clustered plugin_dir_configured =
     (if requested = [] then Inl (InvalidMode NoMode)
      else let modes = foldl (\<lambda>ms m. if m \<in> set ms then ms else ms @ [m]) [] requested
           in if CliCore \<in> set modes \<and> length modes > 1 then Inl (InvalidMode CoreCombined)
              else if CliAll \<in> set modes \<and> length modes > 1 then Inl (InvalidMode AllCombined)
              else if CliCompact \<in> set modes \<and> length modes > 1 then Inl (InvalidMode CompactCombined)
              else if \<not> is_clustered \<and> modes \<noteq> [CliCore] then Inl (InvalidMode NeedsCluster)
              else let resolved = map node_mode_from modes
                   in Inr (if plugin_dir_configured \<and> \<not> list_ex (\<lambda>m. m = ProcessMode \<or> m = AllMode) resolved
                           then resolved @ [ProcessMode] else resolved))"

definition resolve_with_plugin_dir :: "cluster_config \<Rightarrow> string \<Rightarrow> bool \<Rightarrow> cluster_error + cluster_identity" where
  "resolve_with_plugin_dir cfg node_id plugin_dir_configured =
     (case validate_identifier ''node-id'' node_id of
        Inl e \<Rightarrow> Inl e
      | Inr u \<Rightarrow>
          (case (case cl_cluster_id cfg of
                   Some cluster_id \<Rightarrow> (case validate_identifier ''cluster-id'' cluster_id of Inl e \<Rightarrow> Inl e | Inr v \<Rightarrow> Inr cluster_id)
                 | None \<Rightarrow> Inr node_id) of
             Inl e \<Rightarrow> Inl e
           | Inr cluster_id \<Rightarrow>
               (case resolve_modes (cl_mode cfg) (cluster_id \<noteq> node_id) plugin_dir_configured of
                  Inl e \<Rightarrow> Inl e
                | Inr modes \<Rightarrow>
                    Inr \<lparr>ci_node_id = node_id, ci_cluster_id = cluster_id,
                         ci_catalog_sync_interval = cl_catalog_sync_interval cfg,
                         ci_peer_sync_interval = cl_peer_sync_interval cfg,
                         ci_file_index_snapshot_interval = cl_file_index_snapshot_interval cfg,
                         ci_cluster_rpc_bind = cl_cluster_rpc_bind cfg, ci_modes = modes,
                         ci_compaction = cl_compaction cfg\<rparr>)))"

definition ingests :: "cluster_identity \<Rightarrow> bool" where
  "ingests ci \<longleftrightarrow> list_ex (\<lambda>m. m = CoreMode \<or> m = IngestMode \<or> m = AllMode) (ci_modes ci)"

definition queries :: "cluster_identity \<Rightarrow> bool" where
  "queries ci \<longleftrightarrow> list_ex (\<lambda>m. m = CoreMode \<or> m = QueryMode \<or> m = AllMode) (ci_modes ci)"

definition compacts :: "cluster_identity \<Rightarrow> bool" where
  "compacts ci \<longleftrightarrow> list_ex (\<lambda>m. m = CompactMode \<or> m = AllMode) (ci_modes ci)"

definition processes :: "cluster_identity \<Rightarrow> bool" where
  "processes ci \<longleftrightarrow> list_ex (\<lambda>m. m = ProcessMode \<or> m = AllMode) (ci_modes ci)"

definition is_all :: "cluster_identity \<Rightarrow> bool" where
  "is_all ci \<longleftrightarrow> list_ex (\<lambda>m. m = AllMode) (ci_modes ci)"

definition is_clustered :: "cluster_identity \<Rightarrow> bool" where
  "is_clustered ci \<longleftrightarrow> ci_cluster_id ci \<noteq> ci_node_id ci"

text \<open>The services of \<open>wrap_write_buffer\<close>, in the order it starts them; the compactor knows whether it
  merges this node's own files.\<close>

datatype cluster_service = PeerChunkServer | FileIndexSync | FileIndexPublisher | CompactorLoop bool

definition wrap_write_buffer_services :: "cluster_identity \<Rightarrow> cluster_service list" where
  "wrap_write_buffer_services ci =
     (if ingests ci then [PeerChunkServer] else []) @ [FileIndexSync] @
     (if ingests ci then [FileIndexPublisher] else []) @
     (if compacts ci then [CompactorLoop (is_all ci)] else [])"

section \<open>Placement of triggers\<close>

datatype trigger_specification =
    SingleTableWalWrite string
  | AllTablesWalWrite
  | Schedule string
  | RequestPath string
  | Every nat

record trigger_definition =
  tr_trigger :: trigger_specification
  tr_arguments :: "(string, string) hash_map option"

datatype api_node_spec = SpecAll | SpecNodes "string list"

fun split_on :: "char \<Rightarrow> string \<Rightarrow> string list" where
  "split_on c [] = [[]]"
| "split_on c (x # xs) =
     (if x = c then [] # split_on c xs
      else case split_on c xs of [] \<Rightarrow> [[x]] | y # ys \<Rightarrow> (x # y) # ys)"

definition split_once :: "char \<Rightarrow> string \<Rightarrow> (string \<times> string) option" where
  "split_once c s =
     (case dropWhile (\<lambda>x. x \<noteq> c) s of [] \<Rightarrow> None | y # ys \<Rightarrow> Some (takeWhile (\<lambda>x. x \<noteq> c) s, ys))"

definition api_node_spec_from_str :: "string \<Rightarrow> api_node_spec option" where
  "api_node_spec_from_str s =
     (if s = ''all'' then Some SpecAll
      else if take 5 s = ''nodes''
           then map_option (\<lambda>(_, node_str). SpecNodes (split_on (CHR '','') node_str)) (split_once (CHR '':'') s)
           else None)"

fun join_on :: "char \<Rightarrow> string list \<Rightarrow> string" where
  "join_on c [] = []"
| "join_on c [x] = x"
| "join_on c (x # y # ys) = x @ c # join_on c (y # ys)"

definition api_node_spec_display :: "api_node_spec \<Rightarrow> string" where
  "api_node_spec_display s =
     (case s of SpecAll \<Rightarrow> ''all'' | SpecNodes ns \<Rightarrow> ''nodes:'' @ join_on (CHR '','') ns)"

text \<open>\<open>str::trim\<close> on ASCII text.\<close>

definition is_space :: "char \<Rightarrow> bool" where
  "is_space c = (let n = (of_char c :: nat) in 9 \<le> n \<and> n \<le> 13 \<or> n = 32)"

definition trim :: "string \<Rightarrow> string" where
  "trim s = rev (dropWhile is_space (rev (dropWhile is_space s)))"

datatype placement_intent = IntentAll | IntentNodes "string list" | IntentInvalid string

definition placement_intent :: "trigger_definition \<Rightarrow> placement_intent" where
  "placement_intent tr =
     (case tr_arguments tr of
        None \<Rightarrow> IntentAll
      | Some args \<Rightarrow>
          (case map_of args ''node_spec'' of
             None \<Rightarrow> IntentAll
           | Some s \<Rightarrow>
               (let raw = trim s
                in if raw = [] \<or> raw = ''all'' then IntentAll
                   else case api_node_spec_from_str raw of
                          Some SpecAll \<Rightarrow> IntentAll
                        | Some (SpecNodes names) \<Rightarrow> IntentNodes (filter (\<lambda>n. n \<noteq> []) (map trim names))
                        | None \<Rightarrow> IntentInvalid raw)))"

definition resolve_node_names :: "membership \<Rightarrow> string list \<Rightarrow> nat list \<times> string list" where
  "resolve_node_names c names =
     foldl (\<lambda>(ids, unknown) n. case get_by_name (mb_nodes c) n of
              Some d \<Rightarrow> (ids @ [nd_node_catalog_id d], unknown)
            | None \<Rightarrow> (ids, unknown @ [n])) ([], []) names"

text \<open>The node the catalog handle belongs to; \<open>None\<close> is the error when it is not set or not registered.\<close>

definition current_node :: "node_name option \<Rightarrow> membership \<Rightarrow> node_definition option" where
  "current_node cur c = (case cur of None \<Rightarrow> None | Some n \<Rightarrow> get_by_name (mb_nodes c) n)"

definition matches_node_spec :: "node_name option \<Rightarrow> membership \<Rightarrow> nat list \<Rightarrow> bool option" where
  "matches_node_spec cur c ids = map_option (\<lambda>d. nd_node_catalog_id d \<in> set ids) (current_node cur c)"

definition type_ok :: "node_name option \<Rightarrow> membership \<Rightarrow> trigger_definition \<Rightarrow> bool" where
  "type_ok cur c tr =
     (let is_wal = (case tr_trigger tr of SingleTableWalWrite t \<Rightarrow> True | AllTablesWalWrite \<Rightarrow> True | _ \<Rightarrow> False)
      in \<not> (is_wal \<and> (case current_node cur c of Some d \<Rightarrow> \<not> nd_is_ingest d | None \<Rightarrow> False)))"

definition allows :: "node_name option \<Rightarrow> membership \<Rightarrow> trigger_definition \<Rightarrow> bool" where
  "allows cur c tr =
     (case placement_intent tr of
        IntentAll \<Rightarrow> type_ok cur c tr
      | IntentInvalid v \<Rightarrow> False
      | IntentNodes names \<Rightarrow>
          (case resolve_node_names c names of
             (ids, unknown) \<Rightarrow>
               if unknown \<noteq> [] then False
               else case matches_node_spec cur c ids of
                      Some True \<Rightarrow> type_ok cur c tr
                    | Some False \<Rightarrow> False
                    | None \<Rightarrow> False))"

section \<open>Roles\<close>

definition valid_identifier :: "string \<Rightarrow> bool" where
  "valid_identifier v \<longleftrightarrow> v \<noteq> [] \<and> length v \<le> MAX_IDENTIFIER_LEN \<and> list_all identifier_char v"

lemma validate_identifier_ok: "validate_identifier k v = Inr u \<longleftrightarrow> valid_identifier v"
  by (auto simp: validate_identifier_def valid_identifier_def find_None_iff list_all_iff split: option.splits)
    (metis find_None_iff not_None_eq)

lemma requested_modes:
  "set (foldl (\<lambda>ms m. if m \<in> set ms then ms else ms @ [m]) acc requested) = set acc \<union> set requested"
  "distinct acc \<Longrightarrow> distinct (foldl (\<lambda>ms m. if m \<in> set ms then ms else ms @ [m]) acc requested)"
  by (induction requested arbitrary: acc) auto

text \<open>A role that stands alone.\<close>

lemma alone:
  assumes "distinct xs"
  shows "x \<in> set xs \<and> length xs > 1 \<longleftrightarrow> x \<in> set xs \<and> set xs \<noteq> {x}"
proof -
  have "length xs = card (set xs)" using assms by (simp add: distinct_card)
  moreover have "card (set xs) = 1 \<longleftrightarrow> set xs = {x}" if "x \<in> set xs"
    using that by (auto simp: card_1_singleton_iff)
  moreover have "0 < card (set xs)" if "x \<in> set xs" using that by (metis card_gt_0_iff empty_iff empty_set finite_set list.set_cases)
  ultimately show ?thesis by (cases "x \<in> set xs") auto
qed

definition roles_allowed :: "cli_node_mode list \<Rightarrow> bool \<Rightarrow> bool" where
  "roles_allowed requested clustered \<longleftrightarrow>
     requested \<noteq> [] \<and> (\<forall>m \<in> {CliCore, CliAll, CliCompact}. m \<in> set requested \<longrightarrow> set requested = {m}) \<and>
     (clustered \<or> set requested = {CliCore})"

lemma singleton_list: "distinct xs \<Longrightarrow> set xs = {x} \<longleftrightarrow> xs = [x]"
  by (cases xs) (auto simp: insert_eq_iff, metis distinct.simps(2) empty_iff insert_iff list.set_cases set_empty subset_singletonD)

lemma resolve_modes_ok:
  "(\<exists>ms. resolve_modes requested clustered plugin = Inr ms) \<longleftrightarrow> roles_allowed requested clustered"
proof -
  define modes where "modes = foldl (\<lambda>ms m. if m \<in> set ms then ms else ms @ [m]) [] requested"
  have m: "set modes = set requested" "distinct modes"
    using requested_modes [of "[]" requested] by (simp_all add: modes_def)
  have "(x \<in> set modes \<and> length modes > 1) = (x \<in> set requested \<and> set requested \<noteq> {x})" for x
    using alone [OF m(2), of x] m(1) by simp
  moreover have "modes = [CliCore] \<longleftrightarrow> set requested = {CliCore}" using singleton_list [OF m(2)] m(1) by simp
  ultimately show ?thesis
    unfolding resolve_modes_def modes_def [symmetric] Let_def roles_allowed_def by auto
qed

lemma resolve_modes_result:
  assumes "resolve_modes requested clustered plugin = Inr ms"
  shows "distinct ms"
    and "set ms = node_mode_from ` set requested \<union> (if plugin \<and> CliAll \<notin> set requested then {ProcessMode} else {})"
proof -
  define modes where "modes = foldl (\<lambda>ms m. if m \<in> set ms then ms else ms @ [m]) [] requested"
  have m: "set modes = set requested" "distinct modes"
    using requested_modes [of "[]" requested] by (simp_all add: modes_def)
  have inj: "inj node_mode_from"
  proof (rule injI)
    fix x y assume "node_mode_from x = node_mode_from y"
    then show "x = y" by (cases x; cases y) simp_all
  qed
  define resolved where "resolved = map node_mode_from modes"
  have r: "distinct resolved" "set resolved = node_mode_from ` set requested"
    using m inj_on_subset [OF inj, of "set requested"] by (simp_all add: resolved_def distinct_map)
  have p: "ms = (if plugin \<and> \<not> list_ex (\<lambda>m. m = ProcessMode \<or> m = AllMode) resolved then resolved @ [ProcessMode] else resolved)"
    using assms unfolding resolve_modes_def modes_def [symmetric] Let_def resolved_def [symmetric]
    by (auto split: if_splits)
  have all: "AllMode \<in> set resolved \<longleftrightarrow> CliAll \<in> set requested" unfolding r(2) by (auto simp: image_iff) (metis node_mode_from.simps(6) injD [OF inj])+
  show "distinct ms" using r(1) unfolding p by (auto simp: list_ex_iff)
  show "set ms = node_mode_from ` set requested \<union> (if plugin \<and> CliAll \<notin> set requested then {ProcessMode} else {})"
    unfolding p r(2) [symmetric] all [symmetric] using assms by (auto simp: list_ex_iff)
qed

lemma resolve_steps:
  "resolve_with_plugin_dir cfg node plugin = Inr ci \<longleftrightarrow>
     valid_identifier node \<and> (\<forall>c. cl_cluster_id cfg = Some c \<longrightarrow> valid_identifier c) \<and>
     (\<exists>ms. resolve_modes (cl_mode cfg) (case_option node id (cl_cluster_id cfg) \<noteq> node) plugin = Inr ms \<and>
        ci = \<lparr>ci_node_id = node, ci_cluster_id = case_option node id (cl_cluster_id cfg),
              ci_catalog_sync_interval = cl_catalog_sync_interval cfg, ci_peer_sync_interval = cl_peer_sync_interval cfg,
              ci_file_index_snapshot_interval = cl_file_index_snapshot_interval cfg,
              ci_cluster_rpc_bind = cl_cluster_rpc_bind cfg, ci_modes = ms, ci_compaction = cl_compaction cfg\<rparr>)"
proof -
  have v: "validate_identifier k x = Inr () \<longleftrightarrow> valid_identifier x"
    "(\<exists>e. validate_identifier k x = Inl e) \<longleftrightarrow> \<not> valid_identifier x" for k x
    using validate_identifier_ok [of k x] by (cases "validate_identifier k x"; simp)+
  show ?thesis
    by (cases "validate_identifier ''node-id'' node"; cases "cl_cluster_id cfg";
        cases "validate_identifier ''cluster-id'' (the (cl_cluster_id cfg))")
      (use v in \<open>fastforce simp: resolve_with_plugin_dir_def split: sum.splits\<close>)+
qed

lemma role_predicates:
  "ingests ci \<longleftrightarrow> set (ci_modes ci) \<inter> {CoreMode, IngestMode, AllMode} \<noteq> {}"
  "queries ci \<longleftrightarrow> set (ci_modes ci) \<inter> {CoreMode, QueryMode, AllMode} \<noteq> {}"
  "compacts ci \<longleftrightarrow> set (ci_modes ci) \<inter> {CompactMode, AllMode} \<noteq> {}"
  "processes ci \<longleftrightarrow> set (ci_modes ci) \<inter> {ProcessMode, AllMode} \<noteq> {}"
  "is_all ci \<longleftrightarrow> AllMode \<in> set (ci_modes ci)"
  by (auto simp: ingests_def queries_def compacts_def processes_def is_all_def list_ex_iff)

lemma some_role: "ms \<noteq> {} \<Longrightarrow> \<exists>m \<in> {CoreMode, QueryMode, IngestMode, CompactMode, ProcessMode, AllMode}. m \<in> ms"
  by (metis (full_types) all_not_in_conv insertCI node_mode.exhaust)

lemma role_alone:
  "roles_allowed requested clustered \<Longrightarrow> m \<in> {CliCore, CliAll, CliCompact} \<Longrightarrow> m \<in> set requested \<Longrightarrow> set requested = {m}"
  unfolding roles_allowed_def by blast

text \<open>The sets of roles that can be resolved.\<close>

lemma role_shape:
  assumes "roles_allowed requested clustered"
    and "ms = node_mode_from ` set requested \<union> (if plugin \<and> CliAll \<notin> set requested then {ProcessMode} else {})"
  shows "\<not> clustered \<Longrightarrow> ms - {ProcessMode} = {CoreMode}" and "ms \<noteq> {}" and "plugin \<Longrightarrow> ProcessMode \<in> ms \<or> AllMode \<in> ms"
    and "CompactMode \<in> ms \<Longrightarrow> ms \<subseteq> {CompactMode, ProcessMode}" and "AllMode \<in> ms \<Longrightarrow> ms = {AllMode}"
proof -
  have of_compact: "m = CliCompact" if "node_mode_from m = CompactMode" for m using that by (cases m) auto
  have of_all: "m = CliAll" if "node_mode_from m = AllMode" for m using that by (cases m) auto
  have ne: "requested \<noteq> []" using assms(1) unfolding roles_allowed_def by blast
  show "ms - {ProcessMode} = {CoreMode}" if "\<not> clustered"
  proof -
    have "set requested = {CliCore}" using that assms(1) unfolding roles_allowed_def by blast
    then show ?thesis unfolding assms(2) by auto
  qed
  show "ms \<noteq> {}" unfolding assms(2) using ne by simp
  show "ProcessMode \<in> ms \<or> AllMode \<in> ms" if "plugin"
  proof (cases "CliAll \<in> set requested")
    case True
    then have "node_mode_from CliAll \<in> ms" unfolding assms(2) by blast
    then show ?thesis by simp
  next
    case False
    then show ?thesis unfolding assms(2) using that by simp
  qed
  show "ms \<subseteq> {CompactMode, ProcessMode}" if "CompactMode \<in> ms"
  proof -
    have "CompactMode \<in> node_mode_from ` set requested" using that unfolding assms(2) by (simp split: if_splits)
    then obtain m where m: "m \<in> set requested" "CompactMode = node_mode_from m" by (rule imageE)
    then have "CliCompact \<in> set requested" using of_compact [OF m(2) [symmetric]] by simp
    then have "set requested = {CliCompact}" using role_alone [OF assms(1), of CliCompact] by simp
    then show ?thesis unfolding assms(2) by auto
  qed
  show "ms = {AllMode}" if "AllMode \<in> ms"
  proof -
    have "AllMode \<in> node_mode_from ` set requested" using that unfolding assms(2) by (simp split: if_splits)
    then obtain m where m: "m \<in> set requested" "AllMode = node_mode_from m" by (rule imageE)
    then have "CliAll \<in> set requested" using of_all [OF m(2) [symmetric]] by simp
    then have "set requested = {CliAll}" using role_alone [OF assms(1), of CliAll] by simp
    then show ?thesis unfolding assms(2) by auto
  qed
qed

section \<open>Pinned triggers\<close>

lemma identifier_char_plain:
  "identifier_char c \<Longrightarrow> c \<noteq> CHR ''/'' \<and> c \<noteq> CHR '','' \<and> c \<noteq> CHR '':'' \<and> \<not> is_space c"
  by (auto simp: identifier_char_def is_ascii_alphanumeric_def is_space_def Let_def)

lemma split_on_plain: "c \<notin> set s \<Longrightarrow> split_on c s = [s]"
  by (induction s) auto

lemma split_on_append: "c \<notin> set s \<Longrightarrow> split_on c (s @ c # t) = s # split_on c t"
  by (induction s) auto

lemma split_join: "ns \<noteq> [] \<Longrightarrow> \<forall>n \<in> set ns. c \<notin> set n \<Longrightarrow> split_on c (join_on c ns) = ns"
  by (induction c ns rule: join_on.induct) (auto simp: split_on_plain split_on_append)

lemma trim_plain: "s \<noteq> [] \<Longrightarrow> \<not> is_space (hd s) \<Longrightarrow> \<not> is_space (last s) \<Longrightarrow> trim s = s"
proof -
  assume s: "s \<noteq> []" "\<not> is_space (hd s)" "\<not> is_space (last s)"
  have "dropWhile is_space s = s" using s by (cases s) auto
  moreover have "dropWhile is_space (rev s) = rev s" using s by (cases s rule: rev_cases) auto
  ultimately show ?thesis by (simp add: trim_def)
qed

lemma trim_identifier: "valid_identifier n \<Longrightarrow> trim n = n"
  by (rule trim_plain) (auto simp: valid_identifier_def list_all_iff identifier_char_plain)

lemma join_last: "ns \<noteq> [] \<Longrightarrow> last ns \<noteq> [] \<Longrightarrow> join_on c ns \<noteq> [] \<and> last (join_on c ns) = last (last ns)"
  by (induction c ns rule: join_on.induct) auto

lemma pinned_intent:
  assumes "ns \<noteq> []" and "\<forall>n \<in> set ns. valid_identifier n"
    and "tr_arguments tr = Some args" and "map_of args ''node_spec'' = Some (api_node_spec_display (SpecNodes ns))"
  shows "placement_intent tr = IntentNodes ns"
proof -
  let ?s = "''nodes:'' @ join_on (CHR '','') ns"
  have "last ns \<in> set ns" using assms(1) by simp
  then have l: "last ns \<noteq> []" "\<not> is_space (last (last ns))"
    using assms(2) by (auto simp: valid_identifier_def list_all_iff identifier_char_plain)
  have "trim ?s = ?s"
    using join_last [OF assms(1) l(1), of "CHR '',''"] l(2) by (intro trim_plain) (simp_all add: is_space_def)
  moreover have "split_on (CHR '','') (join_on (CHR '','') ns) = ns"
    using assms(1,2) identifier_char_plain by (intro split_join) (auto simp: valid_identifier_def list_all_iff)
  moreover have "filter (\<lambda>n. n \<noteq> []) (map trim ns) = ns"
  proof -
    have "map trim ns = ns" using assms(2) trim_identifier by (simp add: map_idI)
    moreover have "filter (\<lambda>n. n \<noteq> []) ns = ns" using assms(2) by (simp add: filter_id_conv valid_identifier_def)
    ultimately show ?thesis by simp
  qed
  ultimately show ?thesis
    using assms(3,4) by (simp add: placement_intent_def api_node_spec_display_def api_node_spec_from_str_def split_once_def)
qed

lemma resolve_node_names_eq:
  "resolve_node_names c names =
     (List.map_filter (\<lambda>n. map_option nd_node_catalog_id (get_by_name (mb_nodes c) n)) names,
      filter (\<lambda>n. get_by_name (mb_nodes c) n = None) names)"
proof -
  have "foldl (\<lambda>(ids, unknown) n. case get_by_name (mb_nodes c) n of
          Some d \<Rightarrow> (ids @ [nd_node_catalog_id d], unknown) | None \<Rightarrow> (ids, unknown @ [n])) (is, us) names =
      (is @ List.map_filter (\<lambda>n. map_option nd_node_catalog_id (get_by_name (mb_nodes c) n)) names,
       us @ filter (\<lambda>n. get_by_name (mb_nodes c) n = None) names)" for "is" us
    by (induction names arbitrary: "is" us) (auto simp: List.map_filter_simps split: option.splits)
  then show ?thesis by (simp add: resolve_node_names_def)
qed

lemma catalog_ids_name_nodes:
  assumes "membership_wf c" and "get_by_name (mb_nodes c) n = Some d" and "get_by_name (mb_nodes c) m = Some e"
  shows "nd_node_catalog_id d = nd_node_catalog_id e \<longleftrightarrow> n = m"
proof
  assume same: "nd_node_catalog_id d = nd_node_catalog_id e"
  have "Some d = Some e"
    by (rule trans [OF node_by_name(1) [OF assms(1,2), symmetric]])
      (unfold same, rule node_by_name(1) [OF assms(1,3)])
  then have "d = e" by (rule option.inject [THEN iffD1])
  then show "n = m" unfolding node_by_name(2) [OF assms(1,2), symmetric] node_by_name(2) [OF assms(1,3), symmetric] by (rule arg_cong)
next
  assume "n = m"
  then show "nd_node_catalog_id d = nd_node_catalog_id e" using assms(2,3) by simp
qed

lemma named_among:
  assumes "membership_wf c" and "get_by_name (mb_nodes c) n = Some d"
  shows "nd_node_catalog_id d \<in> set (List.map_filter (\<lambda>n. map_option nd_node_catalog_id (get_by_name (mb_nodes c) n)) names)
    \<longleftrightarrow> n \<in> set names"
  using catalog_ids_name_nodes [OF assms] assms(2)
  by (auto simp: List.map_filter_def image_iff) (metis option.sel option.simps(3))+

lemma allows_nodes:
  assumes "membership_wf c" and "get_by_name (mb_nodes c) me = Some d" and "placement_intent tr = IntentNodes ns"
  shows "allows (Some me) c tr \<longleftrightarrow>
    (\<forall>n \<in> set ns. get_by_name (mb_nodes c) n \<noteq> None) \<and> me \<in> set ns \<and> type_ok (Some me) c tr"
proof -
  have "matches_node_spec (Some me) c (List.map_filter (\<lambda>n. map_option nd_node_catalog_id (get_by_name (mb_nodes c) n)) ns) =
      Some (me \<in> set ns)"
    using named_among [OF assms(1,2)] by (simp add: matches_node_spec_def current_node_def assms(2))
  then show ?thesis
    by (cases "me \<in> set ns") (auto simp: allows_def assms(3) resolve_node_names_eq filter_empty_conv)
qed

lemma type_ok_eq:
  assumes "get_by_name (mb_nodes c) me = Some d"
  shows "type_ok (Some me) c tr \<longleftrightarrow>
    (tr_trigger tr = AllTablesWalWrite \<or> (\<exists>t. tr_trigger tr = SingleTableWalWrite t) \<longrightarrow> nd_is_ingest d)"
  by (cases "tr_trigger tr") (simp_all add: type_ok_def current_node_def assms)

lemma resolved_roles:
  assumes ok: "resolve_with_plugin_dir cfg node plugin = Inr ci"
  shows "ci_node_id ci = node" and "\<not> is_clustered ci \<Longrightarrow> set (ci_modes ci) - {ProcessMode} = {CoreMode}"
    and "ingests ci \<or> queries ci \<or> compacts ci \<or> processes ci" and "plugin \<Longrightarrow> processes ci"
    and "ingests ci \<and> compacts ci \<longleftrightarrow> is_all ci"
    and "CompactorLoop own \<in> set (wrap_write_buffer_services ci) \<Longrightarrow>
      own \<longleftrightarrow> FileIndexPublisher \<in> set (wrap_write_buffer_services ci)"
    and "FileIndexSync \<in> set (wrap_write_buffer_services ci)"
proof -
  have n: "ci_node_id ci = node"
    and r: "resolve_modes (cl_mode cfg) (is_clustered ci) plugin = Inr (ci_modes ci)"
    using ok unfolding resolve_steps by (auto simp: is_clustered_def)
  have a: "roles_allowed (cl_mode cfg) (is_clustered ci)" using r resolve_modes_ok by blast
  note ms = role_shape [OF a resolve_modes_result(2) [OF r]]
  show "ci_node_id ci = node" by (rule n)
  show "set (ci_modes ci) - {ProcessMode} = {CoreMode}" if "\<not> is_clustered ci" using ms(1) that by blast
  show "ingests ci \<or> queries ci \<or> compacts ci \<or> processes ci"
    using some_role [OF ms(2)] by (auto simp: role_predicates)
  show "processes ci" if "plugin" using ms(3) that by (auto simp: role_predicates)
  show roles: "ingests ci \<and> compacts ci \<longleftrightarrow> is_all ci" using ms(4,5) by (auto simp: role_predicates)
  show "own \<longleftrightarrow> FileIndexPublisher \<in> set (wrap_write_buffer_services ci)"
    if "CompactorLoop own \<in> set (wrap_write_buffer_services ci)"
    using that roles by (auto simp: wrap_write_buffer_services_def split: if_splits)
  show "FileIndexSync \<in> set (wrap_write_buffer_services ci)" by (simp add: wrap_write_buffer_services_def)
qed

section \<open>Claims\<close>

definition all_config :: cluster_config where
  "all_config = \<lparr>cl_cluster_id = Some ''prod'', cl_catalog_sync_interval = 10 ^ 9, cl_peer_sync_interval = 5 * 10 ^ 9,
     cl_file_index_snapshot_interval = 500, cl_cluster_rpc_bind = ''0.0.0.0:8383'', cl_mode = [CliAll],
     cl_compaction = \<lparr>cf_interval = 0, cf_min_age = 0, cf_max_input_size_bytes = 9, cf_target_size_bytes = 9,
       cf_max_inputs = 3, cf_input_grace = 0\<rparr>\<rparr>"

text \<open>Claim C31.  A node starts exactly when its identifiers are well formed, its roles can stand together and
  a node without a cluster asks for the core role alone.  A node that starts has a role to play; it
  merges files and persists its own only as an \<open>all\<close> node, whose compactor then knows that it may meet
  its own files; a compactor that is told so runs beside the publisher of those files; and every
  service that reads the shared index finds it kept up to date.\<close>

theorem resolved_identities_are_coherent:
  shows "((\<exists>ci. resolve_with_plugin_dir cfg node plugin = Inr ci) \<longleftrightarrow>
     valid_identifier node \<and> (\<forall>c. cl_cluster_id cfg = Some c \<longrightarrow> valid_identifier c) \<and>
     roles_allowed (cl_mode cfg) (cl_cluster_id cfg \<notin> {None, Some node})) \<and>
   (\<forall>ci own. resolve_with_plugin_dir cfg node plugin = Inr ci \<longrightarrow>
     ci_node_id ci = node \<and> (\<not> is_clustered ci \<longrightarrow> set (ci_modes ci) - {ProcessMode} = {CoreMode}) \<and>
     (ingests ci \<or> queries ci \<or> compacts ci \<or> processes ci) \<and> (plugin \<longrightarrow> processes ci) \<and>
     (ingests ci \<and> compacts ci \<longleftrightarrow> is_all ci) \<and>
     (CompactorLoop own \<in> set (wrap_write_buffer_services ci) \<longrightarrow>
        (own \<longleftrightarrow> FileIndexPublisher \<in> set (wrap_write_buffer_services ci))) \<and>
     FileIndexSync \<in> set (wrap_write_buffer_services ci))"
proof (intro conjI allI impI)
  have other: "case_option node id (cl_cluster_id cfg) \<noteq> node \<longleftrightarrow> cl_cluster_id cfg \<notin> {None, Some node}"
    by (cases "cl_cluster_id cfg") auto
  show "(\<exists>ci. resolve_with_plugin_dir cfg node plugin = Inr ci) \<longleftrightarrow>
     valid_identifier node \<and> (\<forall>c. cl_cluster_id cfg = Some c \<longrightarrow> valid_identifier c) \<and>
     roles_allowed (cl_mode cfg) (cl_cluster_id cfg \<notin> {None, Some node})"
    unfolding resolve_steps resolve_modes_ok [of "cl_mode cfg" _ plugin, symmetric] other by blast
qed (rule resolved_roles; assumption)+

theorem resolved_identities_are_coherent_witness:
  "\<exists>ci. resolve_with_plugin_dir all_config ''a'' True = Inr ci \<and> is_all ci \<and>
     (CompactorLoop False \<in> set (wrap_write_buffer_services ci) \<longrightarrow> FileIndexPublisher \<notin> set (wrap_write_buffer_services ci))"
proof -
  have "valid_identifier ''a''" "valid_identifier ''prod''" by code_simp+
  then obtain ci where ci: "resolve_with_plugin_dir all_config ''a'' True = Inr ci"
    using resolved_identities_are_coherent [of all_config "''a''" True] by (auto simp: all_config_def roles_allowed_def)
  moreover have "is_all ci" using ci by (auto simp: all_config_def resolve_steps resolve_modes_def is_all_def)
  ultimately show ?thesis
    using resolved_identities_are_coherent [of all_config "''a''" True] by blast
qed

text \<open>Claim C32.  A trigger pinned with the text the node specification is printed as, over identifiers the
  configuration accepts, runs on exactly the nodes it names: all of them are registered, this node is
  one of them, and a trigger on writes runs only where the catalog says that the node ingests.\<close>

theorem pinned_triggers_run_where_named:
  assumes "membership_wf c" and "get_by_name (mb_nodes c) me = Some d"
    and "ns \<noteq> []" and "\<forall>n \<in> set ns. valid_identifier n"
    and "tr_arguments tr = Some args" and "map_of args ''node_spec'' = Some (api_node_spec_display (SpecNodes ns))"
  shows "allows (Some me) c tr \<longleftrightarrow>
    (\<forall>n \<in> set ns. \<exists>e. get_by_name (mb_nodes c) n = Some e) \<and> me \<in> set ns \<and>
    (tr_trigger tr = AllTablesWalWrite \<or> (\<exists>t. tr_trigger tr = SingleTableWalWrite t) \<longrightarrow> nd_is_ingest d)"
  unfolding allows_nodes [OF assms(1,2) pinned_intent [OF assms(3-6)]] type_ok_eq [OF assms(2)] by auto

definition pinned_members :: membership where
  "pinned_members = run_op member_level (membership_new member_level) (RegisterNodeOp member_args)"

definition pinned_trigger :: trigger_definition where
  "pinned_trigger = \<lparr>tr_trigger = AllTablesWalWrite, tr_arguments = Some [(''node_spec'', ''nodes:a'')]\<rparr>"

theorem pinned_triggers_run_where_named_witness: "allows (Some ''a'') pinned_members pinned_trigger"
proof -
  have run: "membership_run (membership_new member_level) pinned_members"
    unfolding pinned_members_def
    by (intro run_op_step membership_run.start; simp add: membership_new_def repository_new_def u32_max_def)
  have wf: "membership_wf pinned_members" using membership_run_keeps [OF run membership_wf_new] by blast
  have me: "\<exists>d. get_by_name (mb_nodes pinned_members) ''a'' = Some d \<and> nd_is_ingest d"
    by (simp add: pinned_members_def run_eval nd_is_ingest_def)
  then obtain d where d: "get_by_name (mb_nodes pinned_members) ''a'' = Some d" "nd_is_ingest d" by blast
  have "valid_identifier ''a''" by code_simp
  then show ?thesis
    using pinned_triggers_run_where_named [OF wf d(1), of "[''a'']" pinned_trigger] d
    by (simp add: pinned_trigger_def api_node_spec_display_def)
qed

end
