(* ===== verification/Merge_Selection.thy ===== *)
theory Merge_Selection
  imports Cluster_Config Snapshot_Types Path_Names
begin

text \<open>
  What a compactor merges (\<open>influxdb3_cluster/src/compactor.rs\<close>): the nodes whose files one pass
  works on, the packing of a table's cold, small files into merges, and the name of the merged file.
\<close>

section \<open>Groups\<close>

record merge_group =
  mg_db_id :: db_id
  mg_table_id :: table_id
  mg_inputs :: "parquet_file list"

definition mg_chunk_time :: "merge_group \<Rightarrow> time_ns" where
  "mg_chunk_time g = (if mg_inputs g = [] then 0 else Min (set (map pf_chunk_time (mg_inputs g))))"

definition mg_min_time :: "merge_group \<Rightarrow> time_ns" where
  "mg_min_time g = (if mg_inputs g = [] then 0 else Min (set (map pf_min_time (mg_inputs g))))"

definition mg_max_time :: "merge_group \<Rightarrow> time_ns" where
  "mg_max_time g = (if mg_inputs g = [] then 0 else Max (set (map pf_max_time (mg_inputs g))))"

text \<open>Addition of \<open>u64\<close> in a release build.\<close>

definition u64_add :: "nat \<Rightarrow> nat \<Rightarrow> nat" where
  "u64_add a b = (a + b) mod 2 ^ 64"

text \<open>One round of the packing loop: the groups closed so far, the open group and its size.\<close>

definition pack_step ::
  "compaction_config \<Rightarrow> parquet_file list list \<times> parquet_file list \<times> nat \<Rightarrow> parquet_file \<Rightarrow>
   parquet_file list list \<times> parquet_file list \<times> nat" where
  "pack_step cfg st f =
     (case st of
        (groups, current, current_size) \<Rightarrow>
          (let would_exceed_size = u64_add current_size (pf_size_bytes f) > cf_target_size_bytes cfg;
               would_exceed_count = length current \<ge> cf_max_inputs cfg
           in if current \<noteq> [] \<and> (would_exceed_size \<or> would_exceed_count)
              then (groups @ [current], [f], u64_add 0 (pf_size_bytes f))
              else (groups, current @ [f], u64_add current_size (pf_size_bytes f))))"

definition packs :: "compaction_config \<Rightarrow> parquet_file list \<Rightarrow> parquet_file list list" where
  "packs cfg files =
     (case foldl (pack_step cfg) ([], [], 0) files of
        (groups, current, current_size) \<Rightarrow> if current \<noteq> [] then groups @ [current] else groups)"

definition eligible :: "parquet_file list \<Rightarrow> time_ns \<Rightarrow> compaction_config \<Rightarrow> parquet_file list" where
  "eligible files cold_before cfg =
     filter (\<lambda>f. pf_chunk_time f < cold_before \<and> pf_size_bytes f < cf_max_input_size_bytes cfg) files"

definition select_merges ::
  "db_id \<Rightarrow> table_id \<Rightarrow> parquet_file list \<Rightarrow> time_ns \<Rightarrow> compaction_config \<Rightarrow> merge_group list" where
  "select_merges d t files cold_before cfg =
     (let es = eligible files cold_before cfg
      in if length es < 2 then []
         else map (\<lambda>inputs. \<lparr>mg_db_id = d, mg_table_id = t, mg_inputs = inputs\<rparr>)
                (filter (\<lambda>inputs. length inputs \<ge> 2)
                   (packs cfg (sort_key (\<lambda>f. (pf_chunk_time f, pf_min_time f)) es))))"

section \<open>Targets\<close>

definition is_compactable :: "node_mode list \<Rightarrow> bool" where
  "is_compactable modes \<longleftrightarrow> list_ex (\<lambda>m. m = IngestMode) modes \<and> \<not> list_ex (\<lambda>m. m = CompactMode) modes"

definition select_targets :: "(node_name \<times> node_mode list) list \<Rightarrow> node_name \<Rightarrow> bool \<Rightarrow> node_name list" where
  "select_targets nodes self_id compact_self =
     map fst (filter (\<lambda>(i, modes). i \<noteq> self_id \<and> is_compactable modes) nodes) @
     (if compact_self then [self_id] else [])"

section \<open>The name of the merged file\<close>

text \<open>The hash over the sorted paths is that of the standard library, which leaves the function open.\<close>

definition output_path_discriminator :: "(obj_path list \<Rightarrow> 64 word) \<Rightarrow> merge_group \<Rightarrow> nat" where
  "output_path_discriminator hash g =
     unat (or 0x80000000 (and (ucast (hash (sort (map pf_path (mg_inputs g))))) 0x7FFFFFFF) :: 32 word)"

definition merged_path :: "(time_ns \<Rightarrow> string) \<Rightarrow> (obj_path list \<Rightarrow> 64 word) \<Rightarrow> node_name \<Rightarrow> merge_group \<Rightarrow> obj_path" where
  "merged_path date_string hash target g =
     ParquetFilePath_new_with_chunk_ordinal date_string target (mg_db_id g) (mg_table_id g) (mg_chunk_time g) 0
       (output_path_discriminator hash g)"

section \<open>Packing\<close>

definition group_size :: "parquet_file list \<Rightarrow> nat" where
  "group_size fs = sum_list (map pf_size_bytes fs)"

definition pack_ok :: "compaction_config \<Rightarrow> parquet_file list \<Rightarrow> bool" where
  "pack_ok cfg p \<longleftrightarrow> p \<noteq> [] \<and>
     (length p = 1 \<or> group_size p \<le> cf_target_size_bytes cfg \<and> length p \<le> cf_max_inputs cfg)"

text \<open>The first file of the next pack did not fit.\<close>

definition pack_full :: "compaction_config \<Rightarrow> parquet_file list \<Rightarrow> parquet_file list \<Rightarrow> bool" where
  "pack_full cfg p q \<longleftrightarrow>
     group_size p + pf_size_bytes (hd q) > cf_target_size_bytes cfg \<or> length p \<ge> cf_max_inputs cfg"

definition pack_inv ::
  "compaction_config \<Rightarrow> parquet_file list \<Rightarrow> parquet_file list list \<times> parquet_file list \<times> nat \<Rightarrow> bool" where
  "pack_inv cfg done' st \<longleftrightarrow>
     (case st of
        (groups, current, size') \<Rightarrow>
          concat groups @ current = done' \<and> size' = group_size current \<and> (current = [] \<longrightarrow> groups = []) \<and>
          (\<forall>p \<in> set groups. pack_ok cfg p) \<and> (current \<noteq> [] \<longrightarrow> pack_ok cfg current) \<and>
          successively (pack_full cfg) (groups @ (if current = [] then [] else [current])))"

lemma pack_size:
  assumes "pack_ok cfg p" and "\<forall>f \<in> set p. pf_size_bytes f < 2 ^ 63" and "cf_target_size_bytes cfg < 2 ^ 63"
  shows "group_size p < 2 ^ 63"
proof (cases "length p = 1")
  case True
  then obtain f where "p = [f]" by (auto simp: length_Suc_conv)
  then show ?thesis using assms(2) by (simp add: group_size_def)
next
  case False
  then have "group_size p \<le> cf_target_size_bytes cfg" using assms(1) by (simp add: pack_ok_def)
  then show ?thesis using assms(3) by linarith
qed

lemma full_grows: "pack_full cfg p q \<Longrightarrow> q \<noteq> [] \<Longrightarrow> pack_full cfg p (q @ r)"
  by (simp add: pack_full_def)

lemma successively_grow:
  assumes "successively (pack_full cfg) (gs @ [c])" and "c \<noteq> []"
  shows "successively (pack_full cfg) (gs @ [c @ [f]])"
  using assms by (auto simp: successively_append_iff pack_full_def)

lemma pack_step_inv:
  assumes inv: "pack_inv cfg done' st" and small: "\<forall>g \<in> set (done' @ [f]). pf_size_bytes g < 2 ^ 63"
    and target: "cf_target_size_bytes cfg < 2 ^ 63"
  shows "pack_inv cfg (done' @ [f]) (pack_step cfg st f)"
proof -
  obtain gs c z where st: "st = (gs, c, z)" by (cases st)
  have i: "concat gs @ c = done'" "z = group_size c" "c = [] \<longrightarrow> gs = []" "\<forall>p \<in> set gs. pack_ok cfg p"
    "c \<noteq> [] \<longrightarrow> pack_ok cfg c" "successively (pack_full cfg) (gs @ (if c = [] then [] else [c]))"
    using inv by (auto simp: pack_inv_def st)
  have "group_size c < 2 ^ 63"
  proof (cases "c = []")
    case False
    then show ?thesis using pack_size [OF _ _ target] i(1,5) small by auto
  qed (simp add: group_size_def)
  then have add: "u64_add z (pf_size_bytes f) = group_size c + pf_size_bytes f" "u64_add 0 (pf_size_bytes f) = pf_size_bytes f"
    using small i(2) by (auto simp: u64_add_def)
  have grown: "group_size (c @ [f]) = group_size c + pf_size_bytes f" "group_size [f] = pf_size_bytes f"
    by (simp_all add: group_size_def)
  show ?thesis
  proof (cases "c \<noteq> [] \<and> (group_size c + pf_size_bytes f > cf_target_size_bytes cfg \<or> length c \<ge> cf_max_inputs cfg)")
    case True
    then have "pack_full cfg c [f]" by (simp add: pack_full_def)
    then have "successively (pack_full cfg) ((gs @ [c]) @ [[f]])"
      using i(6) True by (subst successively_append_iff) simp
    then show ?thesis using True i add grown by (simp add: pack_inv_def pack_step_def st pack_ok_def Let_def)
  next
    case False
    then have ok: "pack_ok cfg (c @ [f])" using grown(1) by (auto simp: pack_ok_def)
    have "successively (pack_full cfg) (gs @ [c @ [f]])"
      using i(3,6) successively_grow [of cfg gs c f] by (cases "c = []") simp_all
    then show ?thesis using False ok i add grown by (auto simp: pack_inv_def pack_step_def st Let_def)
  qed
qed

lemma packs_spec:
  assumes "\<forall>f \<in> set files. pf_size_bytes f < 2 ^ 63" and "cf_target_size_bytes cfg < 2 ^ 63"
  shows "concat (packs cfg files) = files" and "\<forall>p \<in> set (packs cfg files). pack_ok cfg p"
    and "successively (pack_full cfg) (packs cfg files)"
proof -
  have "pack_inv cfg files (foldl (pack_step cfg) ([], [], 0) files)"
    using assms(1)
  proof (induction files rule: rev_induct)
    case Nil
    then show ?case by (simp add: pack_inv_def group_size_def)
  next
    case (snoc f fs)
    then show ?case using pack_step_inv [OF _ _ assms(2)] by simp
  qed
  then show "concat (packs cfg files) = files" "\<forall>p \<in> set (packs cfg files). pack_ok cfg p"
    "successively (pack_full cfg) (packs cfg files)"
    unfolding packs_def pack_inv_def by (auto split: prod.splits if_splits)
qed

lemma packs_short: "length files < 2 \<Longrightarrow> filter (\<lambda>p. length p \<ge> 2) (packs cfg files) = []"
  by (cases files) (auto simp: packs_def pack_step_def Let_def)

text \<open>The early return for fewer than two files changes nothing.\<close>

lemma select_merges_packs:
  "map mg_inputs (select_merges d t files cold_before cfg) =
     filter (\<lambda>p. length p \<ge> 2) (packs cfg (sort_key (\<lambda>f. (pf_chunk_time f, pf_min_time f)) (eligible files cold_before cfg)))"
  using packs_short [of "sort_key (\<lambda>f. (pf_chunk_time f, pf_min_time f)) (eligible files cold_before cfg)" cfg]
  by (auto simp: select_merges_def Let_def comp_def)

section \<open>Names\<close>

lemma word_or_le: "a \<le> or a (b :: 'a::len word)"
proof -
  have "uint a \<le> or (uint a) (uint b)" by (simp add: or_greater_eq)
  then show ?thesis by (simp add: word_le_def uint_or)
qed

lemma discriminator_high: "2 ^ 31 \<le> output_path_discriminator hash g"
proof -
  let ?w = "or 0x80000000 (and (ucast (hash (sort (map pf_path (mg_inputs g))))) 0x7FFFFFFF) :: 32 word"
  have "(0x80000000 :: 32 word) \<le> ?w" by (rule word_or_le)
  then have "unat (0x80000000 :: 32 word) \<le> unat ?w" by (simp only: word_le_nat_alt)
  then show ?thesis by (simp add: output_path_discriminator_def)
qed

lemma show_nat_digits: "c \<in> set (show_nat n) \<Longrightarrow> is_digit c"
proof (induction n rule: show_nat.induct)
  case (1 n)
  then show ?case by (subst (asm) (2) show_nat.simps) (auto split: if_splits)
qed

lemma show_nat_inj: "show_nat m = show_nat n \<Longrightarrow> m = n"
proof -
  have "parse_digits 0 (show_nat n) = Some n" for n
  proof (induction n rule: show_nat.induct)
    case (1 n)
    then show ?case by (subst show_nat.simps) (auto simp: parse_digits_append split: if_splits)
  qed
  then show "show_nat m = show_nat n \<Longrightarrow> m = n" by (metis option.inject)
qed

text \<open>The number of a name, the ordinal after it and the extension.\<close>

definition parquet_name :: "nat \<Rightarrow> nat \<Rightarrow> string" where
  "parquet_name w o' = pad0 10 w @ (if o' = 0 then [] else ''-'' @ show_nat o') @ ''.parquet''"

lemma digits_no_slash: "\<forall>c \<in> set s. is_digit c \<Longrightarrow> CHR ''/'' \<notin> set s"
  by (auto simp: is_digit_def)

lemma pad0_digits: "\<forall>c \<in> set (pad0 w n). is_digit c"
  using show_nat_digits by (auto simp: pad0_def Let_def is_digit_def)

lemma parquet_filename: "filename (ParquetFilePath_new_with_chunk_ordinal ds host d t ct w o') = parquet_name w o'"
proof -
  have "CHR ''/'' \<notin> set (parquet_name w o')"
    using digits_no_slash [OF pad0_digits] digits_no_slash show_nat_digits by (auto simp: parquet_name_def)
  then show ?thesis
    by (intro filename_in_dir [of _ "host @ ''/dbs/'' @ show_nat d @ ''/'' @ show_nat t @ ''/'' @ ds ct"])
      (simp_all add: ParquetFilePath_new_with_chunk_ordinal_def parquet_name_def)
qed

lemma parquet_name_ordinal: "parquet_name w o' = parquet_name v q \<Longrightarrow> o' = q"
proof -
  assume eq: "parquet_name w o' = parquet_name v q"
  let ?tail = "\<lambda>o'. (if o' = 0 then [] else ''-'' @ show_nat o') @ ''.parquet''"
  have cut: "dropWhile is_digit (parquet_name w o') = ?tail o'" for w o'
    using pad0_digits [of 10 w] by (simp add: parquet_name_def dropWhile_append2 is_digit_def)
  have "?tail o' = ?tail q" using eq cut by metis
  then show "o' = q" using show_nat_inj by (auto split: if_splits)
qed

lemma merged_path_is_new:
  "o' < 2 ^ 31 \<Longrightarrow> merged_path ds hash target g \<noteq> ParquetFilePath_new_with_chunk_ordinal ds' host d t ct w o'"
proof
  assume o': "o' < 2 ^ 31" and eq: "merged_path ds hash target g = ParquetFilePath_new_with_chunk_ordinal ds' host d t ct w o'"
  have "parquet_name 0 (output_path_discriminator hash g) = parquet_name w o'"
    using arg_cong [OF eq, of filename] by (simp only: merged_path_def parquet_filename)
  then show False using parquet_name_ordinal discriminator_high [of hash g] o' by fastforce
qed

section \<open>Claims\<close>

text \<open>Claim C33.  The merges chosen for a table are the cold and small files of the table in the order of their chunk
  times, packed without gaps: every file is in exactly one pack, a pack is closed only when the next
  file would make it too large or it has the most files allowed, and the packs of at least two files
  are merged.  A merge stays within the target size and the number of inputs, and it gets a name that
  no file written from the log has.\<close>

theorem select_merges_packs_cold_files:
  assumes "cf_max_input_size_bytes cfg \<le> 2 ^ 63" and "cf_target_size_bytes cfg < 2 ^ 63"
  shows "\<exists>ps. concat ps = sort_key (\<lambda>f. (pf_chunk_time f, pf_min_time f))
       (filter (\<lambda>f. pf_chunk_time f < cold_before \<and> pf_size_bytes f < cf_max_input_size_bytes cfg) files) \<and>
     successively (\<lambda>p q. group_size p + pf_size_bytes (hd q) > cf_target_size_bytes cfg \<or> length p \<ge> cf_max_inputs cfg) ps \<and>
     [] \<notin> set ps \<and> map mg_inputs (select_merges d t files cold_before cfg) = filter (\<lambda>p. length p \<ge> 2) ps \<and>
     (\<forall>g \<in> set (select_merges d t files cold_before cfg).
        mg_db_id g = d \<and> mg_table_id g = t \<and> group_size (mg_inputs g) \<le> cf_target_size_bytes cfg \<and>
        length (mg_inputs g) \<le> cf_max_inputs cfg \<and>
        (\<forall>o' < 2 ^ 31. merged_path ds hash target g \<noteq> ParquetFilePath_new_with_chunk_ordinal ds' host d' t' ct w o'))"
proof -
  let ?es = "sort_key (\<lambda>f. (pf_chunk_time f, pf_min_time f)) (eligible files cold_before cfg)"
  have "\<forall>f \<in> set ?es. pf_size_bytes f < 2 ^ 63" using assms(1) by (auto simp: eligible_def)
  note spec = packs_spec [OF this assms(2)]
  note sel = select_merges_packs [of d t files cold_before cfg]
  have group: "mg_db_id g = d \<and> mg_table_id g = t \<and> group_size (mg_inputs g) \<le> cf_target_size_bytes cfg \<and>
      length (mg_inputs g) \<le> cf_max_inputs cfg" if g: "g \<in> set (select_merges d t files cold_before cfg)" for g
  proof -
    have "mg_inputs g \<in> set (map mg_inputs (select_merges d t files cold_before cfg))" using g by simp
    then have "mg_inputs g \<in> set (packs cfg ?es)" "length (mg_inputs g) \<ge> 2" unfolding sel by simp_all
    then have "group_size (mg_inputs g) \<le> cf_target_size_bytes cfg \<and> length (mg_inputs g) \<le> cf_max_inputs cfg"
      using spec(2) by (auto simp: pack_ok_def)
    moreover have "mg_db_id g = d \<and> mg_table_id g = t" using g by (auto simp: select_merges_def Let_def split: if_splits)
    ultimately show ?thesis by blast
  qed
  have "[] \<notin> set (packs cfg ?es)" using spec(2) by (auto simp: pack_ok_def)
  then show ?thesis
    using spec(1,3) sel group merged_path_is_new
    by (intro exI [of _ "packs cfg ?es"] conjI) (simp_all add: eligible_def pack_full_def [abs_def])
qed

definition packing_file :: "nat \<Rightarrow> time_ns \<Rightarrow> parquet_file" where
  "packing_file n t = \<lparr>pf_id = n, pf_path = show_nat n, pf_size_bytes = n, pf_row_count = 1, pf_chunk_time = t,
     pf_min_time = t, pf_max_time = t\<rparr>"

definition packing_config :: compaction_config where
  "packing_config = \<lparr>cf_interval = 0, cf_min_age = 0, cf_max_input_size_bytes = 10, cf_target_size_bytes = 8,
     cf_max_inputs = 3, cf_input_grace = 0\<rparr>"

theorem select_merges_packs_cold_files_witness:
  "list_all (\<lambda>g. group_size (mg_inputs g) \<le> 8)
     (select_merges 1 2 (map (\<lambda>n. packing_file n (10 - int n)) [1, 2, 3, 4, 5, 12]) 9 packing_config) \<and>
   map (map pf_id \<circ> mg_inputs) (select_merges 1 2 (map (\<lambda>n. packing_file n (10 - int n)) [1, 2, 3, 4, 5, 12]) 9 packing_config) =
     [[4, 3]]"
proof -
  have "cf_max_input_size_bytes packing_config \<le> 2 ^ 63" "cf_target_size_bytes packing_config < 2 ^ 63"
    by (simp_all add: packing_config_def)
  from select_merges_packs_cold_files [OF this]
  have "\<forall>g \<in> set (select_merges 1 2 (map (\<lambda>n. packing_file n (10 - int n)) [1, 2, 3, 4, 5, 12]) 9 packing_config).
      group_size (mg_inputs g) \<le> 8" by (simp add: packing_config_def) blast
  then have "list_all (\<lambda>g. group_size (mg_inputs g) \<le> 8)
      (select_merges 1 2 (map (\<lambda>n. packing_file n (10 - int n)) [1, 2, 3, 4, 5, 12]) 9 packing_config)"
    unfolding list_all_iff .
  moreover have "map (map pf_id \<circ> mg_inputs) (select_merges 1 2 (map (\<lambda>n. packing_file n (10 - int n)) [1, 2, 3, 4, 5, 12]) 9 packing_config) =
     [[4, 3]]"
    by (simp add: select_merges_def eligible_def packing_file_def packing_config_def packs_def pack_step_def u64_add_def)
  ultimately show ?thesis by blast
qed

end
