(* ===== verification/Input_Deleter.thy ===== *)
theory Input_Deleter
  imports Persister
begin

text \<open>
  The queue of merged-away files (\<open>InputDeleter\<close> in \<open>influxdb3_cluster/src/compactor.rs\<close>).  A file that a
  merge has replaced stays for a grace period, because a query may still hold its path; the queue is
  kept in the object store so that a compactor that restarts still owes what it owed.  A run of the
  queue interleaves its operations with restarts and with whatever other processes do to the store.
\<close>

section \<open>The queue\<close>

record pending_deletion =
  pd_due_ns :: time_ns
  pd_peer :: node_name
  pd_path :: obj_path

text \<open>The encoding of the queue is that of \<open>serde_json\<close>.\<close>

record ('s, 'b) input_deleter =
  dl_store :: "('s, 'b) object_store"
  dl_grace :: nat
  dl_cluster_id :: string
  dl_to_vec :: "pending_deletion list \<Rightarrow> 'b option"
  dl_from_slice :: "'b \<Rightarrow> pending_deletion list option"

text \<open>Arithmetic of \<open>i64\<close> in a release build, and the cast to it.\<close>

definition i64_wrap :: "int \<Rightarrow> int" where
  "i64_wrap k = (k + 2 ^ 63) mod 2 ^ 64 - 2 ^ 63"

text \<open>The queue is stored under the cluster's identifier.  An identifier of letters, digits and the marks that
  a path keeps is taken: \<open>Path::from\<close> would write other characters percent-encoded.\<close>

definition queue_path :: "('s, 'b) input_deleter \<Rightarrow> obj_path" where
  "queue_path dl = dl_cluster_id dl @ ''/compactor/pending-deletions.json''"

definition load_queue :: "('s, 'b) input_deleter \<Rightarrow> pending_deletion list \<Rightarrow> 's \<Rightarrow> pending_deletion list \<times> 's" where
  "load_queue dl queue s =
     (case os_get (dl_store dl) (queue_path dl) s of
        (Inl e, s1) \<Rightarrow> (queue, s1)
      | (Inr x, s1) \<Rightarrow>
          (case dl_from_slice dl (so_body x) of
             None \<Rightarrow> (queue, s1)
           | Some read' \<Rightarrow> (queue @ read', s1)))"

definition save_queue :: "('s, 'b) input_deleter \<Rightarrow> pending_deletion list \<Rightarrow> 's \<Rightarrow> 's" where
  "save_queue dl queue s =
     (case dl_to_vec dl queue of
        None \<Rightarrow> s
      | Some body \<Rightarrow> snd (os_put (dl_store dl) (queue_path dl) body s))"

definition schedule ::
  "('s, 'b) input_deleter \<Rightarrow> time_ns \<Rightarrow> node_name \<Rightarrow> parquet_file list \<Rightarrow> pending_deletion list \<Rightarrow> 's \<Rightarrow>
   pending_deletion list \<times> 's" where
  "schedule dl now peer inputs queue s =
     (let due_ns = i64_wrap (now + i64_wrap (int (dl_grace dl)));
          queue' = queue @ map (\<lambda>f. \<lparr>pd_due_ns = due_ns, pd_peer = peer, pd_path = pf_path f\<rparr>) inputs
      in (queue', save_queue dl queue' s))"

definition reclaim_due ::
  "('s, 'b) input_deleter \<Rightarrow> time_ns \<Rightarrow> pending_deletion list \<Rightarrow> 's \<Rightarrow> pending_deletion list \<times> 's" where
  "reclaim_due dl now queue s =
     (let due = map pd_path (filter (\<lambda>e. pd_due_ns e \<le> now) queue);
          waiting = filter (\<lambda>e. \<not> pd_due_ns e \<le> now) queue
      in if due = [] then (waiting, s)
         else (waiting, save_queue dl waiting (delete_each (dl_store dl) due s)))"

section \<open>Runs\<close>

text \<open>A run noted what was scheduled: when, for which node, and the path.\<close>

type_synonym retirement = "time_ns \<times> node_name \<times> obj_path"

inductive deleter_run ::
  "('s, 'b) input_deleter \<Rightarrow> ('s \<Rightarrow> obj_path \<rightharpoonup> 'b stored_object) \<Rightarrow>
   retirement set \<Rightarrow> pending_deletion list \<Rightarrow> 's \<Rightarrow> bool"
  for dl :: "('s, 'b) input_deleter" and contents :: "'s \<Rightarrow> obj_path \<rightharpoonup> 'b stored_object" where
  first: "contents s (queue_path dl) = None \<Longrightarrow> deleter_run dl contents {} [] s"
| scheduled: "deleter_run dl contents noted queue s \<Longrightarrow> schedule dl now peer inputs queue s = (queue', s') \<Longrightarrow>
    deleter_run dl contents (noted \<union> {(now, peer, pf_path f) | f. f \<in> set inputs}) queue' s'"
| reclaimed: "deleter_run dl contents noted queue s \<Longrightarrow> reclaim_due dl now queue s = (queue', s') \<Longrightarrow>
    deleter_run dl contents noted queue' s'"
| restarted: "deleter_run dl contents noted queue s \<Longrightarrow> load_queue dl [] s = (queue', s') \<Longrightarrow>
    deleter_run dl contents noted queue' s'"
| others: "deleter_run dl contents noted queue s \<Longrightarrow> contents s' (queue_path dl) = contents s (queue_path dl) \<Longrightarrow>
    deleter_run dl contents noted queue s'"

definition entry_noted :: "('s, 'b) input_deleter \<Rightarrow> retirement set \<Rightarrow> pending_deletion \<Rightarrow> bool" where
  "entry_noted dl noted e \<longleftrightarrow>
     (\<exists>t. (t, pd_peer e, pd_path e) \<in> noted \<and> pd_due_ns e = i64_wrap (t + i64_wrap (int (dl_grace dl))))"

text \<open>Every entry in memory and every entry a restart would read stands for something scheduled.\<close>

definition queue_noted ::
  "('s, 'b) input_deleter \<Rightarrow> ('s \<Rightarrow> obj_path \<rightharpoonup> 'b stored_object) \<Rightarrow> retirement set \<Rightarrow>
   pending_deletion list \<Rightarrow> 's \<Rightarrow> bool" where
  "queue_noted dl contents noted queue s \<longleftrightarrow>
     (\<forall>e \<in> set queue. entry_noted dl noted e) \<and>
     (\<forall>x l. contents s (queue_path dl) = Some x \<and> dl_from_slice dl (so_body x) = Some l \<longrightarrow>
        (\<forall>e \<in> set l. entry_noted dl noted e))"

lemma i64_wrap_id: "i64_min \<le> k \<Longrightarrow> k \<le> i64_max \<Longrightarrow> i64_wrap k = k"
  by (simp add: i64_wrap_def i64_min_def i64_max_def)

lemma entry_noted_mono: "entry_noted dl noted e \<Longrightarrow> noted \<subseteq> noted' \<Longrightarrow> entry_noted dl noted' e"
  by (auto simp: entry_noted_def)

lemma save_queue_contents:
  assumes laws: "object_store_laws (dl_store dl) contents"
  shows "contents (save_queue dl queue s) = contents s \<or>
    (\<exists>b. dl_to_vec dl queue = Some b \<and>
      contents (save_queue dl queue s) = (contents s)(queue_path dl \<mapsto> \<lparr>so_body = b, so_attrs = []\<rparr>))"
proof (cases "dl_to_vec dl queue")
  case (Some b)
  obtain r s' where put: "os_put (dl_store dl) (queue_path dl) b s = (r, s')" by fastforce
  then show ?thesis
    using object_store_laws.put_ok [OF laws] object_store_laws.put_failed [OF laws] Some
    by (cases r) (fastforce simp: save_queue_def)+
qed (simp add: save_queue_def)

lemma save_queue_noted:
  assumes laws: "object_store_laws (dl_store dl) contents"
    and codec: "\<And>l b. dl_to_vec dl l = Some b \<Longrightarrow> dl_from_slice dl b = Some l"
    and all_noted: "\<forall>e \<in> set queue. entry_noted dl noted e"
      "\<forall>x l. contents s (queue_path dl) = Some x \<and> dl_from_slice dl (so_body x) = Some l \<longrightarrow> (\<forall>e \<in> set l. entry_noted dl noted e)"
  shows "queue_noted dl contents noted queue (save_queue dl queue s)"
  using save_queue_contents [OF laws, of queue s] all_noted codec by (auto simp: queue_noted_def)

lemma delete_each_contents:
  assumes laws: "object_store_laws st contents"
  shows "contents (delete_each st ps s) p = contents s p \<or> p \<in> set ps \<and> contents (delete_each st ps s) p = None"
proof (induction ps arbitrary: s)
  case (Cons q ps)
  obtain r s' where del: "os_delete st q s = (r, s')" by fastforce
  have "contents s' p = contents s p \<or> p = q \<and> contents s' p = None"
    using object_store_laws.delete_ok [OF laws] object_store_laws.delete_failed [OF laws] del
    by (cases r) (metis fun_upd_apply)+
  then show ?case using Cons.IH [of s'] del by auto
qed simp

lemma load_queue_noted:
  assumes laws: "object_store_laws (dl_store dl) contents" and load: "load_queue dl [] s = (queue', s')"
    and noted: "queue_noted dl contents noted queue s"
  shows "queue_noted dl contents noted queue' s'"
proof -
  note reads = object_store_laws.axioms(1) [OF laws]
  obtain r s1 where get: "os_get (dl_store dl) (queue_path dl) s = (r, s1)" by fastforce
  have s': "s' = s1" using load get by (auto simp: load_queue_def split: sum.splits option.splits)
  have frame: "contents s1 = contents s" by (rule object_store_reads.get_frame [OF reads get])
  have "\<forall>e \<in> set queue'. entry_noted dl noted e"
  proof (cases r)
    case (Inr x)
    have "contents s (queue_path dl) = Some x" using object_store_reads.get_ok [OF reads] get Inr by blast
    moreover have "queue' = (case dl_from_slice dl (so_body x) of None \<Rightarrow> [] | Some l \<Rightarrow> l)"
      using load get Inr by (auto simp: load_queue_def split: option.splits)
    ultimately show ?thesis using noted unfolding queue_noted_def by (cases "dl_from_slice dl (so_body x)") simp_all
  qed (use load get in \<open>simp add: load_queue_def\<close>)
  then show ?thesis using noted unfolding queue_noted_def s' frame by blast
qed

lemma run_noted:
  assumes laws: "object_store_laws (dl_store dl) contents"
    and codec: "\<And>l b. dl_to_vec dl l = Some b \<Longrightarrow> dl_from_slice dl b = Some l"
    and run: "deleter_run dl contents noted queue s"
  shows "queue_noted dl contents noted queue s"
  using run
proof (induction rule: deleter_run.induct)
  case (first s)
  then show ?case by (simp add: queue_noted_def)
next
  case (scheduled noted queue s now peer inputs queue' s')
  let ?noted = "noted \<union> {(now, peer, pf_path f) | f. f \<in> set inputs}"
  have p: "queue' = queue @ map (\<lambda>f. \<lparr>pd_due_ns = i64_wrap (now + i64_wrap (int (dl_grace dl))), pd_peer = peer,
      pd_path = pf_path f\<rparr>) inputs" "s' = save_queue dl queue' s"
    using scheduled.hyps(2) by (auto simp: schedule_def Let_def)
  have "entry_noted dl ?noted e" if e: "e \<in> set queue'" for e
  proof (cases "e \<in> set queue")
    case True
    then have "entry_noted dl noted e" using scheduled.IH unfolding queue_noted_def by blast
    then show ?thesis by (rule entry_noted_mono) blast
  next
    case False
    then obtain f where "f \<in> set inputs" "e = \<lparr>pd_due_ns = i64_wrap (now + i64_wrap (int (dl_grace dl))), pd_peer = peer,
      pd_path = pf_path f\<rparr>" using e p(1) by auto
    then show ?thesis unfolding entry_noted_def by (intro exI [of _ now]) auto
  qed
  then have "\<forall>e \<in> set queue'. entry_noted dl ?noted e" by blast
  moreover have "\<forall>x l. contents s (queue_path dl) = Some x \<and> dl_from_slice dl (so_body x) = Some l \<longrightarrow>
      (\<forall>e \<in> set l. entry_noted dl ?noted e)"
    using scheduled.IH entry_noted_mono [of dl noted _ ?noted] unfolding queue_noted_def by blast
  ultimately show ?case unfolding p(2) using save_queue_noted [OF laws, of queue' ?noted s] codec by blast
next
  case (reclaimed noted queue s now queue' s')
  let ?due = "map pd_path (filter (\<lambda>e. pd_due_ns e \<le> now) queue)"
  have w: "set queue' \<subseteq> set queue" using reclaimed.hyps(2) by (auto simp: reclaim_due_def Let_def split: if_splits)
  have q: "\<forall>x l. contents (delete_each (dl_store dl) ?due s) (queue_path dl) = Some x \<and> dl_from_slice dl (so_body x) = Some l
      \<longrightarrow> (\<forall>e \<in> set l. entry_noted dl noted e)"
    using reclaimed.IH delete_each_contents [OF laws, of ?due s "queue_path dl"] unfolding queue_noted_def by auto
  show ?case
  proof (cases "?due = []")
    case True
    then show ?thesis using reclaimed.hyps(2) reclaimed.IH w by (auto simp: reclaim_due_def queue_noted_def Let_def)
  next
    case False
    then have "s' = save_queue dl queue' (delete_each (dl_store dl) ?due s)"
      using reclaimed.hyps(2) by (auto simp: reclaim_due_def Let_def)
    then show ?thesis
      using save_queue_noted [OF laws codec _ q] w reclaimed.IH unfolding queue_noted_def by blast
  qed
next
  case (restarted noted queue s queue' s')
  then show ?case using load_queue_noted [OF laws] by blast
next
  case (others noted queue s s')
  then show ?case by (auto simp: queue_noted_def)
qed

text \<open>What one reclamation takes from the store.\<close>

lemma reclaim_deletes:
  assumes laws: "object_store_laws (dl_store dl) contents" and rec: "reclaim_due dl now queue s = (queue', s')"
    and gone: "contents s p \<noteq> None" "contents s' p = None"
  shows "\<exists>e \<in> set queue. pd_path e = p \<and> pd_due_ns e \<le> now"
proof -
  let ?due = "map pd_path (filter (\<lambda>e. pd_due_ns e \<le> now) queue)"
  have "s' = s \<or> s' = save_queue dl queue' (delete_each (dl_store dl) ?due s)"
    using rec by (auto simp: reclaim_due_def Let_def split: if_splits)
  then have "contents (delete_each (dl_store dl) ?due s) p = None"
    using save_queue_contents [OF laws, of queue' "delete_each (dl_store dl) ?due s"] gone
    by (auto split: if_splits)
  then have "p \<in> set ?due" using delete_each_contents [OF laws, of ?due s p] gone(1) by auto
  then show ?thesis by auto
qed

lemma reclaim_clears:
  assumes laws: "object_store_laws (dl_store dl) contents"
    and works: "\<And>p s. contents (snd (os_delete (dl_store dl) p s)) p = None"
    and rec: "reclaim_due dl now queue s = (queue', s')"
    and e: "e \<in> set queue" "pd_due_ns e \<le> now" "pd_path e \<noteq> queue_path dl"
  shows "contents s' (pd_path e) = None"
proof -
  let ?due = "map pd_path (filter (\<lambda>e. pd_due_ns e \<le> now) queue)"
  have in_due: "pd_path e \<in> set ?due" using e by auto
  have "contents (delete_each (dl_store dl) ps s) p = None" if "p \<in> set ps" for ps p
    using that
  proof (induction ps arbitrary: s)
    case (Cons q ps)
    show ?case
    proof (cases "p \<in> set ps")
      case True
      then show ?thesis using Cons.IH by simp
    next
      case False
      then have "contents (snd (os_delete (dl_store dl) q s)) p = None" using Cons.prems works by simp
      then show ?thesis using delete_each_contents [OF laws, of ps "snd (os_delete (dl_store dl) q s)" p] by auto
    qed
  qed simp
  then have d: "contents (delete_each (dl_store dl) ?due s) (pd_path e) = None" using in_due by blast
  have "?due \<noteq> []" using in_due by (metis empty_iff empty_set)
  then have "s' = save_queue dl queue' (delete_each (dl_store dl) ?due s)"
    using rec by (auto simp: reclaim_due_def Let_def)
  then show ?thesis
    using save_queue_contents [OF laws, of queue' "delete_each (dl_store dl) ?due s"] d e(3) by (auto split: if_splits)
qed

section \<open>Claims\<close>

text \<open>Claim C34.  A merged-away file outlives the grace period: over any run of the queue, with restarts of the
  compactor and changes by others in between, a reclamation takes an object from the store only if
  that object was scheduled at least the grace period before.  Writes of the queue that fail, whether
  or not they reached the store, and queues that cannot be read do not change this.\<close>

theorem inputs_outlive_the_grace_period:
  assumes "object_store_laws (dl_store dl) contents"
    and "\<And>l b. dl_to_vec dl l = Some b \<Longrightarrow> dl_from_slice dl b = Some l"
    and "deleter_run dl contents noted queue s"
    and "\<forall>(t, peer, p) \<in> noted. i64_min \<le> t \<and> t + int (dl_grace dl) \<le> i64_max" and "int (dl_grace dl) \<le> i64_max"
    and "reclaim_due dl now queue s = (queue', s')" and "contents s p \<noteq> None" and "contents s' p = None"
  shows "\<exists>t peer. (t, peer, p) \<in> noted \<and> t + int (dl_grace dl) \<le> now"
proof -
  obtain e where e: "e \<in> set queue" "pd_path e = p" "pd_due_ns e \<le> now"
    using reclaim_deletes [OF assms(1,6-8)] by blast
  then obtain t where t: "(t, pd_peer e, p) \<in> noted" "pd_due_ns e = i64_wrap (t + i64_wrap (int (dl_grace dl)))"
    using run_noted [OF assms(1-3)] unfolding queue_noted_def entry_noted_def by blast
  have range: "i64_min \<le> t" "t + int (dl_grace dl) \<le> i64_max" using assms(4) t(1) by auto
  have "i64_wrap (int (dl_grace dl)) = int (dl_grace dl)"
    using assms(5) by (intro i64_wrap_id) (simp_all add: i64_min_def)
  then have "pd_due_ns e = t + int (dl_grace dl)" using t(2) range by (simp add: i64_wrap_id)
  then show ?thesis using t(1) e(3) by auto
qed

text \<open>Witnesses: a store in memory with one file, whose bodies are queues.\<close>

definition mem_deleter :: "(pending_deletion list mem, pending_deletion list) input_deleter" where
  "mem_deleter = \<lparr>dl_store = mem_store, dl_grace = 100, dl_cluster_id = ''c'', dl_to_vec = Some, dl_from_slice = Some\<rparr>"

definition retired_file :: parquet_file where
  "retired_file = \<lparr>pf_id = 1, pf_path = ''a'', pf_size_bytes = 1, pf_row_count = 1, pf_chunk_time = 0, pf_min_time = 0,
     pf_max_time = 0\<rparr>"

definition retired_store :: "pending_deletion list mem" where
  "retired_store = [(''a'', \<lparr>so_body = [], so_attrs = []\<rparr>)]"

definition retired_entry :: pending_deletion where
  "retired_entry = \<lparr>pd_due_ns = 105, pd_peer = ''n'', pd_path = ''a''\<rparr>"

lemma retired_scheduled:
  "schedule mem_deleter 5 ''n'' [retired_file] [] retired_store =
     ([retired_entry], retired_store @ [(queue_path mem_deleter, \<lparr>so_body = [retired_entry], so_attrs = []\<rparr>)])"
  by (simp add: schedule_def mem_deleter_def retired_file_def retired_entry_def retired_store_def save_queue_def
      mem_store_def i64_wrap_def hm_insert_def queue_path_def Let_def)

lemma retired_reclaimed:
  "reclaim_due mem_deleter 105 [retired_entry] (retired_store @ [(queue_path mem_deleter, \<lparr>so_body = [retired_entry], so_attrs = []\<rparr>)]) =
     ([], [(queue_path mem_deleter, \<lparr>so_body = [], so_attrs = []\<rparr>)])"
  by (simp add: reclaim_due_def mem_deleter_def retired_entry_def retired_store_def save_queue_def mem_store_def hm_insert_def
      hm_remove_def queue_path_def)

lemma mem_deleter_laws: "object_store_laws (dl_store mem_deleter) map_of"
  by (simp add: mem_deleter_def mem.object_store_laws_axioms)

lemma mem_deleter_codec: "dl_to_vec mem_deleter l = Some b \<Longrightarrow> dl_from_slice mem_deleter b = Some l"
  by (simp add: mem_deleter_def)

theorem inputs_outlive_the_grace_period_witness:
  "\<exists>t peer. (t, peer, ''a'') \<in> {(5 :: int, ''n'', ''a'')} \<and> t + int (dl_grace mem_deleter) \<le> 105"
proof -
  let ?s1 = "retired_store @ [(queue_path mem_deleter, \<lparr>so_body = [retired_entry], so_attrs = []\<rparr>)]"
  have "deleter_run mem_deleter map_of {} [] retired_store"
    by (rule deleter_run.first) (simp add: retired_store_def queue_path_def mem_deleter_def)
  from deleter_run.scheduled [OF this retired_scheduled]
  have run: "deleter_run mem_deleter map_of {(5, ''n'', ''a'')} [retired_entry] ?s1" by (simp add: retired_file_def)
  have "\<forall>(t, peer, p) \<in> {(5 :: int, ''n'', ''a'')}. i64_min \<le> t \<and> t + int (dl_grace mem_deleter) \<le> i64_max"
    "int (dl_grace mem_deleter) \<le> i64_max"
    by (simp_all add: mem_deleter_def i64_min_def i64_max_def)
  moreover have "map_of ?s1 ''a'' \<noteq> None" by (simp add: retired_store_def)
  moreover have "map_of [(queue_path mem_deleter, \<lparr>so_body = [], so_attrs = []\<rparr>)] ''a'' = None"
    by (simp add: queue_path_def mem_deleter_def)
  ultimately show ?thesis
    by (intro inputs_outlive_the_grace_period [OF mem_deleter_laws mem_deleter_codec run _ _ retired_reclaimed])
qed

text \<open>Claim C35.  A merged-away file is reclaimed, also by another process: when the queue reached the store and the
  next compactor can read it, the first reclamation at which the grace period is over leaves none of
  the scheduled files in the store, provided that the store carries deletions out.\<close>

theorem retired_inputs_are_reclaimed:
  assumes "object_store_laws (dl_store dl) contents"
    and "\<And>l b. dl_to_vec dl l = Some b \<Longrightarrow> dl_from_slice dl b = Some l"
    and "\<And>p s. contents (snd (os_delete (dl_store dl) p s)) p = None"
    and "schedule dl t peer inputs queue s = (queue1, s1)"
    and "dl_to_vec dl queue1 = Some b" and "contents s1 (queue_path dl) = Some \<lparr>so_body = b, so_attrs = []\<rparr>"
    and "contents s2 (queue_path dl) = contents s1 (queue_path dl)"
    and "os_get (dl_store dl) (queue_path dl) s2 = (Inr x, s3)" and "load_queue dl [] s2 = (queue3, s3)"
    and "i64_min \<le> t" and "t + int (dl_grace dl) \<le> now" and "now \<le> i64_max" and "int (dl_grace dl) \<le> i64_max"
    and "reclaim_due dl now queue3 s3 = (queue4, s4)" and "f \<in> set inputs" and "pf_path f \<noteq> queue_path dl"
  shows "contents s4 (pf_path f) = None"
proof -
  have "contents s2 (queue_path dl) = Some x"
    using object_store_reads.get_ok [OF object_store_laws.axioms(1) [OF assms(1)]] assms(8) by blast
  then have "so_body x = b" using assms(6,7) by auto
  then have "queue3 = queue1" using assms(2) [OF assms(5)] assms(8,9) by (simp add: load_queue_def)
  moreover have "i64_wrap (int (dl_grace dl)) = int (dl_grace dl)" "i64_wrap (t + int (dl_grace dl)) = t + int (dl_grace dl)"
    using assms(10-13) by (intro i64_wrap_id; simp add: i64_min_def)+
  then have "\<lparr>pd_due_ns = t + int (dl_grace dl), pd_peer = peer, pd_path = pf_path f\<rparr> \<in> set queue1"
    using assms(4,15) by (auto simp: schedule_def Let_def)
  ultimately show ?thesis
    using reclaim_clears [OF assms(1,3,14), of "\<lparr>pd_due_ns = t + int (dl_grace dl), pd_peer = peer, pd_path = pf_path f\<rparr>"]
      assms(11,16) by simp
qed

theorem retired_inputs_are_reclaimed_witness:
  "\<exists>s'. reclaim_due mem_deleter 105
      (fst (load_queue mem_deleter [] (snd (schedule mem_deleter 5 ''n'' [retired_file] [] retired_store))))
      (snd (schedule mem_deleter 5 ''n'' [retired_file] [] retired_store)) = ([], s') \<and> map_of s' ''a'' = None"
proof -
  let ?s1 = "retired_store @ [(queue_path mem_deleter, \<lparr>so_body = [retired_entry], so_attrs = []\<rparr>)]"
  have q: "map_of ?s1 (queue_path mem_deleter) = Some \<lparr>so_body = [retired_entry], so_attrs = []\<rparr>"
    by (simp add: retired_store_def queue_path_def)
  have get: "os_get (dl_store mem_deleter) (queue_path mem_deleter) ?s1 = (Inr \<lparr>so_body = [retired_entry], so_attrs = []\<rparr>, ?s1)"
    using q by (simp add: mem_deleter_def mem_store_def)
  then have load: "load_queue mem_deleter [] ?s1 = ([retired_entry], ?s1)" by (simp add: load_queue_def) (simp add: mem_deleter_def)
  have works: "map_of (snd (os_delete (dl_store mem_deleter) p s)) p = None" for p s
    by (simp add: mem_deleter_def mem_store_def map_of_hm_remove)
  have nums: "i64_min \<le> (5 :: int)" "5 + int (dl_grace mem_deleter) \<le> 105" "105 \<le> i64_max" "int (dl_grace mem_deleter) \<le> i64_max"
    by (simp_all add: mem_deleter_def i64_min_def i64_max_def)
  have vec: "dl_to_vec mem_deleter [retired_entry] = Some [retired_entry]" by (simp add: mem_deleter_def)
  have f: "retired_file \<in> set [retired_file]" "pf_path retired_file \<noteq> queue_path mem_deleter"
    by (simp_all add: retired_file_def queue_path_def)
  have "map_of [(queue_path mem_deleter, \<lparr>so_body = [] :: pending_deletion list, so_attrs = []\<rparr>)] (pf_path retired_file) = None"
    by (rule retired_inputs_are_reclaimed [OF mem_deleter_laws mem_deleter_codec works retired_scheduled vec q refl get load
          nums retired_reclaimed f])
  moreover have "pf_path retired_file = ''a''" by (simp add: retired_file_def)
  ultimately show ?thesis unfolding retired_scheduled using retired_reclaimed load by simp
qed

end
