(* ===== verification/Wal_Types.thy ===== *)
theory Wal_Types
  imports Path_Names
begin

text \<open>
  The data of the write-ahead log (\<open>influxdb3_wal/src/lib.rs\<close>): the gen1 duration that
  cuts time into chunks, rows and their field values, the per-table chunks of a write batch and the
  merging of batches, WAL operations, file contents and snapshot details.  Times are \<open>i64\<close>
  nanoseconds as integers, with Rust's truncating remainder written out; an \<open>f64\<close> is its bit
  pattern.  The lemmas say how a chunk time relates to the times of its rows, and that merging
  batches neither loses nor invents rows and keeps the recorded time bounds.
\<close>

section \<open>Errors and configuration\<close>

datatype wal_error =
  BufferFull nat | WriteError string | SerializeError | JoinError | WalObjectStoreError
  | WalShutdown | InvalidGen1Duration string | InvalidWalFilePath

text \<open>A \<open>Duration\<close> as its nanoseconds.\<close>

type_synonym gen1_duration = nat

definition NANOS_PER_SEC :: nat where
  "NANOS_PER_SEC = 10 ^ 9"

definition gen1_from_secs :: "nat \<Rightarrow> gen1_duration" where
  "gen1_from_secs s = s * NANOS_PER_SEC"

definition gen1_as_nanos :: "gen1_duration \<Rightarrow> int" where
  "gen1_as_nanos g = int g"

definition gen1_duration_seconds :: "gen1_duration \<Rightarrow> int" where
  "gen1_duration_seconds g = int (g div NANOS_PER_SEC)"

definition chunk_time_for_timestamp :: "gen1_duration \<Rightarrow> time_ns \<Rightarrow> int" where
  "chunk_time_for_timestamp g t = t - rem_i64 t (int g)"

text \<open>The rounded seconds that \<open>start_time\<close> turns into a calendar time.\<close>

definition gen1_start_time :: "gen1_duration \<Rightarrow> int \<Rightarrow> int" where
  "gen1_start_time g timestamp_seconds =
     (let s = gen1_duration_seconds g in div_i64 timestamp_seconds s * s)"

definition gen1_from_str :: "string \<Rightarrow> wal_error + gen1_duration" where
  "gen1_from_str s =
     (if s = ''1m'' then Inr (gen1_from_secs 60)
      else if s = ''5m'' then Inr (gen1_from_secs 300)
      else if s = ''10m'' then Inr (gen1_from_secs 600)
      else Inl (InvalidGen1Duration s))"

definition gen1_try_from :: "nat \<Rightarrow> wal_error + gen1_duration" where
  "gen1_try_from dur =
     (let d = dur div NANOS_PER_SEC in
      if d = 60 \<or> d = 300 \<or> d = 600 then Inr dur else Inl (InvalidGen1Duration (show_nat d)))"

definition gen1_default :: gen1_duration where
  "gen1_default = gen1_from_secs 600"

record wal_config =
  wc_gen1_duration :: gen1_duration
  wc_max_write_buffer_size :: nat
  wc_flush_interval :: nat
  wc_snapshot_size :: nat
  wc_wal_replay_fail_on_error :: bool

definition wal_config_default :: wal_config where
  "wal_config_default = \<lparr>wc_gen1_duration = gen1_default, wc_max_write_buffer_size = 100000,
     wc_flush_interval = NANOS_PER_SEC, wc_snapshot_size = 600, wc_wal_replay_fail_on_error = False\<rparr>"

section \<open>Rows\<close>

datatype field_data =
  Timestamp int | Key string | Tag string | String string | Integer int | UInteger nat
  | Float "64 word" | Boolean bool

text \<open>Equality of two \<open>f64\<close> bit patterns: no NaN equals anything, the two zeros are equal.\<close>

definition f64_is_nan :: "64 word \<Rightarrow> bool" where
  "f64_is_nan w \<longleftrightarrow> uint w mod 2 ^ 63 > 2047 * 2 ^ 52"

definition f64_is_zero :: "64 word \<Rightarrow> bool" where
  "f64_is_zero w \<longleftrightarrow> uint w mod 2 ^ 63 = 0"

definition f64_eq :: "64 word \<Rightarrow> 64 word \<Rightarrow> bool" where
  "f64_eq a b \<longleftrightarrow> \<not> f64_is_nan a \<and> \<not> f64_is_nan b \<and> (a = b \<or> f64_is_zero a \<and> f64_is_zero b)"

fun field_data_eq :: "field_data \<Rightarrow> field_data \<Rightarrow> bool" where
  "field_data_eq (Timestamp a) (Timestamp b) = (a = b)"
| "field_data_eq (Tag a) (Tag b) = (a = b)"
| "field_data_eq (String a) (String b) = (a = b)"
| "field_data_eq (Integer a) (Integer b) = (a = b)"
| "field_data_eq (UInteger a) (UInteger b) = (a = b)"
| "field_data_eq (Float a) (Float b) = f64_eq a b"
| "field_data_eq (Boolean a) (Boolean b) = (a = b)"
| "field_data_eq _ _ = False"

text \<open>The field values of the line-protocol parser and their conversion.\<close>

datatype field_value = I64 int | U64 nat | F64 "64 word" | StringValue string | BooleanValue bool

fun field_data_from :: "field_value \<Rightarrow> field_data" where
  "field_data_from (I64 v) = Integer v"
| "field_data_from (U64 v) = UInteger v"
| "field_data_from (F64 v) = Float v"
| "field_data_from (StringValue v) = String v"
| "field_data_from (BooleanValue v) = Boolean v"

type_synonym column_id = nat

record field =
  fld_id :: column_id
  fld_value :: field_data

record row =
  row_time :: time_ns
  row_fields :: "field list"

section \<open>Chunks of a table and write batches\<close>

record table_chunk =
  ck_rows :: "row list"

record table_chunks =
  tc_min_time :: time_ns
  tc_max_time :: time_ns
  tc_chunks :: "(int, table_chunk) hash_map"

definition table_chunk_default :: table_chunk where
  "table_chunk_default = \<lparr>ck_rows = []\<rparr>"

definition table_chunks_default :: table_chunks where
  "table_chunks_default = \<lparr>tc_min_time = i64_max, tc_max_time = i64_min, tc_chunks = []\<rparr>"

definition push_row :: "int \<Rightarrow> row \<Rightarrow> table_chunks \<Rightarrow> table_chunks" where
  "push_row chunk_time r tc =
     tc\<lparr>tc_min_time := min (tc_min_time tc) (row_time r),
        tc_max_time := max (tc_max_time tc) (row_time r),
        tc_chunks := hm_upd table_chunk_default chunk_time
          (\<lambda>c. c\<lparr>ck_rows := ck_rows c @ [r]\<rparr>) (tc_chunks tc)\<rparr>"

definition tc_row_count :: "table_chunks \<Rightarrow> nat" where
  "tc_row_count tc = sum_list (map (\<lambda>(_, c). length (ck_rows c)) (tc_chunks tc))"

record write_batch =
  wb_catalog_sequence :: nat
  wb_database_id :: db_id
  wb_database_name :: string
  wb_table_chunks :: "(table_id, table_chunks) hash_map"
  wb_min_time_ns :: time_ns
  wb_max_time_ns :: time_ns

definition WriteBatch_new ::
  "nat \<Rightarrow> db_id \<Rightarrow> string \<Rightarrow> (table_id, table_chunks) hash_map \<Rightarrow> write_batch" where
  "WriteBatch_new catalog_sequence database_id database_name chunks =
     (let (mn, mx) = foldl (\<lambda>(mn, mx) (_, tc). (min mn (tc_min_time tc), max mx (tc_max_time tc)))
          (i64_max, i64_min) chunks
      in \<lparr>wb_catalog_sequence = catalog_sequence, wb_database_id = database_id,
          wb_database_name = database_name, wb_table_chunks = chunks,
          wb_min_time_ns = mn, wb_max_time_ns = mx\<rparr>)"

text \<open>The body of the inner loop of \<open>add_write_batch\<close>, and the body of the outer one.\<close>

definition merge_chunk :: "table_chunks \<Rightarrow> int \<times> table_chunk \<Rightarrow> table_chunks" where
  "merge_chunk tc = (\<lambda>(chunk_time, new_chunk).
     tc\<lparr>tc_min_time := foldl (\<lambda>m r. min m (row_time r)) (tc_min_time tc) (ck_rows new_chunk),
        tc_max_time := foldl (\<lambda>m r. max m (row_time r)) (tc_max_time tc) (ck_rows new_chunk),
        tc_chunks := hm_upd table_chunk_default chunk_time
          (\<lambda>c. c\<lparr>ck_rows := ck_rows c @ ck_rows new_chunk\<rparr>) (tc_chunks tc)\<rparr>)"

definition merge_table ::
  "(table_id, table_chunks) hash_map \<Rightarrow> table_id \<times> table_chunks \<Rightarrow> (table_id, table_chunks) hash_map" where
  "merge_table m = (\<lambda>(t, new_chunks).
     hm_upd table_chunks_default t (\<lambda>tc. foldl merge_chunk tc (tc_chunks new_chunks)) m)"

definition add_write_batch ::
  "(table_id, table_chunks) hash_map \<Rightarrow> time_ns \<Rightarrow> time_ns \<Rightarrow> write_batch \<Rightarrow> write_batch" where
  "add_write_batch new_table_chunks mn mx b =
     b\<lparr>wb_min_time_ns := min (wb_min_time_ns b) mn,
       wb_max_time_ns := max (wb_max_time_ns b) mx,
       wb_table_chunks := foldl merge_table (wb_table_chunks b) new_table_chunks\<rparr>"

section \<open>WAL operations and file contents\<close>

datatype wal_op = Write write_batch | Noop int

fun as_write :: "wal_op \<Rightarrow> write_batch option" where
  "as_write (Write w) = Some w"
| "as_write (Noop t) = None"

datatype ordering = Less | Equal | Greater

fun wal_op_cmp :: "wal_op \<Rightarrow> wal_op \<Rightarrow> ordering" where
  "wal_op_cmp (Write a) (Write b) = Equal"
| "wal_op_cmp _ (Noop t) = Equal"
| "wal_op_cmp (Noop t) _ = Equal"

text \<open>A stable sort by a comparison, as \<open>slice::sort\<close> is.\<close>

fun insert_by :: "('a \<Rightarrow> 'a \<Rightarrow> ordering) \<Rightarrow> 'a \<Rightarrow> 'a list \<Rightarrow> 'a list" where
  "insert_by c x [] = [x]"
| "insert_by c x (y # ys) = (if c x y = Greater then y # insert_by c x ys else x # y # ys)"

definition sort_by :: "('a \<Rightarrow> 'a \<Rightarrow> ordering) \<Rightarrow> 'a list \<Rightarrow> 'a list" where
  "sort_by c xs = foldr (insert_by c) xs []"

record snapshot_details =
  sd_snapshot_sequence_number :: nat
  sd_end_time_marker :: time_ns
  sd_first_wal_sequence_number :: nat
  sd_last_wal_sequence_number :: nat
  sd_forced :: bool

record wal_contents =
  wct_persist_timestamp_ms :: int
  wct_min_timestamp_ns :: time_ns
  wct_max_timestamp_ns :: time_ns
  wct_wal_file_number :: nat
  wct_ops :: "wal_op list"
  wct_snapshot :: "snapshot_details option"

definition wal_contents_is_empty :: "wal_contents \<Rightarrow> bool" where
  "wal_contents_is_empty c \<longleftrightarrow> wct_ops c = [] \<and> wct_snapshot c = None"

section \<open>What a structure holds\<close>

text \<open>Rows with the chunk time they are filed under, then also with table and database.\<close>

definition chunks_rows :: "table_chunks \<Rightarrow> (int \<times> row) multiset" where
  "chunks_rows tc = hm_sum (\<lambda>ct c. image_mset (Pair ct) (mset (ck_rows c))) (tc_chunks tc)"

definition tables_rows :: "(table_id, table_chunks) hash_map \<Rightarrow> (table_id \<times> int \<times> row) multiset" where
  "tables_rows m = hm_sum (\<lambda>t tc. image_mset (Pair t) (chunks_rows tc)) m"

definition batch_rows :: "write_batch \<Rightarrow> (table_id \<times> int \<times> row) multiset" where
  "batch_rows b = tables_rows (wb_table_chunks b)"

fun op_rows :: "wal_op \<Rightarrow> (db_id \<times> table_id \<times> int \<times> row) multiset" where
  "op_rows (Write b) = image_mset (Pair (wb_database_id b)) (batch_rows b)"
| "op_rows (Noop t) = {#}"

definition ops_rows :: "wal_op list \<Rightarrow> (db_id \<times> table_id \<times> int \<times> row) multiset" where
  "ops_rows ops = sum_list (map op_rows ops)"

text \<open>Recorded bounds enclose the rows: of one table's chunks, then of a batch.\<close>

definition chunks_bounded :: "table_chunks \<Rightarrow> bool" where
  "chunks_bounded tc \<longleftrightarrow>
     (\<forall>(ct, r) \<in># chunks_rows tc. tc_min_time tc \<le> row_time r \<and> row_time r \<le> tc_max_time tc)"

definition tables_within :: "time_ns \<Rightarrow> time_ns \<Rightarrow> (table_id, table_chunks) hash_map \<Rightarrow> bool" where
  "tables_within mn mx m \<longleftrightarrow> (\<forall>(t, ct, r) \<in># tables_rows m. mn \<le> row_time r \<and> row_time r \<le> mx)"

definition batch_bounded :: "write_batch \<Rightarrow> bool" where
  "batch_bounded b \<longleftrightarrow> tables_within (wb_min_time_ns b) (wb_max_time_ns b) (wb_table_chunks b)"

section \<open>Chunk times\<close>

lemma chunk_time_nonneg:
  assumes "g > 0" and "t \<ge> 0"
  shows "chunk_time_for_timestamp g t \<le> t" "t < chunk_time_for_timestamp g t + int g"
    "chunk_time_for_timestamp g t \<ge> 0"
  using assms rem_i64_bounds [of "int g" t] by (auto simp: chunk_time_for_timestamp_def)

lemma chunk_time_neg:
  assumes "g > 0" and "t \<le> 0"
  shows "t \<le> chunk_time_for_timestamp g t" "chunk_time_for_timestamp g t < t + int g"
    "chunk_time_for_timestamp g t \<le> 0"
  using assms rem_i64_bounds [of "int g" t] by (auto simp: chunk_time_for_timestamp_def)

lemma chunk_time_dvd: "int g dvd chunk_time_for_timestamp g t"
  unfolding chunk_time_for_timestamp_def by (rule rem_i64_dvd)

text \<open>A multiple of the duration separates chunks the way it separates non-negative times.\<close>

lemma chunk_time_below_marker:
  assumes "g > 0" "t \<ge> 0" "t < m"
  shows "chunk_time_for_timestamp g t < m"
  using chunk_time_nonneg(1) [OF assms(1,2)] assms(3) by simp

section \<open>Merging loses and invents nothing\<close>

lemma sort_by_equal:
  assumes "\<And>x y. c x y = Equal"
  shows "sort_by c xs = xs"
proof (induction xs)
  case (Cons x xs)
  have "insert_by c x ys = x # ys" for ys using assms by (cases ys) simp_all
  with Cons show ?case by (simp add: sort_by_def)
qed (simp add: sort_by_def)

lemma wal_op_cmp_Equal [simp]: "wal_op_cmp a b = Equal"
  by (cases a; cases b) simp_all

lemma sort_ops_id [simp]: "sort_by wal_op_cmp ops = ops"
  by (rule sort_by_equal) simp

lemma chunks_rows_default [simp]: "chunks_rows table_chunks_default = {#}"
  by (simp add: chunks_rows_def table_chunks_default_def)

lemma chunks_rows_push_row:
  "chunks_rows (push_row ct r tc) = add_mset (ct, r) (chunks_rows tc)"
  unfolding chunks_rows_def push_row_def
  by (simp, subst hm_sum_upd [where X = "{#(ct, r)#}"]) (simp_all add: table_chunk_default_def)

lemma chunks_rows_merge_chunk:
  "chunks_rows (merge_chunk tc (ct, new)) = chunks_rows tc + image_mset (Pair ct) (mset (ck_rows new))"
  unfolding chunks_rows_def merge_chunk_def
  by (simp, subst hm_sum_upd [where X = "image_mset (Pair ct) (mset (ck_rows new))"])
    (simp_all add: table_chunk_default_def)

lemma chunks_rows_merge_chunks:
  "chunks_rows (foldl merge_chunk tc cs) =
     chunks_rows tc + hm_sum (\<lambda>ct c. image_mset (Pair ct) (mset (ck_rows c))) cs"
  by (induction cs arbitrary: tc) (auto simp: chunks_rows_merge_chunk ac_simps)

lemma tables_rows_merge_table:
  "tables_rows (merge_table m (t, new)) = tables_rows m + image_mset (Pair t) (chunks_rows new)"
  unfolding tables_rows_def merge_table_def
  by (simp, subst hm_sum_upd [where X = "image_mset (Pair t) (chunks_rows new)"])
    (simp_all add: chunks_rows_merge_chunks chunks_rows_def [of new])

lemma tables_rows_simps [simp]:
  "tables_rows [] = {#}"
  "tables_rows ((t, tc) # m) = image_mset (Pair t) (chunks_rows tc) + tables_rows m"
  by (simp_all add: tables_rows_def)

lemma tables_rows_merge:
  "tables_rows (foldl merge_table m new) = tables_rows m + tables_rows new"
proof (induction new arbitrary: m)
  case (Cons x new)
  obtain t tc where "x = (t, tc)" by fastforce
  with Cons show ?case by (simp add: tables_rows_merge_table)
qed simp

lemma batch_rows_add [simp]:
  "batch_rows (add_write_batch new mn mx b) = batch_rows b + tables_rows new"
  by (simp add: batch_rows_def add_write_batch_def tables_rows_merge)

lemma ops_rows_simps [simp]:
  "ops_rows [] = {#}" "ops_rows (op # ops) = op_rows op + ops_rows ops"
  "ops_rows (ops @ ops') = ops_rows ops + ops_rows ops'"
  by (simp_all add: ops_rows_def)

lemma tc_row_count_rows: "tc_row_count tc = size (chunks_rows tc)"
proof -
  have "sum_list (map (\<lambda>(_, c). length (ck_rows c)) m) =
      size (hm_sum (\<lambda>ct c. image_mset (Pair ct) (mset (ck_rows c))) m)" for m :: "(int, table_chunk) hash_map"
    by (induction m) auto
  then show ?thesis by (simp add: tc_row_count_def chunks_rows_def)
qed

section \<open>Recorded bounds\<close>

lemma foldl_min_le_start: "foldl (\<lambda>m r. min m (f r)) (a::'a::linorder) xs \<le> a"
proof (induction xs arbitrary: a)
  case (Cons x xs)
  from Cons [of "min a (f x)"] show ?case by simp
qed simp

lemma foldl_min_le: "x \<in> set xs \<Longrightarrow> foldl (\<lambda>m r. min m (f r)) (a::'a::linorder) xs \<le> f x"
proof (induction xs arbitrary: a)
  case (Cons y ys)
  then show ?case using foldl_min_le_start [of f "min a (f y)" ys] by auto
qed simp

lemma foldl_max_ge_start: "(a::'a::linorder) \<le> foldl (\<lambda>m r. max m (f r)) a xs"
proof (induction xs arbitrary: a)
  case (Cons x xs)
  from Cons [of "max a (f x)"] show ?case by simp
qed simp

lemma foldl_max_ge: "x \<in> set xs \<Longrightarrow> f x \<le> foldl (\<lambda>m r. max m (f r)) (a::'a::linorder) xs"
proof (induction xs arbitrary: a)
  case (Cons y ys)
  then show ?case using foldl_max_ge_start [of "max a (f y)" f ys] by auto
qed simp

lemma chunks_bounded_default [simp]: "chunks_bounded table_chunks_default"
  by (simp add: chunks_bounded_def)

lemma chunks_bounded_push_row [wf_intros]:
  "chunks_bounded tc \<Longrightarrow> chunks_bounded (push_row ct r tc)"
  unfolding chunks_bounded_def chunks_rows_push_row by (force simp: push_row_def)

lemma tables_within_mono:
  "tables_within mn mx m \<Longrightarrow> mn' \<le> mn \<Longrightarrow> mx \<le> mx' \<Longrightarrow> tables_within mn' mx' m"
  unfolding tables_within_def by fastforce

lemma batch_bounded_add [wf_intros]:
  assumes "batch_bounded b" and "tables_within mn mx new"
  shows "batch_bounded (add_write_batch new mn mx b)"
proof -
  let ?b = "add_write_batch new mn mx b"
  have "tables_within (wb_min_time_ns ?b) (wb_max_time_ns ?b) (wb_table_chunks b)"
    using assms(1) unfolding batch_bounded_def
    by (rule tables_within_mono) (simp_all add: add_write_batch_def)
  moreover have "tables_within (wb_min_time_ns ?b) (wb_max_time_ns ?b) new"
    using assms(2) by (rule tables_within_mono) (simp_all add: add_write_batch_def)
  ultimately show ?thesis
    unfolding batch_bounded_def tables_within_def
    by (auto simp: add_write_batch_def tables_rows_merge)
qed

lemma WriteBatch_new_bounds:
  "wb_min_time_ns (WriteBatch_new cs d n m) = foldl (\<lambda>mn x. min mn (tc_min_time (snd x))) i64_max m \<and>
   wb_max_time_ns (WriteBatch_new cs d n m) = foldl (\<lambda>mx x. max mx (tc_max_time (snd x))) i64_min m"
proof -
  have "foldl (\<lambda>(mn, mx) (_, tc). (min mn (tc_min_time tc), max mx (tc_max_time tc))) (a, b) m =
      (foldl (\<lambda>mn x. min mn (tc_min_time (snd x))) a m, foldl (\<lambda>mx x. max mx (tc_max_time (snd x))) b m)"
    for a b and m :: "(table_id, table_chunks) hash_map"
    by (induction m arbitrary: a b) auto
  then show ?thesis by (simp add: WriteBatch_new_def)
qed

lemma batch_bounded_new [wf_intros]:
  assumes "\<And>t tc. (t, tc) \<in> set m \<Longrightarrow> chunks_bounded tc"
  shows "batch_bounded (WriteBatch_new cs d n m)"
proof -
  let ?b = "WriteBatch_new cs d n m"
  have min: "wb_min_time_ns ?b \<le> tc_min_time tc" if "(t, tc) \<in> set m" for t tc
    using foldl_min_le [OF that, of "\<lambda>x. tc_min_time (snd x)" i64_max] WriteBatch_new_bounds [of cs d n m]
    by (simp add: split_beta)
  have max: "tc_max_time tc \<le> wb_max_time_ns ?b" if "(t, tc) \<in> set m" for t tc
    using foldl_max_ge [OF that, of "\<lambda>x. tc_max_time (snd x)" i64_min] WriteBatch_new_bounds [of cs d n m]
    by (simp add: split_beta)
  have "wb_table_chunks ?b = m" by (simp add: WriteBatch_new_def split_beta)
  then show ?thesis
    using assms min max unfolding batch_bounded_def tables_within_def tables_rows_def chunks_bounded_def
    by (fastforce simp: in_hm_sum)
qed

section \<open>Properties\<close>

lemma gen1_try_from_pos: "gen1_try_from dur = Inr g \<Longrightarrow> g > 0"
  by (cases "dur = 0") (auto simp: gen1_try_from_def NANOS_PER_SEC_def Let_def split: if_splits)

text \<open>For every duration the configuration accepts, chunk times cut the time after the epoch
  into half-open intervals of that length: a time lies in the interval that starts at its chunk time,
  a chunk time is its own chunk time, and two times share a chunk exactly when the same multiples of
  the duration precede them.\<close>

theorem chunk_times_cut_time:
  assumes "gen1_try_from dur = Inr g" and "0 \<le> t" and "0 \<le> t'"
  shows "chunk_time_for_timestamp g t \<le> t \<and> t < chunk_time_for_timestamp g t + gen1_as_nanos g \<and>
         chunk_time_for_timestamp g (chunk_time_for_timestamp g t) = chunk_time_for_timestamp g t \<and>
         (chunk_time_for_timestamp g t = chunk_time_for_timestamp g t' \<longleftrightarrow> t div int g = t' div int g)"
proof -
  have g: "g > 0" using assms(1) by (rule gen1_try_from_pos)
  have ct: "chunk_time_for_timestamp g x = x div int g * int g" if "0 \<le> x" for x
    using that by (simp add: chunk_time_for_timestamp_def rem_i64_def minus_mod_eq_div_mult)
  have "0 \<le> t div int g * int g" using assms(2) g by (simp add: pos_imp_zdiv_nonneg_iff)
  with g assms(2,3) show ?thesis
    using chunk_time_nonneg(1,2) [OF g assms(2)] by (simp add: ct gen1_as_nanos_def)
qed

theorem chunk_times_cut_time_witness:
  "gen1_try_from 60000000000 = Inr 60000000000 \<and>
   chunk_time_for_timestamp 60000000000 90000000000 = 60000000000 \<and>
   90000000000 < chunk_time_for_timestamp 60000000000 90000000000 + gen1_as_nanos 60000000000"
proof -
  have ok: "gen1_try_from 60000000000 = Inr 60000000000"
    by (simp add: gen1_try_from_def NANOS_PER_SEC_def)
  from chunk_times_cut_time [OF ok, of 90000000000 0] ok show ?thesis
    by (simp add: chunk_time_for_timestamp_def rem_i64_def)
qed

text \<open>Merging a write into a buffered batch adds exactly the rows of the write, each under the
  table and chunk time it came with, and keeps the recorded time bounds around every row.\<close>

theorem merging_batches_keeps_rows:
  assumes "batch_bounded b" and "batch_bounded w"
  shows "batch_rows (add_write_batch (wb_table_chunks w) (wb_min_time_ns w) (wb_max_time_ns w) b) =
           batch_rows b + batch_rows w \<and>
         batch_bounded (add_write_batch (wb_table_chunks w) (wb_min_time_ns w) (wb_max_time_ns w) b)"
  using batch_bounded_add [OF assms(1)] assms(2) by (simp add: batch_bounded_def batch_rows_def [of w])

definition ex_batch :: "time_ns \<Rightarrow> write_batch" where
  "ex_batch t = WriteBatch_new 1 0 ''db'' [(0, push_row 0 \<lparr>row_time = t, row_fields = []\<rparr> table_chunks_default)]"

lemma ex_batch_bounded: "batch_bounded (ex_batch t)"
  unfolding ex_batch_def by (rule batch_bounded_new) (auto intro: chunks_bounded_push_row)

theorem merging_batches_keeps_rows_witness:
  "batch_bounded (ex_batch 5) \<and> batch_bounded (ex_batch 7) \<and>
   batch_rows (add_write_batch (wb_table_chunks (ex_batch 7)) (wb_min_time_ns (ex_batch 7))
     (wb_max_time_ns (ex_batch 7)) (ex_batch 5)) = batch_rows (ex_batch 5) + batch_rows (ex_batch 7)"
  using merging_batches_keeps_rows [OF ex_batch_bounded ex_batch_bounded, of 7 5] ex_batch_bounded by blast

text \<open>Field values do not satisfy the reflexivity that their declared equivalence promises:
  a value equals itself exactly when it is neither a key, whose arm is missing, nor a NaN.\<close>

theorem field_data_eq_reflexive:
  "field_data_eq x x \<longleftrightarrow> (case x of Key k \<Rightarrow> False | Float w \<Rightarrow> \<not> f64_is_nan w | _ \<Rightarrow> True)"
  by (cases x) (simp_all add: f64_eq_def)

end
