(* ===== verification/Snapshot_Tracker.thy ===== *)
theory Snapshot_Tracker
  imports Wal_Types
begin

text \<open>
  The tracker that decides when the write-ahead log is snapshot and which WAL files a snapshot
  covers (\<open>influxdb3_wal/src/snapshot_tracker.rs\<close>).  A panic (a failed assertion or the
  checked arithmetic of \<open>Timestamp\<close>) is \<open>None\<close>.  The lemmas show that a
  snapshot covers a prefix of the tracked periods whose data lies below its end marker, that the
  backlog is bounded, and when the marker separates the chunks that are persisted.
\<close>

section \<open>Periods and the tracker\<close>

record wal_period =
  wp_wal_file_number :: nat
  wp_min_time :: time_ns
  wp_max_time :: time_ns

definition WalPeriod_new :: "nat \<Rightarrow> time_ns \<Rightarrow> time_ns \<Rightarrow> wal_period option" where
  "WalPeriod_new n mn mx =
     (if mn \<le> mx then Some \<lparr>wp_wal_file_number = n, wp_min_time = mn, wp_max_time = mx\<rparr> else None)"

record snapshot_tracker =
  st_last_snapshot_sequence_number :: nat
  st_last_wal_sequence_number :: nat
  st_wal_periods :: "wal_period list"
  st_snapshot_size :: nat
  st_gen1_duration :: gen1_duration

definition SnapshotTracker_new :: "nat \<Rightarrow> gen1_duration \<Rightarrow> nat option \<Rightarrow> snapshot_tracker" where
  "SnapshotTracker_new snapshot_size g last_snapshot =
     \<lparr>st_last_snapshot_sequence_number = (case last_snapshot of None \<Rightarrow> 0 | Some n \<Rightarrow> n),
      st_last_wal_sequence_number = 0, st_wal_periods = [], st_snapshot_size = snapshot_size,
      st_gen1_duration = g\<rparr>"

definition add_wal_period :: "wal_period \<Rightarrow> snapshot_tracker \<Rightarrow> snapshot_tracker option" where
  "add_wal_period p tr =
     (if st_wal_periods tr \<noteq> [] \<and>
         \<not> wp_wal_file_number (last (st_wal_periods tr)) < wp_wal_file_number p
      then None
      else Some (tr\<lparr>st_last_wal_sequence_number := wp_wal_file_number p,
                    st_wal_periods := st_wal_periods tr @ [p]\<rparr>))"

definition number_of_periods_to_snapshot_after :: "snapshot_tracker \<Rightarrow> nat" where
  "number_of_periods_to_snapshot_after tr = st_snapshot_size tr + st_snapshot_size tr div 2"

definition should_run_snapshot :: "bool \<Rightarrow> snapshot_tracker \<Rightarrow> bool" where
  "should_run_snapshot force tr =
     (if st_wal_periods tr = [] then False
      else if \<not> force \<and> length (st_wal_periods tr) < number_of_periods_to_snapshot_after tr then False
      else True)"

definition increment_snapshot_sequence_number :: "snapshot_tracker \<Rightarrow> nat \<times> snapshot_tracker" where
  "increment_snapshot_sequence_number tr =
     (let n = st_last_snapshot_sequence_number tr + 1
      in (n, tr\<lparr>st_last_snapshot_sequence_number := n\<rparr>))"

definition reserve_snapshot_sequence_number :: "snapshot_tracker \<Rightarrow> nat \<times> snapshot_tracker" where
  "reserve_snapshot_sequence_number tr = increment_snapshot_sequence_number tr"

text \<open>\<open>Timestamp\<close> arithmetic, \<open>None\<close> where the source panics with wraparound.\<close>

definition checked_ts :: "int \<Rightarrow> time_ns option" where
  "checked_ts t = (if in_i64 t then Some t else None)"

definition snapshot_in_order_wal_periods ::
  "snapshot_tracker \<Rightarrow> (snapshot_details option \<times> snapshot_tracker) option" where
  "snapshot_in_order_wal_periods tr =
     (if st_wal_periods tr = [] then Some (None, tr)
      else
        let mx = wp_max_time (last (st_wal_periods tr)) in
        case checked_ts (mx - rem_i64 mx (gen1_as_nanos (st_gen1_duration tr))) of
          None \<Rightarrow> None
        | Some t \<Rightarrow>
            (let periods = takeWhile (\<lambda>p. wp_max_time p < t) (st_wal_periods tr) in
             if periods = [] then Some (None, tr)
             else
               let first_wal = wp_wal_file_number (hd periods);
                   last_wal = wp_wal_file_number (last periods);
                   tr1 = tr\<lparr>st_wal_periods :=
                     filter (\<lambda>p. wp_wal_file_number p > last_wal) (st_wal_periods tr)\<rparr>;
                   (n, tr2) = increment_snapshot_sequence_number tr1
               in Some (Some \<lparr>sd_snapshot_sequence_number = n, sd_end_time_marker = t,
                    sd_first_wal_sequence_number = first_wal,
                    sd_last_wal_sequence_number = last_wal, sd_forced = False\<rparr>, tr2)))"

definition snapshot_all ::
  "snapshot_tracker \<Rightarrow> (snapshot_details option \<times> snapshot_tracker) option" where
  "snapshot_all tr =
     (let periods = st_wal_periods tr; tr1 = tr\<lparr>st_wal_periods := []\<rparr> in
      case list_max (map wp_max_time periods) of
        None \<Rightarrow> Some (None, tr1)
      | Some max_time \<Rightarrow>
          (case checked_ts (max_time - rem_i64 max_time (gen1_as_nanos (st_gen1_duration tr))) of
             None \<Rightarrow> None
           | Some t0 \<Rightarrow>
               (case checked_ts (t0 + gen1_as_nanos (st_gen1_duration tr)) of
                  None \<Rightarrow> None
                | Some t \<Rightarrow>
                    (let (n, tr2) = increment_snapshot_sequence_number tr1
                     in Some (Some \<lparr>sd_snapshot_sequence_number = n, sd_end_time_marker = t,
                          sd_first_wal_sequence_number = wp_wal_file_number (hd periods),
                          sd_last_wal_sequence_number = wp_wal_file_number (last periods),
                          sd_forced = True\<rparr>, tr2)))))"

definition tracker_snapshot ::
  "bool \<Rightarrow> snapshot_tracker \<Rightarrow> (snapshot_details option \<times> snapshot_tracker) option" where
  "tracker_snapshot force tr =
     (if \<not> should_run_snapshot force tr then Some (None, tr)
      else if force \<or> length (st_wal_periods tr) \<ge> 3 * st_snapshot_size tr then snapshot_all tr
      else snapshot_in_order_wal_periods tr)"

section \<open>Well-formed trackers\<close>

definition wf_tracker :: "snapshot_tracker \<Rightarrow> bool" where
  "wf_tracker tr \<longleftrightarrow>
     sorted_wrt (<) (map wp_wal_file_number (st_wal_periods tr)) \<and>
     (st_wal_periods tr \<noteq> [] \<longrightarrow>
        st_last_wal_sequence_number tr = wp_wal_file_number (last (st_wal_periods tr)))"

text \<open>What a snapshot promises about the periods it took and those it left.\<close>

definition snapshot_covers ::
  "snapshot_tracker \<Rightarrow> snapshot_details \<Rightarrow> snapshot_tracker \<Rightarrow> wal_period list \<Rightarrow> bool" where
  "snapshot_covers tr sd tr' taken \<longleftrightarrow>
     taken \<noteq> [] \<and> st_wal_periods tr = taken @ st_wal_periods tr' \<and>
     sd_first_wal_sequence_number sd = wp_wal_file_number (hd taken) \<and>
     sd_last_wal_sequence_number sd = wp_wal_file_number (last taken) \<and>
     (\<forall>p \<in> set taken. wp_max_time p < sd_end_time_marker sd \<and>
        wp_wal_file_number p \<le> sd_last_wal_sequence_number sd) \<and>
     (\<forall>p \<in> set (st_wal_periods tr'). sd_last_wal_sequence_number sd < wp_wal_file_number p) \<and>
     int (st_gen1_duration tr) dvd sd_end_time_marker sd \<and>
     sd_snapshot_sequence_number sd = st_last_snapshot_sequence_number tr + 1 \<and>
     st_last_snapshot_sequence_number tr' = sd_snapshot_sequence_number sd"

lemma wf_tracker_new [wf_intros]: "wf_tracker (SnapshotTracker_new snapshot_size g n)"
  by (simp add: wf_tracker_def SnapshotTracker_new_def)

lemma wf_add_wal_period [wf_intros]:
  assumes "wf_tracker tr" and "add_wal_period p tr = Some tr'"
  shows "wf_tracker tr'"
proof -
  let ?ns = "map wp_wal_file_number (st_wal_periods tr)"
  have "\<forall>n \<in> set ?ns. n < wp_wal_file_number p"
  proof (cases "st_wal_periods tr" rule: rev_cases)
    case (snoc qs q)
    then show ?thesis using assms
      by (auto simp: wf_tracker_def add_wal_period_def sorted_wrt_append split: if_splits)
  qed simp
  then show ?thesis using assms
    by (auto simp: wf_tracker_def add_wal_period_def sorted_wrt_append split: if_splits)
qed

lemma sorted_prefix_numbers:
  assumes "sorted_wrt (<) (map f (a @ b))" and "a \<noteq> []"
  shows "(\<forall>x \<in> set a. f x \<le> (f (last a) :: nat)) \<and> (\<forall>x \<in> set b. f (last a) < f x)"
proof -
  from assms(2) obtain ys y where a: "a = ys @ [y]" by (meson rev_exhaust)
  with assms(1) show ?thesis by (auto simp: sorted_wrt_append less_imp_le)
qed

text \<open>The retained periods are what is left of the prefix the snapshot took.\<close>

lemma retain_above_prefix:
  assumes "sorted_wrt (<) (map f (a @ b))" and "a \<noteq> []"
  shows "filter (\<lambda>x. f x > (f (last a) :: nat)) (a @ b) = b"
  using sorted_prefix_numbers [OF assms] by (auto simp: filter_empty_conv filter_id_conv not_less)

lemma checked_ts_Some [simp]: "checked_ts t = Some t' \<longleftrightarrow> in_i64 t \<and> t' = t"
  by (auto simp: checked_ts_def)

lemma in_order_covers:
  assumes "wf_tracker tr" and "snapshot_in_order_wal_periods tr = Some (Some sd, tr')"
  shows "\<exists>taken. snapshot_covers tr sd tr' taken"
proof -
  define mx where "mx = wp_max_time (last (st_wal_periods tr))"
  define t where "t = mx - rem_i64 mx (int (st_gen1_duration tr))"
  define taken where "taken = takeWhile (\<lambda>p. wp_max_time p < t) (st_wal_periods tr)"
  define rest where "rest = dropWhile (\<lambda>p. wp_max_time p < t) (st_wal_periods tr)"
  have split: "st_wal_periods tr = taken @ rest" by (simp add: taken_def rest_def)
  from assms(2) have ne: "taken \<noteq> []"
    and sd: "sd = \<lparr>sd_snapshot_sequence_number = st_last_snapshot_sequence_number tr + 1,
        sd_end_time_marker = t, sd_first_wal_sequence_number = wp_wal_file_number (hd taken),
        sd_last_wal_sequence_number = wp_wal_file_number (last taken), sd_forced = False\<rparr>"
    and tr': "tr' = tr\<lparr>st_wal_periods := filter (\<lambda>p. wp_wal_file_number p > wp_wal_file_number (last taken))
        (st_wal_periods tr), st_last_snapshot_sequence_number := st_last_snapshot_sequence_number tr + 1\<rparr>"
    by (auto simp: snapshot_in_order_wal_periods_def increment_snapshot_sequence_number_def Let_def
        gen1_as_nanos_def mx_def [symmetric] t_def [symmetric] taken_def [symmetric]
        split: if_splits option.splits)
  have sorted: "sorted_wrt (<) (map wp_wal_file_number (taken @ rest))"
    using assms(1) by (simp add: wf_tracker_def split)
  have "st_wal_periods tr' = rest"
    using retain_above_prefix [OF sorted ne] by (simp add: tr' split)
  moreover have "wp_max_time p < t" if "p \<in> set taken" for p
    using that unfolding taken_def by (rule set_takeWhileD [THEN conjunct2])
  moreover have "int (st_gen1_duration tr) dvd t" by (simp add: t_def rem_i64_dvd)
  ultimately have "snapshot_covers tr sd tr' taken"
    unfolding snapshot_covers_def using sorted_prefix_numbers [OF sorted ne] ne split by (simp add: sd tr')
  then show ?thesis ..
qed

lemma all_covers:
  assumes "wf_tracker tr" and "st_gen1_duration tr > 0" and "snapshot_all tr = Some (Some sd, tr')"
  shows "snapshot_covers tr sd tr' (st_wal_periods tr) \<and> st_wal_periods tr' = []"
proof -
  let ?ps = "st_wal_periods tr" and ?d = "int (st_gen1_duration tr)"
  from assms(3) obtain mx where mx: "list_max (map wp_max_time ?ps) = Some mx"
      and sd: "sd_end_time_marker sd = mx - rem_i64 mx ?d + ?d"
      "sd_first_wal_sequence_number sd = wp_wal_file_number (hd ?ps)"
      "sd_last_wal_sequence_number sd = wp_wal_file_number (last ?ps)"
      "sd_snapshot_sequence_number sd = st_last_snapshot_sequence_number tr + 1"
      "st_last_snapshot_sequence_number tr' = st_last_snapshot_sequence_number tr + 1"
      and rest: "st_wal_periods tr' = []"
    by (auto simp: snapshot_all_def increment_snapshot_sequence_number_def Let_def gen1_as_nanos_def
        split: option.splits)
  have ne: "?ps \<noteq> []" using mx by auto
  have "mx < sd_end_time_marker sd"
    using rem_i64_bounds(1) [of ?d mx] assms(2) unfolding sd by simp
  then have "wp_max_time p < sd_end_time_marker sd" if "p \<in> set ?ps" for p
    using list_max_ge [OF mx] that by fastforce
  moreover have "\<forall>p \<in> set ?ps. wp_wal_file_number p \<le> wp_wal_file_number (last ?ps)"
    using sorted_prefix_numbers [of wp_wal_file_number ?ps "[]"] assms(1) ne by (simp add: wf_tracker_def)
  moreover have "?d dvd sd_end_time_marker sd" unfolding sd by (simp add: rem_i64_dvd)
  ultimately show ?thesis unfolding snapshot_covers_def using sd ne rest by simp
qed

lemma tracker_snapshot_covers:
  assumes "wf_tracker tr" and "st_gen1_duration tr > 0" and "tracker_snapshot force tr = Some (Some sd, tr')"
  shows "\<exists>taken. snapshot_covers tr sd tr' taken"
  using assms in_order_covers [OF assms(1)] all_covers [OF assms(1,2)]
  by (auto simp: tracker_snapshot_def split: if_splits)

lemma tracker_snapshot_fields:
  assumes "tracker_snapshot force tr = Some (r, tr')"
  shows "st_gen1_duration tr' = st_gen1_duration tr" "st_snapshot_size tr' = st_snapshot_size tr"
    "st_last_wal_sequence_number tr' = st_last_wal_sequence_number tr"
    "r = None \<Longrightarrow> tr' = tr"
  using assms
  by (auto simp: tracker_snapshot_def snapshot_in_order_wal_periods_def snapshot_all_def Let_def
      increment_snapshot_sequence_number_def should_run_snapshot_def split: if_splits option.splits)

lemma wf_tracker_snapshot [wf_intros]:
  assumes "wf_tracker tr" and "st_gen1_duration tr > 0" and "tracker_snapshot force tr = Some (r, tr')"
  shows "wf_tracker tr'"
proof (cases r)
  case None
  then show ?thesis using tracker_snapshot_fields(4) [OF assms(3)] assms(1) by simp
next
  case (Some sd)
  with tracker_snapshot_covers assms obtain taken where "snapshot_covers tr sd tr' taken" by blast
  then have "st_wal_periods tr = taken @ st_wal_periods tr'" by (simp add: snapshot_covers_def)
  then show ?thesis
    using assms(1) tracker_snapshot_fields(3) [OF assms(3)]
    by (auto simp: wf_tracker_def sorted_wrt_append)
qed

section \<open>Absence of panics\<close>

lemma rem_in_i64:
  assumes "d > 0" and "in_i64 t"
  shows "in_i64 (t - rem_i64 t d)"
  using assms rem_i64_bounds [OF assms(1), of t]
  by (cases "t \<ge> 0") (auto simp: in_i64_def i64_min_def i64_max_def)

lemma list_max_in: "list_max xs = Some m \<Longrightarrow> \<forall>x \<in> set xs. P x \<Longrightarrow> P m"
  using list_max_mem by blast

lemma snapshot_all_returns:
  assumes "st_gen1_duration tr > 0"
    and "\<forall>p \<in> set (st_wal_periods tr). in_i64 (wp_max_time p) \<and>
           wp_max_time p \<le> i64_max - 2 * int (st_gen1_duration tr)"
  shows "snapshot_all tr \<noteq> None"
proof (cases "list_max (map wp_max_time (st_wal_periods tr))")
  case (Some mx)
  let ?d = "int (st_gen1_duration tr)"
  have mx: "in_i64 mx" "mx \<le> i64_max - 2 * ?d"
    using assms(2) list_max_mem [OF Some] by auto
  have t0: "in_i64 (mx - rem_i64 mx ?d)" using assms(1) mx(1) by (intro rem_in_i64) simp_all
  moreover have "in_i64 (mx - rem_i64 mx ?d + ?d)"
    using t0 mx rem_i64_bounds(1) [of ?d mx] assms(1) by (auto simp: in_i64_def)
  ultimately show ?thesis using Some
    by (simp add: snapshot_all_def checked_ts_def gen1_as_nanos_def Let_def split_beta)
qed (simp add: snapshot_all_def Let_def)

lemma in_order_returns:
  assumes "st_gen1_duration tr > 0" and "\<forall>p \<in> set (st_wal_periods tr). in_i64 (wp_max_time p)"
  shows "snapshot_in_order_wal_periods tr \<noteq> None"
proof (cases "st_wal_periods tr = []")
  case False
  then have "in_i64 (wp_max_time (last (st_wal_periods tr)))" using assms(2) by simp
  from rem_in_i64 [OF _ this, of "int (st_gen1_duration tr)"] assms(1) False show ?thesis
    by (simp add: snapshot_in_order_wal_periods_def checked_ts_def gen1_as_nanos_def Let_def split_beta)
qed (simp add: snapshot_in_order_wal_periods_def)

section \<open>Properties\<close>

text \<open>Claim C20. A snapshot covers a non-empty prefix of the tracked WAL periods and leaves the rest: its
  file numbers are those of the prefix, every period it covers ends before its end marker, which is
  a multiple of the gen1 duration, every period it leaves has a larger file number, and its sequence
  number is the next one.  The tracker stays ordered.\<close>

theorem snapshot_covers_a_prefix:
  assumes "wf_tracker tr" and "st_gen1_duration tr > 0" and "tracker_snapshot force tr = Some (Some sd, tr')"
  shows "wf_tracker tr' \<and> (\<exists>taken. snapshot_covers tr sd tr' taken)"
  using wf_tracker_snapshot tracker_snapshot_covers assms by blast

definition ex_periods :: "wal_period list" where
  "ex_periods = [\<lparr>wp_wal_file_number = 1, wp_min_time = 0, wp_max_time = 30000000000\<rparr>,
     \<lparr>wp_wal_file_number = 2, wp_min_time = 40, wp_max_time = 61000000000\<rparr>]"

definition ex_tracker :: "wal_period list \<Rightarrow> snapshot_tracker" where
  "ex_tracker ps = \<lparr>st_last_snapshot_sequence_number = 4, st_last_wal_sequence_number = 2,
     st_wal_periods = ps, st_snapshot_size = 1, st_gen1_duration = gen1_from_secs 60\<rparr>"

theorem snapshot_covers_a_prefix_witness:
  "\<exists>sd tr'. tracker_snapshot False (ex_tracker ex_periods) = Some (Some sd, tr') \<and>
     sd_last_wal_sequence_number sd = 1 \<and> wf_tracker tr' \<and>
     (\<exists>taken. snapshot_covers (ex_tracker ex_periods) sd tr' taken)"
proof -
  let ?tr = "ex_tracker ex_periods"
  have wf: "wf_tracker ?tr" "st_gen1_duration ?tr > 0"
    by (simp_all add: wf_tracker_def ex_tracker_def ex_periods_def
        gen1_from_secs_def NANOS_PER_SEC_def)
  have "\<exists>sd tr'. tracker_snapshot False ?tr = Some (Some sd, tr') \<and> sd_last_wal_sequence_number sd = 1"
    by (simp add: tracker_snapshot_def should_run_snapshot_def number_of_periods_to_snapshot_after_def
        snapshot_in_order_wal_periods_def checked_ts_def in_i64_def i64_min_def i64_max_def
        rem_i64_def gen1_as_nanos_def increment_snapshot_sequence_number_def ex_tracker_def ex_periods_def
        gen1_from_secs_def NANOS_PER_SEC_def)
  then obtain sd tr' where run: "tracker_snapshot False ?tr = Some (Some sd, tr')"
    and last: "sd_last_wal_sequence_number sd = 1" by blast
  from snapshot_covers_a_prefix [OF wf run] run last show ?thesis by blast
qed

text \<open>Claim C21. The backlog is bounded: whatever the data, right after a snapshot decision fewer periods
  are tracked than three times the snapshot size, and a forced snapshot leaves none; and the decision
  does not panic while the tracked times stay two durations below the end of the time range.\<close>

theorem snapshot_bounds_backlog:
  assumes "st_snapshot_size tr > 0" and "st_gen1_duration tr > 0"
    and "\<forall>p \<in> set (st_wal_periods tr). in_i64 (wp_max_time p) \<and>
           wp_max_time p \<le> i64_max - 2 * int (st_gen1_duration tr)"
  shows "\<exists>r tr'. tracker_snapshot force tr = Some (r, tr') \<and>
     length (st_wal_periods tr') < 3 * st_snapshot_size tr \<and> (force \<longrightarrow> st_wal_periods tr' = [])"
proof -
  from snapshot_all_returns [OF assms(2,3)] obtain r0 tr0 where all: "snapshot_all tr = Some (r0, tr0)"
    by fastforce
  then have none: "st_wal_periods tr0 = []"
    by (auto simp: snapshot_all_def Let_def increment_snapshot_sequence_number_def split: option.splits)
  have "snapshot_in_order_wal_periods tr \<noteq> None" using in_order_returns assms(2,3) by blast
  then obtain r tr' where order: "snapshot_in_order_wal_periods tr = Some (r, tr')" by fastforce
  then have "length (st_wal_periods tr') \<le> length (st_wal_periods tr)"
    by (auto simp: snapshot_in_order_wal_periods_def Let_def increment_snapshot_sequence_number_def
        split: if_splits option.splits)
  with all none order assms(1) show ?thesis
    by (auto simp: tracker_snapshot_def should_run_snapshot_def number_of_periods_to_snapshot_after_def)
qed

theorem snapshot_bounds_backlog_witness:
  "\<exists>r tr'. tracker_snapshot True (ex_tracker ex_periods) = Some (r, tr') \<and> st_wal_periods tr' = []"
  using snapshot_bounds_backlog [of "ex_tracker ex_periods" True]
  by (auto simp: ex_tracker_def ex_periods_def
        gen1_from_secs_def NANOS_PER_SEC_def in_i64_def i64_min_def i64_max_def)

text \<open>Claim C22. Files are released only when their rows are persisted: a row at or after the epoch that
  lies in a period the snapshot covers belongs to a chunk below the end marker, which is what the
  table buffers persist.\<close>

theorem released_rows_are_below_marker:
  assumes "wf_tracker tr" and "st_gen1_duration tr > 0" and "tracker_snapshot force tr = Some (Some sd, tr')"
    and "p \<in> set (st_wal_periods tr)" and "p \<notin> set (st_wal_periods tr')"
    and "0 \<le> t" and "t \<le> wp_max_time p"
  shows "chunk_time_for_timestamp (st_gen1_duration tr) t < sd_end_time_marker sd"
proof -
  from tracker_snapshot_covers [OF assms(1-3)] obtain taken where "snapshot_covers tr sd tr' taken" by blast
  then have "wp_max_time p < sd_end_time_marker sd"
    using assms(4,5) by (auto simp: snapshot_covers_def)
  with assms(2,6,7) show ?thesis by (intro chunk_time_below_marker) simp_all
qed

theorem released_rows_are_below_marker_witness:
  "\<exists>sd tr'. tracker_snapshot True (ex_tracker ex_periods) = Some (Some sd, tr') \<and>
     chunk_time_for_timestamp (gen1_from_secs 60) 30 < sd_end_time_marker sd"
proof -
  let ?tr = "ex_tracker ex_periods"
  have wf: "wf_tracker ?tr" "st_gen1_duration ?tr > 0"
    by (simp_all add: wf_tracker_def ex_tracker_def ex_periods_def
        gen1_from_secs_def NANOS_PER_SEC_def)
  have "\<exists>sd tr'. tracker_snapshot True ?tr = Some (Some sd, tr') \<and> st_wal_periods tr' = []"
    by (simp add: tracker_snapshot_def should_run_snapshot_def snapshot_all_def list_max_def
        checked_ts_def in_i64_def i64_min_def i64_max_def
        rem_i64_def gen1_as_nanos_def increment_snapshot_sequence_number_def ex_tracker_def ex_periods_def
        gen1_from_secs_def NANOS_PER_SEC_def)
  then obtain sd tr' where run: "tracker_snapshot True ?tr = Some (Some sd, tr')"
    and none: "st_wal_periods tr' = []" by blast
  have "hd ex_periods \<in> set (st_wal_periods ?tr)" "hd ex_periods \<notin> set (st_wal_periods tr')"
      "30 \<le> wp_max_time (hd ex_periods)"
    by (simp_all add: ex_tracker_def ex_periods_def
        gen1_from_secs_def NANOS_PER_SEC_def none)
  from released_rows_are_below_marker [OF wf run this(1,2) _ this(3)] run show ?thesis
    by (auto simp: ex_tracker_def)
qed

text \<open>Before the epoch the previous property fails: the remainder truncates toward zero, so
  a snapshot can release a WAL file whose row belongs to a chunk that is not below the end marker
  and is not persisted.\<close>

theorem release_before_epoch_is_unsafe:
  "\<exists>sd tr'. tracker_snapshot False
       (ex_tracker [\<lparr>wp_wal_file_number = 2, wp_min_time = -15, wp_max_time = -15\<rparr>]) = Some (Some sd, tr') \<and>
     sd_last_wal_sequence_number sd = 2 \<and> st_wal_periods tr' = [] \<and>
     \<not> chunk_time_for_timestamp (gen1_from_secs 60) (-15) < sd_end_time_marker sd"
  by (simp add: tracker_snapshot_def should_run_snapshot_def number_of_periods_to_snapshot_after_def
      snapshot_in_order_wal_periods_def checked_ts_def in_i64_def i64_min_def i64_max_def
      rem_i64_def gen1_as_nanos_def increment_snapshot_sequence_number_def ex_tracker_def
      chunk_time_for_timestamp_def gen1_from_secs_def NANOS_PER_SEC_def)

end
