(* ===== verification/Wal_Buffer.thy ===== *)
theory Wal_Buffer
  imports Snapshot_Tracker
begin

text \<open>
  The in-memory side of the write-ahead log (\<open>influxdb3_wal/src/object_store.rs\<close>): the
  buffer that merges writes per database until the next flush (\<open>WalBuffer\<close>), its
  conversion to file contents, the flush buffer that pairs it with the snapshot tracker and the
  snapshot permit (\<open>FlushBuffer\<close>), and the bookkeeping of the WAL file remover.  Clients
  that wait for a response are numbers.  The lemmas follow the rows of a write from the request into
  the contents of a WAL file.
\<close>

section \<open>The buffer\<close>

datatype wal_buffer_state = AcceptingWrites | ShuttingDown | WalAlreadyWrittenTo

type_synonym client = nat

datatype write_result = Success | Error string

record wal_buffer =
  wbf_state :: wal_buffer_state
  wbf_wal_file_sequence_number :: nat
  wbf_op_limit :: nat
  wbf_op_count :: nat
  wbf_database_to_write_batch :: "(string, write_batch) hash_map"
  wbf_write_op_responses :: "client list"
  wbf_no_op :: "time_ns option"

definition WalBuffer_new :: "nat \<Rightarrow> nat \<Rightarrow> wal_buffer" where
  "WalBuffer_new wal_file_sequence_number op_limit =
     \<lparr>wbf_state = AcceptingWrites, wbf_wal_file_sequence_number = wal_file_sequence_number,
      wbf_op_limit = op_limit, wbf_op_count = 0, wbf_database_to_write_batch = [],
      wbf_write_op_responses = [], wbf_no_op = None\<rparr>"

definition wal_buffer_is_empty :: "wal_buffer \<Rightarrow> bool" where
  "wal_buffer_is_empty b \<longleftrightarrow> wbf_database_to_write_batch b = [] \<and> wbf_no_op b = None"

definition add_no_op :: "time_ns \<Rightarrow> wal_buffer \<Rightarrow> wal_buffer" where
  "add_no_op now b = b\<lparr>wbf_no_op := Some now\<rparr>"

definition set_state :: "wal_buffer_state \<Rightarrow> wal_buffer \<Rightarrow> wal_buffer" where
  "set_state x b = b\<lparr>wbf_state := x\<rparr>"

definition is_accepting_writes :: "wal_buffer \<Rightarrow> bool" where
  "is_accepting_writes b \<longleftrightarrow> wbf_state b = AcceptingWrites"

text \<open>The batch a database starts with, and the body of the loop over the operations.\<close>

definition empty_batch_like :: "write_batch \<Rightarrow> write_batch" where
  "empty_batch_like w = \<lparr>wb_catalog_sequence = wb_catalog_sequence w,
     wb_database_id = wb_database_id w, wb_database_name = wb_database_name w,
     wb_table_chunks = [], wb_min_time_ns = i64_max, wb_max_time_ns = i64_min\<rparr>"

fun buffer_op :: "wal_buffer \<Rightarrow> wal_op \<Rightarrow> wal_buffer" where
  "buffer_op b (Write w) =
     b\<lparr>wbf_database_to_write_batch :=
         hm_entry (wb_database_name w)
           (\<lambda>o'. add_write_batch (wb_table_chunks w) (wb_min_time_ns w) (wb_max_time_ns w)
              (case o' of None \<Rightarrow> empty_batch_like w | Some batch \<Rightarrow> batch))
           (wbf_database_to_write_batch b)\<rparr>"
| "buffer_op b (Noop t) = b"

definition write_ops_unconfirmed :: "wal_op list \<Rightarrow> wal_buffer \<Rightarrow> (wal_error + unit) \<times> wal_buffer" where
  "write_ops_unconfirmed ops b =
     (if \<not> is_accepting_writes b then (Inl WalShutdown, b)
      else if wbf_op_count b \<ge> wbf_op_limit b then (Inl (BufferFull (wbf_op_count b)), b)
      else (Inr (), foldl buffer_op b ops))"

definition buffer_ops_with_response ::
  "wal_op list \<Rightarrow> client \<Rightarrow> wal_buffer \<Rightarrow> (wal_error + unit) \<times> wal_buffer" where
  "buffer_ops_with_response ops c b =
     (if \<not> is_accepting_writes b then (Inl WalShutdown, b)
      else write_ops_unconfirmed ops (b\<lparr>wbf_write_op_responses := wbf_write_op_responses b @ [c]\<rparr>))"

text \<open>What a waiting client returns once its channel answers, or is dropped.\<close>

fun write_ops_result :: "write_result option \<Rightarrow> wal_error + unit" where
  "write_ops_result (Some Success) = Inr ()"
| "write_ops_result (Some (Error e)) = Inl (WriteError e)"
| "write_ops_result None = Inl (WriteError ''oneshot channel closed'')"

definition into_wal_contents_and_responses ::
  "bool \<Rightarrow> int \<Rightarrow> wal_buffer \<Rightarrow> wal_contents \<times> client list" where
  "into_wal_contents_and_responses forced_snapshot now_ms b =
     (let batches = map snd (wbf_database_to_write_batch b);
          mn = foldl (\<lambda>m w. min m (wb_min_time_ns w)) i64_max batches;
          mx = foldl (\<lambda>m w. max m (wb_max_time_ns w)) i64_min batches;
          ops = sort_by wal_op_cmp (map Write batches);
          (ops', mn', mx') =
            (case wbf_no_op b of
               Some time \<Rightarrow>
                 if ops = [] \<and> forced_snapshot then (ops @ [Noop time], time, time + 1) else (ops, mn, mx)
             | None \<Rightarrow> (ops, mn, mx))
      in (\<lparr>wct_persist_timestamp_ms = now_ms, wct_min_timestamp_ns = mn', wct_max_timestamp_ns = mx',
           wct_wal_file_number = wbf_wal_file_sequence_number b, wct_ops = ops', wct_snapshot = None\<rparr>,
          wbf_write_op_responses b))"

section \<open>The flush buffer\<close>

text \<open>The semaphore has one permit.  A step that needs it \<open>Waits\<close> while a snapshot holds it; a
  failed assertion \<open>Panics\<close>.\<close>

datatype 'a outcome = Done 'a | Waits | Panics

record flush_buffer =
  fb_wal_buffer :: wal_buffer
  fb_snapshot_tracker :: snapshot_tracker
  fb_permit_free :: bool

definition FlushBuffer_new :: "wal_buffer \<Rightarrow> snapshot_tracker \<Rightarrow> flush_buffer" where
  "FlushBuffer_new b tr = \<lparr>fb_wal_buffer = b, fb_snapshot_tracker = tr, fb_permit_free = True\<rparr>"

definition replay_wal_period :: "wal_period \<Rightarrow> flush_buffer \<Rightarrow> flush_buffer option" where
  "replay_wal_period p fb =
     (case add_wal_period p (fb_snapshot_tracker fb) of
        None \<Rightarrow> None
      | Some tr \<Rightarrow> Some (fb\<lparr>fb_wal_buffer := (fb_wal_buffer fb)\<lparr>
            wbf_wal_file_sequence_number := wp_wal_file_number p + 1\<rparr>,
          fb_snapshot_tracker := tr\<rparr>))"

definition flush_buffer_with_responses ::
  "bool \<Rightarrow> int \<Rightarrow> flush_buffer \<Rightarrow> (wal_contents \<times> client list) \<times> flush_buffer" where
  "flush_buffer_with_responses force now_ms fb =
     (let old = fb_wal_buffer fb;
          new_buffer = \<lparr>wbf_state = wbf_state old,
            wbf_wal_file_sequence_number = wbf_wal_file_sequence_number old + 1,
            wbf_op_limit = wbf_op_limit old, wbf_op_count = 0, wbf_database_to_write_batch = [],
            wbf_write_op_responses = [], wbf_no_op = None\<rparr>
      in (into_wal_contents_and_responses force now_ms old, fb\<lparr>fb_wal_buffer := new_buffer\<rparr>))"

definition flush_buffer_into_contents_and_responses ::
  "bool \<Rightarrow> time_ns \<Rightarrow> int \<Rightarrow> flush_buffer \<Rightarrow>
   (wal_contents \<times> client list \<times> snapshot_details option \<times> flush_buffer) outcome" where
  "flush_buffer_into_contents_and_responses force now now_ms fb =
     (let fb0 = (if force \<and> wal_buffer_is_empty (fb_wal_buffer fb)
                 then fb\<lparr>fb_wal_buffer := add_no_op now (fb_wal_buffer fb)\<rparr> else fb);
          ((contents, responses), fb1) = flush_buffer_with_responses force now_ms fb0;
          period = \<lparr>wp_wal_file_number = wct_wal_file_number contents,
                    wp_min_time = wct_min_timestamp_ns contents,
                    wp_max_time = wct_max_timestamp_ns contents\<rparr>
      in case add_wal_period period (fb_snapshot_tracker fb1) of
           None \<Rightarrow> Panics
         | Some tr \<Rightarrow>
             (case tracker_snapshot force tr of
                None \<Rightarrow> Panics
              | Some (None, tr') \<Rightarrow>
                  Done (contents, responses, None, fb1\<lparr>fb_snapshot_tracker := tr'\<rparr>)
              | Some (Some sd, tr') \<Rightarrow>
                  if fb_permit_free fb1
                  then Done (contents\<lparr>wct_snapshot := Some sd\<rparr>, responses, Some sd,
                         fb1\<lparr>fb_snapshot_tracker := tr', fb_permit_free := False\<rparr>)
                  else Waits))"

definition flush_buffer_with_failure ::
  "write_result \<Rightarrow> int \<Rightarrow> flush_buffer \<Rightarrow> (client \<times> write_result) list \<times> flush_buffer" where
  "flush_buffer_with_failure err now_ms fb =
     (let ((_, responses), fb1) = flush_buffer_with_responses False now_ms fb
      in (map (\<lambda>c. (c, err)) responses, fb1))"

section \<open>The remover's bookkeeping\<close>

record wal_file_remover =
  wfr_oldest_wal_file :: "nat option"
  wfr_last_snapshotted :: "nat option"

definition get_current_state :: "wal_file_remover \<Rightarrow> nat \<times> nat" where
  "get_current_state r =
     (case wfr_oldest_wal_file r of None \<Rightarrow> 1 | Some n \<Rightarrow> n,
      case wfr_last_snapshotted r of None \<Rightarrow> 1 | Some n \<Rightarrow> n)"

definition update_last_wal_num :: "nat \<Rightarrow> wal_file_remover \<Rightarrow> wal_file_remover" where
  "update_last_wal_num n r = r\<lparr>wfr_last_snapshotted := Some n\<rparr>"

definition update_oldest_wal_num :: "nat \<Rightarrow> wal_file_remover \<Rightarrow> wal_file_remover" where
  "update_oldest_wal_num n r = r\<lparr>wfr_oldest_wal_file := Some n\<rparr>"

definition update_last_and_get_current_state ::
  "nat \<Rightarrow> wal_file_remover \<Rightarrow> (nat \<times> nat) \<times> wal_file_remover" where
  "update_last_and_get_current_state n r =
     (let r' = update_last_wal_num n r in (get_current_state r', r'))"

section \<open>The rows a buffer holds\<close>

definition buffer_rows :: "wal_buffer \<Rightarrow> (db_id \<times> table_id \<times> int \<times> row) multiset" where
  "buffer_rows b = hm_sum (\<lambda>_ w. op_rows (Write w)) (wbf_database_to_write_batch b)"

definition wf_buffer :: "wal_buffer \<Rightarrow> bool" where
  "wf_buffer b \<longleftrightarrow>
     keys_distinct (wbf_database_to_write_batch b) \<and>
     (\<forall>(n, w) \<in> set (wbf_database_to_write_batch b). batch_bounded w)"

text \<open>A write whose database name already has a batch is for the same database.\<close>

fun same_database :: "wal_buffer \<Rightarrow> wal_op \<Rightarrow> bool" where
  "same_database b (Write w) \<longleftrightarrow>
     (\<forall>n w'. (n, w') \<in> set (wbf_database_to_write_batch b) \<and> n = wb_database_name w \<longrightarrow>
        wb_database_id w' = wb_database_id w)"
| "same_database b (Noop t) \<longleftrightarrow> True"

fun op_bounded :: "wal_op \<Rightarrow> bool" where
  "op_bounded (Write w) \<longleftrightarrow> batch_bounded w"
| "op_bounded (Noop t) \<longleftrightarrow> True"

fun same_databases :: "wal_buffer \<Rightarrow> wal_op list \<Rightarrow> bool" where
  "same_databases b [] \<longleftrightarrow> True"
| "same_databases b (op # ops) \<longleftrightarrow> same_database b op \<and> same_databases (buffer_op b op) ops"

lemma batch_rows_empty [simp]: "batch_rows (empty_batch_like w) = {#}"
  by (simp add: batch_rows_def empty_batch_like_def)

lemma batch_bounded_empty [simp]: "batch_bounded (empty_batch_like w)"
  by (simp add: batch_bounded_def tables_within_def empty_batch_like_def)

lemma add_write_batch_id [simp]: "wb_database_id (add_write_batch m mn mx b) = wb_database_id b"
  by (simp add: add_write_batch_def)

lemma empty_batch_like_id [simp]: "wb_database_id (empty_batch_like w) = wb_database_id w"
  by (simp add: empty_batch_like_def)

lemma hm_sum_entry_present:
  assumes "\<And>v. (k, v) \<in> set m \<Longrightarrow> h k (g (Some v)) = h k v + X" and "h k (g None) = X"
  shows "hm_sum h (hm_entry k g m) = hm_sum h m + X"
  using assms by (induction m) (auto simp: ac_simps)

lemma buffer_rows_op:
  assumes "same_database b op"
  shows "buffer_rows (buffer_op b op) = buffer_rows b + op_rows op"
proof (cases op)
  case (Write w)
  have "hm_sum (\<lambda>_ w. op_rows (Write w)) (wbf_database_to_write_batch (buffer_op b (Write w))) =
      hm_sum (\<lambda>_ w. op_rows (Write w)) (wbf_database_to_write_batch b) + op_rows (Write w)"
    unfolding buffer_op.simps wal_buffer.select_convs wal_buffer.update_convs
    using assms Write by (simp, intro hm_sum_entry_present) (auto simp: batch_rows_def [of w])
  with Write show ?thesis by (simp add: buffer_rows_def)
qed (simp add: buffer_rows_def)

lemma buffer_rows_ops:
  "same_databases b ops \<Longrightarrow> buffer_rows (foldl buffer_op b ops) = buffer_rows b + ops_rows ops"
  by (induction ops arbitrary: b) (auto simp: buffer_rows_op ac_simps)

lemma wf_buffer_op [wf_intros]:
  assumes "wf_buffer b" and "op_bounded op"
  shows "wf_buffer (buffer_op b op)"
proof (cases op)
  case (Write w)
  have "batch_bounded w'" if "(n, w') \<in> set (wbf_database_to_write_batch (buffer_op b (Write w)))" for n w'
  proof -
    from hm_entry_values that
    have "(n, w') \<in> set (wbf_database_to_write_batch b) \<or> w' = add_write_batch (wb_table_chunks w)
        (wb_min_time_ns w) (wb_max_time_ns w) (case map_of (wbf_database_to_write_batch b) (wb_database_name w) of
          None \<Rightarrow> empty_batch_like w | Some batch \<Rightarrow> batch)" by fastforce
    moreover have "batch_bounded (case map_of (wbf_database_to_write_batch b) (wb_database_name w) of
        None \<Rightarrow> empty_batch_like w | Some batch \<Rightarrow> batch)"
      using assms(1) by (auto simp: wf_buffer_def split: option.splits dest: map_of_SomeD)
    ultimately show ?thesis
      using assms Write batch_bounded_add by (auto simp: wf_buffer_def batch_bounded_def [of w])
  qed
  with assms(1) Write show ?thesis by (auto simp: wf_buffer_def)
qed (use assms in simp)

lemma wf_buffer_ops [wf_intros]:
  "wf_buffer b \<Longrightarrow> \<forall>op \<in> set ops. op_bounded op \<Longrightarrow> wf_buffer (foldl buffer_op b ops)"
  by (induction ops arbitrary: b) (auto intro: wf_buffer_op)

lemma buffer_op_other_fields [simp]:
  "wbf_state (buffer_op b op) = wbf_state b" "wbf_op_count (buffer_op b op) = wbf_op_count b"
  "wbf_op_limit (buffer_op b op) = wbf_op_limit b" "wbf_no_op (buffer_op b op) = wbf_no_op b"
  "wbf_write_op_responses (buffer_op b op) = wbf_write_op_responses b"
  "wbf_wal_file_sequence_number (buffer_op b op) = wbf_wal_file_sequence_number b"
  by (cases op; simp)+

lemma buffer_ops_other_fields [simp]:
  "wbf_state (foldl buffer_op b ops) = wbf_state b" "wbf_op_count (foldl buffer_op b ops) = wbf_op_count b"
  "wbf_op_limit (foldl buffer_op b ops) = wbf_op_limit b" "wbf_no_op (foldl buffer_op b ops) = wbf_no_op b"
  "wbf_write_op_responses (foldl buffer_op b ops) = wbf_write_op_responses b"
  "wbf_wal_file_sequence_number (foldl buffer_op b ops) = wbf_wal_file_sequence_number b"
  by (induction ops arbitrary: b) simp_all

section \<open>From the buffer to a file\<close>

lemma ops_rows_batches:
  "ops_rows (map Write (map snd m)) = hm_sum (\<lambda>_ w. op_rows (Write w)) m"
  by (induction m) auto

lemma contents_rows:
  "into_wal_contents_and_responses f now b = (c, rs) \<Longrightarrow> ops_rows (wct_ops c) = buffer_rows b"
  using ops_rows_batches [of "wbf_database_to_write_batch b"]
  by (auto simp: into_wal_contents_and_responses_def buffer_rows_def Let_def split: option.splits if_splits)

lemma contents_fields:
  assumes "into_wal_contents_and_responses f now b = (c, rs)"
  shows "rs = wbf_write_op_responses b" "wct_wal_file_number c = wbf_wal_file_sequence_number b"
    "wct_snapshot c = None"
  using assms by (auto simp: into_wal_contents_and_responses_def Let_def split: option.splits if_splits)

text \<open>The period recorded for a file encloses the times of its rows.\<close>

lemma contents_bounds:
  assumes "wf_buffer b" and "into_wal_contents_and_responses f now b = (c, rs)"
    and "(d, t, ct, r) \<in># ops_rows (wct_ops c)"
  shows "wct_min_timestamp_ns c \<le> row_time r \<and> row_time r \<le> wct_max_timestamp_ns c"
proof -
  let ?m = "wbf_database_to_write_batch b"
  have "(d, t, ct, r) \<in># buffer_rows b" using contents_rows [OF assms(2)] assms(3) by simp
  then obtain n w where w: "(n, w) \<in> set ?m" "(t, ct, r) \<in># batch_rows w"
    by (auto simp: buffer_rows_def in_hm_sum)
  then have "wb_min_time_ns w \<le> row_time r" "row_time r \<le> wb_max_time_ns w"
    using assms(1) by (fastforce simp: wf_buffer_def batch_bounded_def tables_within_def batch_rows_def)+
  moreover have "w \<in> set (map snd ?m)" using w(1) by force
  moreover have "?m \<noteq> []" using w(1) by auto
  then have "wct_min_timestamp_ns c = foldl (\<lambda>m w. min m (wb_min_time_ns w)) i64_max (map snd ?m)"
      "wct_max_timestamp_ns c = foldl (\<lambda>m w. max m (wb_max_time_ns w)) i64_min (map snd ?m)"
    using assms(2) by (auto simp: into_wal_contents_and_responses_def Let_def split: option.splits)
  ultimately show ?thesis
    using foldl_min_le [of w "map snd ?m" wb_min_time_ns i64_max]
      foldl_max_ge [of w "map snd ?m" wb_max_time_ns i64_min] by simp
qed

lemmas flush_defs =
  flush_buffer_into_contents_and_responses_def flush_buffer_with_responses_def Let_def

lemma flush_contents:
  assumes "flush_buffer_into_contents_and_responses force now now_ms fb = Done (c, rs, sd, fb')"
  shows "ops_rows (wct_ops c) = buffer_rows (fb_wal_buffer fb)"
    "rs = wbf_write_op_responses (fb_wal_buffer fb)"
    "wct_wal_file_number c = wbf_wal_file_sequence_number (fb_wal_buffer fb)"
    "wct_snapshot c = sd" "wbf_database_to_write_batch (fb_wal_buffer fb') = []"
    "wbf_write_op_responses (fb_wal_buffer fb') = []" "wbf_no_op (fb_wal_buffer fb') = None"
    "wbf_wal_file_sequence_number (fb_wal_buffer fb') = wbf_wal_file_sequence_number (fb_wal_buffer fb) + 1"
proof -
  define fb0 where "fb0 = (if force \<and> wal_buffer_is_empty (fb_wal_buffer fb)
    then fb\<lparr>fb_wal_buffer := add_no_op now (fb_wal_buffer fb)\<rparr> else fb)"
  obtain c0 rs0 where into: "into_wal_contents_and_responses force now_ms (fb_wal_buffer fb0) = (c0, rs0)"
    by fastforce
  have same: "buffer_rows (fb_wal_buffer fb0) = buffer_rows (fb_wal_buffer fb)"
    "wbf_write_op_responses (fb_wal_buffer fb0) = wbf_write_op_responses (fb_wal_buffer fb)"
    "wbf_wal_file_sequence_number (fb_wal_buffer fb0) = wbf_wal_file_sequence_number (fb_wal_buffer fb)"
    by (simp_all add: fb0_def add_no_op_def buffer_rows_def)
  from assms into have "wct_ops c = wct_ops c0" "rs = rs0" "wct_wal_file_number c = wct_wal_file_number c0"
    and sd: "wct_snapshot c = sd"
    and new: "wbf_database_to_write_batch (fb_wal_buffer fb') = []"
    "wbf_write_op_responses (fb_wal_buffer fb') = []" "wbf_no_op (fb_wal_buffer fb') = None"
    "wbf_wal_file_sequence_number (fb_wal_buffer fb') = wbf_wal_file_sequence_number (fb_wal_buffer fb0) + 1"
    using contents_fields(3) [OF into]
    by (auto simp: flush_defs fb0_def [symmetric] split: option.splits if_splits)
  with contents_rows [OF into] contents_fields [OF into] same
  show "ops_rows (wct_ops c) = buffer_rows (fb_wal_buffer fb)"
    "rs = wbf_write_op_responses (fb_wal_buffer fb)"
    "wct_wal_file_number c = wbf_wal_file_sequence_number (fb_wal_buffer fb)"
    "wct_snapshot c = sd" "wbf_database_to_write_batch (fb_wal_buffer fb') = []"
    "wbf_write_op_responses (fb_wal_buffer fb') = []" "wbf_no_op (fb_wal_buffer fb') = None"
    "wbf_wal_file_sequence_number (fb_wal_buffer fb') = wbf_wal_file_sequence_number (fb_wal_buffer fb) + 1"
    by simp_all
qed

section \<open>Properties\<close>

text \<open>The configured limit on buffered operations never rejects a write: no operation counts
  what it buffers, so a buffer with a positive limit answers no sequence of writes, however long,
  with \<open>BufferFull\<close>.\<close>

theorem op_limit_never_rejects:
  assumes "limit > 0"
  shows "fst (write_ops_unconfirmed ops
           (foldl (\<lambda>b ops. snd (write_ops_unconfirmed ops b)) (WalBuffer_new n limit) writes)) = Inr ()"
proof -
  let ?step = "\<lambda>b ops. snd (write_ops_unconfirmed ops b)"
  have "wbf_op_count (foldl ?step b writes) = wbf_op_count b \<and>
      wbf_op_limit (foldl ?step b writes) = wbf_op_limit b \<and> wbf_state (foldl ?step b writes) = wbf_state b" for b
    by (induction writes arbitrary: b) (auto simp: write_ops_unconfirmed_def)
  with assms show ?thesis
    by (simp add: write_ops_unconfirmed_def is_accepting_writes_def WalBuffer_new_def)
qed

theorem op_limit_never_rejects_witness:
  "(1::nat) > 0 \<and> fst (write_ops_unconfirmed [Write (ex_batch 5)]
     (foldl (\<lambda>b ops. snd (write_ops_unconfirmed ops b)) (WalBuffer_new 1 1) [[Write (ex_batch 1)], [Write (ex_batch 2)]])) = Inr ()"
  by (intro conjI op_limit_never_rejects zero_less_one)

text \<open>Batches are merged by database name and keep the identifier of the first write: a write
  to a database that was dropped and created again under the same name since the last flush is
  filed under the identifier of the dropped one.\<close>

theorem recreated_database_is_misfiled:
  "(0, 0, 0, \<lparr>row_time = 7, row_fields = []\<rparr>) \<in>#
     buffer_rows (foldl buffer_op (WalBuffer_new 1 1)
       [Write (ex_batch 5), Write ((ex_batch 7)\<lparr>wb_database_id := 1\<rparr>)]) \<and>
   op_rows (Write ((ex_batch 7)\<lparr>wb_database_id := 1\<rparr>)) = {#(1, 0, 0, \<lparr>row_time = 7, row_fields = []\<rparr>)#}"
  by (simp add: buffer_rows_def WalBuffer_new_def ex_batch_def WriteBatch_new_def batch_rows_def
      add_write_batch_def merge_table_def merge_chunk_def push_row_def table_chunks_default_def
      table_chunk_default_def hm_upd_def chunks_rows_def empty_batch_like_def tables_rows_def)

end
