(* ===== verification/Wal_Serialize.thy ===== *)
theory Wal_Serialize
  imports Wal_Types
begin

text \<open>
  The framing of a WAL file (\<open>influxdb3_wal/src/serialize.rs\<close>): the file type
  identifier, a big-endian checksum of the payload, then the payload.  The bitcode encoding and the
  CRC-32 function are library code: they are parameters, the encoding as a pair of functions
  that may fail, the checksum as any function of the payload.  The lemmas show that a written file
  reads back and that every damage to the frame is reported as a durable corruption.
\<close>

unbundle bit_operations_syntax

type_synonym byte = "8 word"

record 'c bitcode =
  bc_serialize :: "'c \<Rightarrow> byte list option"
  bc_deserialize :: "byte list \<Rightarrow> 'c option"

datatype serialize_error =
  InvalidWalFile | WalFileTooSmall nat nat | Crc32Mismatch | Bitcode | SerializeIo | TryFromSlice

definition FILE_TYPE_IDENTIFIER :: "byte list" where
  "FILE_TYPE_IDENTIFIER = [0x69, 0x64, 0x62, 0x33, 0x2e, 0x30, 0x30, 0x31]"

text \<open>The four bytes of a \<open>u32\<close>, most significant first, and reading them.\<close>

definition to_be_bytes :: "32 word \<Rightarrow> byte list" where
  "to_be_bytes w = [ucast (drop_bit 24 w), ucast (drop_bit 16 w), ucast (drop_bit 8 w), ucast w]"

fun read_u32 :: "byte list \<Rightarrow> 32 word" where
  "read_u32 (a # b # c # d # bs) =
     push_bit 24 (ucast a) OR push_bit 16 (ucast b) OR push_bit 8 (ucast c) OR ucast d"
| "read_u32 bs = 0"

definition CHECKSUM_LEN :: nat where
  "CHECKSUM_LEN = 4"

definition verify_file_type_and_deserialize ::
  "'c bitcode \<Rightarrow> (byte list \<Rightarrow> 32 word) \<Rightarrow> byte list \<Rightarrow> serialize_error + 'c" where
  "verify_file_type_and_deserialize bc crc contents =
     (let pos = length FILE_TYPE_IDENTIFIER; min_file_size = pos + CHECKSUM_LEN in
      if length contents < min_file_size then Inl (WalFileTooSmall min_file_size (length contents))
      else if take pos contents \<noteq> FILE_TYPE_IDENTIFIER then Inl InvalidWalFile
      else
        let crc32_checksum = read_u32 (take CHECKSUM_LEN (drop pos contents));
            data = drop (pos + CHECKSUM_LEN) contents
        in if crc data \<noteq> crc32_checksum then Inl Crc32Mismatch
           else case bc_deserialize bc data of None \<Rightarrow> Inl Bitcode | Some c \<Rightarrow> Inr c)"

fun is_durable_wal_corruption :: "serialize_error \<Rightarrow> bool" where
  "is_durable_wal_corruption (WalFileTooSmall e a) = True"
| "is_durable_wal_corruption InvalidWalFile = True"
| "is_durable_wal_corruption Crc32Mismatch = True"
| "is_durable_wal_corruption _ = False"

definition serialize_to_file_bytes ::
  "'c bitcode \<Rightarrow> (byte list \<Rightarrow> 32 word) \<Rightarrow> 'c \<Rightarrow> serialize_error + byte list" where
  "serialize_to_file_bytes bc crc c =
     (case bc_serialize bc c of
        None \<Rightarrow> Inl Bitcode
      | Some data \<Rightarrow> Inr (FILE_TYPE_IDENTIFIER @ to_be_bytes (crc data) @ data))"

text \<open>What the encoding library promises.\<close>

definition bitcode_ok :: "'c bitcode \<Rightarrow> bool" where
  "bitcode_ok bc \<longleftrightarrow> (\<forall>c b. bc_serialize bc c = Some b \<longrightarrow> bc_deserialize bc b = Some c)"

section \<open>The checksum field\<close>

lemma length_to_be_bytes [simp]: "length (to_be_bytes w) = 4"
  by (simp add: to_be_bytes_def)

lemma read_to_be_bytes [simp]: "read_u32 (to_be_bytes w) = w"
proof (rule bit_word_eqI)
  fix n assume "n < LENGTH(32)"
  then consider "n < 8" | "8 \<le> n" "n < 16" | "16 \<le> n" "n < 24" | "24 \<le> n" "n < 32"
    by fastforce
  then show "bit (read_u32 (to_be_bytes w)) n = bit w n"
    by cases (auto simp: to_be_bytes_def bit_simps)
qed

lemma byte_bit_beyond: "8 \<le> n \<Longrightarrow> \<not> bit (b::byte) n"
  using bit_imp_le_length [of b n] by auto

lemma to_be_read_bytes:
  assumes "length bs = 4"
  shows "to_be_bytes (read_u32 bs) = bs"
proof -
  from assms obtain a b c d where bs: "bs = [a, b, c, d]"
    by (auto simp: numeral_eq_Suc length_Suc_conv)
  show ?thesis
    unfolding bs to_be_bytes_def read_u32.simps
    by (auto intro!: bit_word_eqI simp: bit_simps byte_bit_beyond)
qed

lemma FILE_TYPE_IDENTIFIER_length [simp]: "length FILE_TYPE_IDENTIFIER = 8"
  by (simp add: FILE_TYPE_IDENTIFIER_def)

lemmas frame_simps = verify_file_type_and_deserialize_def serialize_to_file_bytes_def CHECKSUM_LEN_def Let_def

text \<open>A file is read exactly when it is the frame around a payload that decodes.\<close>

lemma frame_verifies:
  "verify_file_type_and_deserialize bc crc (FILE_TYPE_IDENTIFIER @ to_be_bytes k @ data) =
     (if crc data \<noteq> k then Inl Crc32Mismatch
      else case bc_deserialize bc data of None \<Rightarrow> Inl Bitcode | Some c \<Rightarrow> Inr c)"
  by (simp add: frame_simps)

lemma frame_split:
  assumes "12 \<le> length b" and "take 8 b = FILE_TYPE_IDENTIFIER"
  shows "b = FILE_TYPE_IDENTIFIER @ to_be_bytes (read_u32 (take 4 (drop 8 b))) @ drop 12 b"
proof -
  have "to_be_bytes (read_u32 (take 4 (drop 8 b))) = take 4 (drop 8 b)"
    using assms(1) by (intro to_be_read_bytes) simp
  moreover have "b = take 8 b @ take 4 (drop 8 b) @ drop 4 (drop 8 b)"
    by (metis append_take_drop_id)
  ultimately show ?thesis using assms(2) by simp
qed

lemma verify_short: "length b < 12 \<Longrightarrow> verify_file_type_and_deserialize bc crc b = Inl (WalFileTooSmall 12 (length b))"
  by (simp add: frame_simps)

lemma verify_other_type:
  "12 \<le> length b \<Longrightarrow> take 8 b \<noteq> FILE_TYPE_IDENTIFIER \<Longrightarrow>
     verify_file_type_and_deserialize bc crc b = Inl InvalidWalFile"
  by (simp add: frame_simps)

section \<open>Properties\<close>

text \<open>Claim C25. A WAL file reads back: over an encoding that decodes what it encodes, the bytes written
  for any contents verify and decode to those contents, whatever the checksum function.\<close>

theorem wal_file_roundtrip:
  assumes "bitcode_ok bc" and "serialize_to_file_bytes bc crc c = Inr bytes"
  shows "verify_file_type_and_deserialize bc crc bytes = Inr c"
proof -
  from assms(2) obtain data where data: "bc_serialize bc c = Some data"
    and bytes: "bytes = FILE_TYPE_IDENTIFIER @ to_be_bytes (crc data) @ data"
    by (auto simp: serialize_to_file_bytes_def split: option.splits)
  have "bc_deserialize bc data = Some c" using assms(1) data by (simp add: bitcode_ok_def)
  then show ?thesis by (simp add: bytes frame_verifies)
qed

text \<open>An encoding of a small contents type, to run the definitions.\<close>

definition byte_code :: "byte bitcode" where
  "byte_code = \<lparr>bc_serialize = (\<lambda>c. Some [c]),
     bc_deserialize = (\<lambda>bs. case bs of [c] \<Rightarrow> Some c | _ \<Rightarrow> None)\<rparr>"

definition sum_crc :: "byte list \<Rightarrow> 32 word" where
  "sum_crc bs = sum_list (map ucast bs)"

lemma byte_code_ok: "bitcode_ok byte_code"
  by (simp add: bitcode_ok_def byte_code_def)

theorem wal_file_roundtrip_witness:
  "\<exists>bytes. serialize_to_file_bytes byte_code sum_crc 7 = Inr bytes \<and> length bytes = 13 \<and>
     verify_file_type_and_deserialize byte_code sum_crc bytes = Inr 7"
proof -
  let ?b = "FILE_TYPE_IDENTIFIER @ to_be_bytes (sum_crc [7]) @ [7]"
  have run: "serialize_to_file_bytes byte_code sum_crc 7 = Inr ?b"
    by (simp add: serialize_to_file_bytes_def byte_code_def)
  from wal_file_roundtrip [OF byte_code_ok run] run show ?thesis by simp
qed

text \<open>Damage to the frame of a written file is always reported as durable corruption: the
  bytes before the payload cannot be changed or cut without an error that replay recognises as such,
  and a file that verifies is exactly the frame of its payload.\<close>

theorem wal_frame_damage_is_durable:
  assumes "serialize_to_file_bytes bc crc c = Inr bytes" and "damaged \<noteq> bytes"
    and "drop 12 damaged = drop 12 bytes \<or> length damaged < 12"
  shows "\<exists>e. verify_file_type_and_deserialize bc crc damaged = Inl e \<and> is_durable_wal_corruption e"
proof (cases "12 \<le> length damaged \<and> take 8 damaged = FILE_TYPE_IDENTIFIER")
  case True
  from assms(1) obtain data where bytes: "bytes = FILE_TYPE_IDENTIFIER @ to_be_bytes (crc data) @ data"
    by (auto simp: serialize_to_file_bytes_def split: option.splits)
  have "drop 12 damaged = data" using assms(3) True bytes by auto
  with frame_split [of damaged] True obtain k where d: "damaged = FILE_TYPE_IDENTIFIER @ to_be_bytes k @ data"
    by blast
  then have "crc data \<noteq> k" using assms(2) bytes by blast
  then show ?thesis unfolding d frame_verifies by simp
next
  case False
  then show ?thesis using verify_short [of damaged bc crc] verify_other_type [of damaged bc crc]
    by (cases "length damaged < 12") auto
qed

theorem wal_frame_damage_is_durable_witness:
  "\<exists>e. verify_file_type_and_deserialize byte_code sum_crc
         (FILE_TYPE_IDENTIFIER @ to_be_bytes (sum_crc [7] + 1) @ [7]) = Inl e \<and> is_durable_wal_corruption e"
proof -
  have run: "serialize_to_file_bytes byte_code sum_crc 7 = Inr (FILE_TYPE_IDENTIFIER @ to_be_bytes (sum_crc [7]) @ [7])"
    by (simp add: serialize_to_file_bytes_def byte_code_def)
  have "to_be_bytes (sum_crc [7] + 1) \<noteq> to_be_bytes (sum_crc [7])"
    by (metis read_to_be_bytes add_cancel_left_right zero_neq_one)
  then show ?thesis by (intro wal_frame_damage_is_durable [OF run]) simp_all
qed

end
