(* ===== verification/Wal_Object_Store.thy ===== *)
theory Wal_Object_Store
  imports Wal_Buffer Wal_Serialize Object_Store
begin

text \<open>
  The write-ahead log on an object store (\<open>influxdb3_wal/src/object_store.rs\<close>): start-up,
  replay, the flush of the buffer to a new WAL file, the deletion of snapshotted files and shutdown.
  The store, the bitcode encoding and the checksum are parameters.  A flush is modelled in the
  three phases between which it does not hold the buffer's lock: taking the contents, putting the
  file, and finishing.  What a flush tells the other parts is a list of events: notifications of
  the file notifiers, responses to waiting clients, and the request to shut the process down.
  Loads of one replay batch are modelled one after the other.
\<close>

section \<open>State and events\<close>

record 's wal_env =
  we_store :: "('s, byte list) object_store"
  we_bitcode :: "wal_contents bitcode"
  we_crc :: "byte list \<Rightarrow> 32 word"
  we_error_text :: "store_error \<Rightarrow> string"

record wal_object_store =
  wos_node_identifier_prefix :: string
  wos_added_file_notifiers :: nat
  wos_flush_buffer :: flush_buffer
  wos_snapshotted_wal_files_to_keep :: nat
  wos_wal_remover :: wal_file_remover
  wos_shutdown_cancelled :: bool

datatype wal_event =
  Notify wal_contents
  | NotifyAndSnapshot wal_contents snapshot_details
  | NotifyAdded nat wal_contents
  | Respond client write_result
  | CancelProcess

section \<open>Start-up\<close>

text \<open>The text before the first occurrence of a separator, as \<open>split(sep).next()\<close>.\<close>

fun before_first :: "string \<Rightarrow> string \<Rightarrow> string" where
  "before_first sep [] = []"
| "before_first sep (c # cs) =
     (if take (length sep) (c # cs) = sep then [] else c # before_first sep cs)"

definition oldest_wal_file_num :: "obj_path list \<Rightarrow> nat option" where
  "oldest_wal_file_num paths =
     (case paths of [] \<Rightarrow> None | p # _ \<Rightarrow> parse_uint u64_max (before_first ''.wal'' (filename p)))"

text \<open>The listing is repeated from the last path seen until nothing new comes back.\<close>

partial_function (option) load_paths_loop ::
  "('s, 'b) object_store \<Rightarrow> obj_path \<Rightarrow> obj_path option \<Rightarrow> obj_path list \<Rightarrow> 's \<Rightarrow>
   ((store_error + obj_path list) \<times> 's) option" where
  "load_paths_loop st dir offset paths s =
     (let (r, s1) = (case offset of Some off \<Rightarrow> os_list_with_offset st dir off s | None \<Rightarrow> os_list st dir s) in
      case r of
        Inl e \<Rightarrow> Some (Inl e, s1)
      | Inr ps \<Rightarrow>
          if ps = [] then Some (Inr (sort paths), s1)
          else let sorted_paths = sort (paths @ ps)
               in load_paths_loop st dir (Some (last sorted_paths)) sorted_paths s1)"

definition load_all_wal_file_paths ::
  "('s, 'b) object_store \<Rightarrow> string \<Rightarrow> 's \<Rightarrow> ((store_error + obj_path list) \<times> 's) option" where
  "load_all_wal_file_paths st prefix s = load_paths_loop st (prefix @ ''/wal'') None [] s"

definition wal_new_without_replay ::
  "string \<Rightarrow> wal_config \<Rightarrow> nat option \<Rightarrow> nat option \<Rightarrow> obj_path list \<Rightarrow> nat \<Rightarrow> wal_object_store" where
  "wal_new_without_replay prefix config last_wal last_snapshot all_paths num_wal_files_to_keep =
     \<lparr>wos_node_identifier_prefix = prefix, wos_added_file_notifiers = 0,
      wos_flush_buffer = FlushBuffer_new
        (WalBuffer_new ((case last_wal of None \<Rightarrow> 0 | Some n \<Rightarrow> n) + 1) (wc_max_write_buffer_size config))
        (SnapshotTracker_new (wc_snapshot_size config) (wc_gen1_duration config) last_snapshot),
      wos_snapshotted_wal_files_to_keep = num_wal_files_to_keep,
      wos_wal_remover = \<lparr>wfr_oldest_wal_file = oldest_wal_file_num all_paths,
        wfr_last_snapshotted = last_wal\<rparr>,
      wos_shutdown_cancelled = False\<rparr>"

definition load_existing_wal_file_paths :: "string \<Rightarrow> nat option \<Rightarrow> obj_path list \<Rightarrow> obj_path list" where
  "load_existing_wal_file_paths prefix last_wal all_paths =
     filter (\<lambda>p. case last_wal of Some n \<Rightarrow> p > wal_path prefix n | None \<Rightarrow> True) all_paths"

section \<open>Deleting snapshotted files\<close>

text \<open>\<open>u64\<close> subtraction wraps in a release build.\<close>

definition sub_u64 :: "nat \<Rightarrow> nat \<Rightarrow> nat" where
  "sub_u64 a b = (if b \<le> a then a - b else a + 2 ^ 64 - b)"

text \<open>One file is deleted again and again while the store reports a generic error; not returning is
  \<open>None\<close>.\<close>

partial_function (option) delete_wal_file ::
  "('s, 'b) object_store \<Rightarrow> obj_path \<Rightarrow> 's \<Rightarrow> 's option" where
  "delete_wal_file st p s =
     (let (r, s1) = os_delete st p s in
      if r = Inl Generic then delete_wal_file st p s1 else Some s1)"

fun delete_wal_files :: "('s, 'b) object_store \<Rightarrow> string \<Rightarrow> nat list \<Rightarrow> 's \<Rightarrow> 's option" where
  "delete_wal_files st prefix [] s = Some s"
| "delete_wal_files st prefix (idx # idxs) s =
     (case delete_wal_file st (wal_path prefix idx) s of
        None \<Rightarrow> None
      | Some s1 \<Rightarrow> delete_wal_files st prefix idxs s1)"

definition remove_snapshot_wal_files ::
  "('s, 'b) object_store \<Rightarrow> snapshot_details \<Rightarrow> wal_object_store \<Rightarrow> 's \<Rightarrow> (wal_object_store \<times> 's) option" where
  "remove_snapshot_wal_files st sd w s =
     (let ((oldest, last_wal), rem1) =
            update_last_and_get_current_state (sd_last_wal_sequence_number sd) (wos_wal_remover w);
          curr_num_files = sub_u64 last_wal oldest;
          keep = wos_snapshotted_wal_files_to_keep w;
          release = (\<lambda>w. w\<lparr>wos_flush_buffer := (wos_flush_buffer w)\<lparr>fb_permit_free := True\<rparr>\<rparr>)
      in if curr_num_files > keep
         then let last_to_delete = oldest + (curr_num_files - keep)
              in case delete_wal_files st (wos_node_identifier_prefix w) [oldest..<last_to_delete] s of
                   None \<Rightarrow> None
                 | Some s1 \<Rightarrow> Some (release (w\<lparr>wos_wal_remover := update_oldest_wal_num last_to_delete rem1\<rparr>), s1)
         else Some (release (w\<lparr>wos_wal_remover := rem1\<rparr>), s))"

section \<open>Replay\<close>

datatype replay_error = ReplayStore store_error | ReplaySerialize serialize_error

definition get_contents ::
  "'s wal_env \<Rightarrow> obj_path \<Rightarrow> 's \<Rightarrow> (replay_error + wal_contents) \<times> 's" where
  "get_contents env p s =
     (case os_get (we_store env) p s of
        (Inl e, s1) \<Rightarrow> (Inl (ReplayStore e), s1)
      | (Inr x, s1) \<Rightarrow>
          (case verify_file_type_and_deserialize (we_bitcode env) (we_crc env) (so_body x) of
             Inl e \<Rightarrow> (Inl (ReplaySerialize e), s1)
           | Inr c \<Rightarrow> (Inr c, s1)))"

fun skippable :: "replay_error \<Rightarrow> bool" where
  "skippable (ReplaySerialize (WalFileTooSmall e a)) = True"
| "skippable (ReplaySerialize InvalidWalFile) = True"
| "skippable (ReplaySerialize Crc32Mismatch) = True"
| "skippable _ = False"

text \<open>One file: its period is tracked, the notifier is told, and the files of a snapshot it records
  are cleaned up.  \<open>last_snapshot\<close> is the number the tracker held when replay began.\<close>

definition replay_contents ::
  "'s wal_env \<Rightarrow> nat \<Rightarrow> wal_contents \<Rightarrow> wal_object_store \<Rightarrow> 's \<Rightarrow>
   (wal_event list \<times> wal_object_store \<times> 's) outcome" where
  "replay_contents env last_snapshot c w s =
     (case WalPeriod_new (wct_wal_file_number c) (wct_min_timestamp_ns c) (wct_max_timestamp_ns c) of
        None \<Rightarrow> Panics
      | Some p \<Rightarrow>
     (case replay_wal_period p (wos_flush_buffer w) of
        None \<Rightarrow> Panics
      | Some fb \<Rightarrow>
     (case wct_snapshot c of
        None \<Rightarrow> Done ([Notify c], w\<lparr>wos_flush_buffer := fb\<rparr>, s)
      | Some sd \<Rightarrow>
     (case tracker_snapshot (sd_forced sd) (fb_snapshot_tracker fb) of
        None \<Rightarrow> Panics
      | Some (info, tr) \<Rightarrow>
          (let ev = (if sd_snapshot_sequence_number sd \<le> last_snapshot then Notify c
                     else NotifyAndSnapshot c sd)
           in case info of
                None \<Rightarrow> Done ([ev], w\<lparr>wos_flush_buffer := fb\<lparr>fb_snapshot_tracker := tr\<rparr>\<rparr>, s)
              | Some sd' \<Rightarrow>
                  if fb_permit_free fb
                  then (case remove_snapshot_wal_files (we_store env) sd'
                          (w\<lparr>wos_flush_buffer := fb\<lparr>fb_snapshot_tracker := tr, fb_permit_free := False\<rparr>\<rparr>) s of
                          None \<Rightarrow> Waits
                        | Some (w', s') \<Rightarrow> Done ([ev], w', s'))
                  else Waits)))))"

fun replay_paths ::
  "'s wal_env \<Rightarrow> bool \<Rightarrow> nat \<Rightarrow> obj_path list \<Rightarrow> wal_object_store \<Rightarrow> 's \<Rightarrow>
   ((replay_error + wal_event list) \<times> wal_object_store \<times> 's) outcome" where
  "replay_paths env fail_on_error last_snapshot [] w s = Done (Inr [], w, s)"
| "replay_paths env fail_on_error last_snapshot (p # ps) w s =
     (case get_contents env p s of
        (Inl e, s1) \<Rightarrow>
          if skippable e \<and> \<not> fail_on_error then replay_paths env fail_on_error last_snapshot ps w s1
          else Done (Inl e, w, s1)
      | (Inr c, s1) \<Rightarrow>
          (case replay_contents env last_snapshot c w s1 of
             Waits \<Rightarrow> Waits
           | Panics \<Rightarrow> Panics
           | Done (evs, w1, s2) \<Rightarrow>
               (case replay_paths env fail_on_error last_snapshot ps w1 s2 of
                  Waits \<Rightarrow> Waits
                | Panics \<Rightarrow> Panics
                | Done (Inl e, w2, s3) \<Rightarrow> Done (Inl e, w2, s3)
                | Done (Inr evs', w2, s3) \<Rightarrow> Done (Inr (evs @ evs'), w2, s3))))"

definition wal_replay ::
  "'s wal_env \<Rightarrow> bool \<Rightarrow> nat option \<Rightarrow> obj_path list \<Rightarrow> wal_object_store \<Rightarrow> 's \<Rightarrow>
   ((replay_error + wal_event list) \<times> wal_object_store \<times> 's) outcome" where
  "wal_replay env fail_on_error last_wal all_paths w s =
     replay_paths env fail_on_error
       (st_last_snapshot_sequence_number (fb_snapshot_tracker (wos_flush_buffer w)))
       (load_existing_wal_file_paths (wos_node_identifier_prefix w) last_wal all_paths) w s"

section \<open>Flushing\<close>

text \<open>The outcome of the loop that puts the file: at most 101 attempts, all with the same nonce.\<close>

datatype put_outcome = Written | AlreadyThere | GaveUp store_error

definition WAL_PUT_ATTEMPTS :: nat where
  "WAL_PUT_ATTEMPTS = 101"

fun put_wal_file ::
  "('s, 'b) object_store \<Rightarrow> nat \<Rightarrow> obj_path \<Rightarrow> 'b \<Rightarrow> string \<Rightarrow> 's \<Rightarrow> put_outcome \<times> 's" where
  "put_wal_file st 0 p data nonce s = (GaveUp OtherError, s)"
| "put_wal_file st (Suc k) p data nonce s =
     (case os_put_opts st p data
             (SelfVerifyingCreate_put_options (SelfVerifyingCreate_with_nonce nonce)) s of
        (Inr u, s1) \<Rightarrow> (Written, s1)
      | (Inl e, s1) \<Rightarrow>
          if e = AlreadyExists then (AlreadyThere, s1)
          else if k = 0 then (GaveUp e, s1) else put_wal_file st k p data nonce s1)"

text \<open>Phase one, under the lock: \<open>None\<close> when there is nothing to flush.\<close>

definition flush_begin ::
  "bool \<Rightarrow> time_ns \<Rightarrow> int \<Rightarrow> wal_object_store \<Rightarrow>
   ((wal_contents \<times> client list \<times> snapshot_details option \<times> wal_object_store) option) outcome" where
  "flush_begin force now now_ms w =
     (if wal_buffer_is_empty (fb_wal_buffer (wos_flush_buffer w)) \<and> \<not> force then Done None
      else case flush_buffer_into_contents_and_responses force now now_ms (wos_flush_buffer w) of
             Waits \<Rightarrow> Waits
           | Panics \<Rightarrow> Panics
           | Done (c, rs, sd, fb) \<Rightarrow> Done (Some (c, rs, sd, w\<lparr>wos_flush_buffer := fb\<rparr>)))"

definition wal_already_written_text :: string where
  "wal_already_written_text = ''another process has written to the WAL ahead of this one''"

text \<open>Phase three, given how the put ended.  On either failure the permit of a pending snapshot is
  dropped with the flush.\<close>

definition flush_finish ::
  "(store_error \<Rightarrow> string) \<Rightarrow> int \<Rightarrow> put_outcome \<Rightarrow> wal_contents \<Rightarrow> client list \<Rightarrow> snapshot_details option \<Rightarrow>
   wal_object_store \<Rightarrow> snapshot_details option \<times> wal_event list \<times> wal_object_store" where
  "flush_finish error_text now_ms out c rs sd w =
     (let drop_permit = (\<lambda>fb. if sd = None then fb else fb\<lparr>fb_permit_free := True\<rparr>);
          fb = wos_flush_buffer w
      in case out of
           AlreadyThere \<Rightarrow>
             (None,
              map (\<lambda>cl. Respond cl (Error wal_already_written_text)) rs @ [CancelProcess],
              w\<lparr>wos_flush_buffer := drop_permit (fb\<lparr>fb_wal_buffer :=
                  set_state WalAlreadyWrittenTo (fb_wal_buffer fb)\<rparr>),
                wos_shutdown_cancelled := True\<rparr>)
         | GaveUp e \<Rightarrow>
             (let (answers, fb') = flush_buffer_with_failure (Error (error_text e)) now_ms fb
              in (None,
                  map (\<lambda>cl. Respond cl (Error (error_text e))) rs @
                    map (\<lambda>(cl, r). Respond cl r) answers,
                  w\<lparr>wos_flush_buffer := drop_permit fb'\<rparr>))
         | Written \<Rightarrow>
             (sd,
              (case wct_snapshot c of Some d \<Rightarrow> NotifyAndSnapshot c d | None \<Rightarrow> Notify c) #
                map (\<lambda>k. NotifyAdded k c) [0..<wos_added_file_notifiers w] @
                map (\<lambda>cl. Respond cl Success) rs,
              w))"

definition flush_buffer_wal ::
  "'s wal_env \<Rightarrow> bool \<Rightarrow> time_ns \<Rightarrow> int \<Rightarrow> string \<Rightarrow> wal_object_store \<Rightarrow> 's \<Rightarrow>
   (snapshot_details option \<times> wal_event list \<times> wal_object_store \<times> 's) outcome" where
  "flush_buffer_wal env force now now_ms nonce w s =
     (case flush_begin force now now_ms w of
        Waits \<Rightarrow> Waits
      | Panics \<Rightarrow> Panics
      | Done None \<Rightarrow> Done (None, [], w, s)
      | Done (Some (c, rs, sd, w1)) \<Rightarrow>
          (case serialize_to_file_bytes (we_bitcode env) (we_crc env) c of
             Inl e \<Rightarrow> Panics
           | Inr data \<Rightarrow>
               (let (out, s1) = put_wal_file (we_store env) WAL_PUT_ATTEMPTS
                      (wal_path (wos_node_identifier_prefix w) (wct_wal_file_number c)) data nonce s;
                    (r, evs, w2) = flush_finish (we_error_text env) now_ms out c rs sd w1
                in Done (r, evs, w2, s1))))"

text \<open>Opening the log: list, construct, replay.\<close>

definition wal_new ::
  "'s wal_env \<Rightarrow> string \<Rightarrow> wal_config \<Rightarrow> nat option \<Rightarrow> nat option \<Rightarrow> nat \<Rightarrow> 's \<Rightarrow>
   ((replay_error + wal_event list) \<times> wal_object_store \<times> 's) outcome" where
  "wal_new env prefix config last_wal last_snapshot keep s =
     (case load_all_wal_file_paths (we_store env) prefix s of
        None \<Rightarrow> Waits
      | Some (Inl e, s1) \<Rightarrow>
          Done (Inl (ReplayStore e), wal_new_without_replay prefix config last_wal last_snapshot [] keep, s1)
      | Some (Inr paths, s1) \<Rightarrow>
          wal_replay env (wc_wal_replay_fail_on_error config) last_wal paths
            (wal_new_without_replay prefix config last_wal last_snapshot paths keep) s1)"

section \<open>The other operations of the log\<close>

definition wal_last_wal_sequence_number :: "wal_object_store \<Rightarrow> nat" where
  "wal_last_wal_sequence_number w = st_last_wal_sequence_number (fb_snapshot_tracker (wos_flush_buffer w))"

definition wal_last_persisted_wal_sequence_number :: "wal_object_store \<Rightarrow> nat" where
  "wal_last_persisted_wal_sequence_number w =
     (case wfr_last_snapshotted (wos_wal_remover w) of None \<Rightarrow> 0 | Some n \<Rightarrow> n)"

definition wal_last_snapshot_sequence_number :: "wal_object_store \<Rightarrow> nat" where
  "wal_last_snapshot_sequence_number w =
     st_last_snapshot_sequence_number (fb_snapshot_tracker (wos_flush_buffer w))"

definition wal_reserve_snapshot_sequence_number :: "wal_object_store \<Rightarrow> nat \<times> wal_object_store" where
  "wal_reserve_snapshot_sequence_number w =
     (let (n, tr) = reserve_snapshot_sequence_number (fb_snapshot_tracker (wos_flush_buffer w))
      in (n, w\<lparr>wos_flush_buffer := (wos_flush_buffer w)\<lparr>fb_snapshot_tracker := tr\<rparr>\<rparr>))"

definition wal_add_file_notifier :: "wal_object_store \<Rightarrow> wal_object_store" where
  "wal_add_file_notifier w = w\<lparr>wos_added_file_notifiers := wos_added_file_notifiers w + 1\<rparr>"

definition upd_wal_buffer :: "(wal_buffer \<Rightarrow> wal_buffer) \<Rightarrow> wal_object_store \<Rightarrow> wal_object_store" where
  "upd_wal_buffer f w =
     w\<lparr>wos_flush_buffer := (wos_flush_buffer w)\<lparr>fb_wal_buffer := f (fb_wal_buffer (wos_flush_buffer w))\<rparr>\<rparr>"

definition wal_write_ops_unconfirmed :: "wal_op list \<Rightarrow> wal_object_store \<Rightarrow> (wal_error + unit) \<times> wal_object_store" where
  "wal_write_ops_unconfirmed ops w =
     (let (r, b) = write_ops_unconfirmed ops (fb_wal_buffer (wos_flush_buffer w)) in (r, upd_wal_buffer (\<lambda>_. b) w))"

text \<open>The part of \<open>write_ops\<close> before it waits for the response of the client's channel.\<close>

definition wal_write_ops :: "wal_op list \<Rightarrow> client \<Rightarrow> wal_object_store \<Rightarrow> (wal_error + unit) \<times> wal_object_store" where
  "wal_write_ops ops c w =
     (let (r, b) = buffer_ops_with_response ops c (fb_wal_buffer (wos_flush_buffer w)) in (r, upd_wal_buffer (\<lambda>_. b) w))"

text \<open>Shutdown refuses further writes, flushes what is buffered and cleans up the snapshot of that flush.\<close>

definition wal_shutdown ::
  "'s wal_env \<Rightarrow> time_ns \<Rightarrow> int \<Rightarrow> string \<Rightarrow> wal_object_store \<Rightarrow> 's \<Rightarrow>
   (wal_event list \<times> wal_object_store \<times> 's) outcome" where
  "wal_shutdown env now now_ms nonce w s =
     (case flush_buffer_wal env False now now_ms nonce (upd_wal_buffer (set_state ShuttingDown) w) s of
        Waits \<Rightarrow> Waits
      | Panics \<Rightarrow> Panics
      | Done (None, evs, w1, s1) \<Rightarrow> Done (evs, w1, s1)
      | Done (Some sd, evs, w1, s1) \<Rightarrow>
          (case remove_snapshot_wal_files (we_store env) sd w1 s1 of
             None \<Rightarrow> Waits
           | Some (w2, s2) \<Rightarrow> Done (evs, w2, s2)))"

section \<open>The put of a WAL file\<close>

text \<open>Only the writer's own object carries the writer's nonce.\<close>

definition nonce_owned :: "string \<Rightarrow> obj_path \<Rightarrow> 'b \<Rightarrow> (obj_path \<rightharpoonup> 'b stored_object) \<Rightarrow> bool" where
  "nonce_owned n p b c \<longleftrightarrow>
     (\<forall>q x. c q = Some x \<and> nonce_check (so_attrs x) n = Ours \<longrightarrow> q = p \<and> so_body x = b)"

text \<open>What putting the file may have done to the store: nothing, or written the body where nothing was.\<close>

definition put_effect :: "obj_path \<Rightarrow> 'b \<Rightarrow> (obj_path \<rightharpoonup> 'b stored_object) \<Rightarrow> (obj_path \<rightharpoonup> 'b stored_object) \<Rightarrow> bool" where
  "put_effect p b c c' \<longleftrightarrow>
     c' = c \<or> (c p = None \<and> (\<exists>a. c' = c(p \<mapsto> \<lparr>so_body = b, so_attrs = a\<rparr>)))"

lemma nonce_fresh_owned: "nonce_fresh c n \<Longrightarrow> nonce_owned n p b c"
  by (auto simp: nonce_fresh_def nonce_owned_def)

lemma created_put_effect: "created p b opts c c' \<Longrightarrow> put_effect p b c c'"
  by (auto simp: created_def put_effect_def)

lemma put_effect_refl [simp]: "put_effect p b c c"
  by (simp add: put_effect_def)

lemma put_effect_trans: "put_effect p b c c' \<Longrightarrow> put_effect p b c' c'' \<Longrightarrow> put_effect p b c c''"
  by (auto simp: put_effect_def)

lemma put_effect_owned: "put_effect p b c c' \<Longrightarrow> nonce_owned n p b c \<Longrightarrow> nonce_owned n p b c'"
  by (auto simp: put_effect_def nonce_owned_def split: if_splits)

lemma put_effect_other: "put_effect p b c c' \<Longrightarrow> q \<noteq> p \<Longrightarrow> c' q = c q"
  by (auto simp: put_effect_def)

context object_store_laws
begin

text \<open>One attempt with the writer's nonce, whether or not an earlier attempt has landed.\<close>

lemma owned_put_attempt:
  assumes put: "self_verifying_put_opts st g p b
      (SelfVerifyingCreate_put_options (SelfVerifyingCreate_with_nonce n)) s = (r, s')"
    and own: "nonce_owned n p b (contents s)"
  shows "put_effect p b (contents s) (contents s') \<and>
    (r = Inr () \<longrightarrow> (\<exists>x. contents s' p = Some x \<and> so_body x = b))"
proof -
  define opts where "opts = \<lparr>po_mode = Create,
    po_attributes = hm_insert PUT_NONCE_METADATA_KEY n [], po_marker = None\<rparr>"
  obtain r1 s1 where inner: "os_put_opts st p b opts s = (r1, s1)" by fastforce
  have mode: "po_mode opts = Create" "marker_usable (contents s) opts" "po_marker opts \<noteq> Some None"
    by (simp_all add: opts_def marker_usable_def)
  have run: "(case r1 of Inl e \<Rightarrow> if is_conflict e then verify st p n s1 else (Inl e, s1) | Inr x \<Rightarrow> (Inr x, s1)) = (r, s')"
    using put inner by (simp add: self_verifying_put_opts_def SelfVerifyingCreate_put_options_def
        SelfVerifyingCreate_with_nonce_def into_nonce_def Let_def opts_def split: sum.splits)
  show ?thesis
  proof (cases r1)
    case (Inr u)
    then have "created p b opts (contents s) (contents s')" using create_ok inner mode run by fastforce
    from this created_put_effect [OF this] show ?thesis by (auto simp: created_def)
  next
    case (Inl e)
    have eff: "put_effect p b (contents s) (contents s1)"
      using create_failed [OF inner [unfolded Inl] mode(1,3)] created_put_effect by auto
    show ?thesis
    proof (cases "is_conflict e")
      case True
      then have ver: "verify st p n s1 = (r, s')" using run Inl by simp
      then have "contents s' = contents s1" by (rule verify_frame)
      moreover have "\<exists>x. contents s1 p = Some x \<and> so_body x = b" if "r = Inr ()"
        using verify_ok [of p n s1 "()"] ver that put_effect_owned [OF eff own]
        by (auto simp: nonce_owned_def)
      ultimately show ?thesis using eff by simp
    next
      case False
      then show ?thesis using run Inl eff by auto
    qed
  qed
qed

lemma put_wal_file_effect:
  assumes "put_wal_file (SelfVerifyingCreateStore g st) k p b n s = (out, s')"
    and "nonce_owned n p b (contents s)"
  shows "put_effect p b (contents s) (contents s') \<and>
    (out = Written \<longrightarrow> (\<exists>x. contents s' p = Some x \<and> so_body x = b))"
  using assms
proof (induction k arbitrary: s)
  case (Suc k)
  obtain r s1 where put: "self_verifying_put_opts st g p b
      (SelfVerifyingCreate_put_options (SelfVerifyingCreate_with_nonce n)) s = (r, s1)" by fastforce
  note one = owned_put_attempt [OF put Suc.prems(2)]
  show ?case
  proof (cases "\<exists>e. r = Inl e \<and> e \<noteq> AlreadyExists \<and> k \<noteq> 0")
    case True
    then have again: "put_wal_file (SelfVerifyingCreateStore g st) k p b n s1 = (out, s')"
      using Suc.prems(1) put by auto
    note eff = conjunct1 [OF one]
    from Suc.IH [OF again put_effect_owned [OF eff Suc.prems(2)]] show ?thesis
      using put_effect_trans [OF eff] by simp
  next
    case False
    then have "s' = s1" "out = Written \<longrightarrow> r = Inr ()"
      using Suc.prems(1) put by (auto split: sum.splits if_splits)
    with one show ?thesis by simp
  qed
qed auto

section \<open>Deletions\<close>

lemma delete_effect:
  "os_delete st p s = (r, s') \<Longrightarrow> contents s' q = contents s q \<or> q = p \<and> contents s' q = None"
  using delete_ok [of p s "()" s'] delete_failed [of p s _ s'] by (cases r) (auto split: if_splits)

lemma delete_wal_file_effect:
  assumes "delete_wal_file st p s = Some s'"
  shows "contents s' q = contents s q \<or> q = p \<and> contents s' q = None"
proof -
  let ?P = "\<lambda>st' p s s'. st' = st \<longrightarrow> contents s' q = contents s q \<or> q = p \<and> contents s' q = None"
  have "?P st p s s'"
  proof (rule delete_wal_file.raw_induct [where P = ?P, OF _ assms])
    fix again st' p s s'
    assume again: "\<And>st' p s s'. again st' p s = Some s' \<Longrightarrow> ?P st' p s s'"
      and body: "(let (r, s1) = os_delete st' p s in if r = Inl Generic then again st' p s1 else Some s1) = Some s'"
    obtain r s1 where del: "os_delete st' p s = (r, s1)" by fastforce
    show "?P st' p s s'"
      using again [of st' p s1 s'] body del delete_effect [of p s r s1 q]
      by (auto split: if_splits)
  qed
  then show ?thesis by simp
qed

lemma delete_wal_files_effect:
  "delete_wal_files st pre idxs s = Some s' \<Longrightarrow>
     contents s' q = contents s q \<or> (\<exists>k \<in> set idxs. q = wal_path pre k) \<and> contents s' q = None"
proof (induction idxs arbitrary: s)
  case (Cons k ks)
  then obtain s1 where "delete_wal_file st (wal_path pre k) s = Some s1" "delete_wal_files st pre ks s1 = Some s'"
    by (auto split: option.splits)
  with Cons.IH [of s1] delete_wal_file_effect [of "wal_path pre k" s s1 q] show ?case by auto
qed simp

text \<open>The files a cleanup may delete lie below the last snapshotted one by more than the number kept.\<close>

lemma remove_effect:
  assumes "remove_snapshot_wal_files st sd w s = Some (w', s')"
    and "fst (get_current_state (wos_wal_remover w)) \<le> sd_last_wal_sequence_number sd"
  shows "(contents s' q = contents s q \<or> contents s' q = None \<and>
      (\<exists>k. q = wal_path (wos_node_identifier_prefix w) k \<and> fst (get_current_state (wos_wal_remover w)) \<le> k \<and>
         k + wos_snapshotted_wal_files_to_keep w < sd_last_wal_sequence_number sd)) \<and>
    fst (get_current_state (wos_wal_remover w')) \<le> sd_last_wal_sequence_number sd \<and>
    snd (get_current_state (wos_wal_remover w')) = sd_last_wal_sequence_number sd \<and>
    fb_permit_free (wos_flush_buffer w')"
proof -
  define oldest where "oldest = fst (get_current_state (wos_wal_remover w))"
  define n where "n = sd_last_wal_sequence_number sd"
  define keep where "keep = wos_snapshotted_wal_files_to_keep w"
  have le: "oldest \<le> n" using assms(2) by (simp add: oldest_def n_def)
  have state: "get_current_state (update_last_wal_num n (wos_wal_remover w)) = (oldest, n)"
    by (simp add: get_current_state_def update_last_wal_num_def oldest_def)
  show ?thesis
  proof (cases "n - oldest > keep")
    case True
    then have last: "oldest + (n - oldest - keep) = n - keep" by simp
    with assms(1) True le state obtain s1 where
      del: "delete_wal_files st (wos_node_identifier_prefix w) [oldest..<n - keep] s = Some s1"
      and w': "s' = s1" "wos_wal_remover w' = update_oldest_wal_num (n - keep) (update_last_wal_num n (wos_wal_remover w))"
        "fb_permit_free (wos_flush_buffer w')"
      by (auto simp: remove_snapshot_wal_files_def update_last_and_get_current_state_def Let_def
          sub_u64_def n_def [symmetric] keep_def [symmetric] split: option.splits)
    from delete_wal_files_effect [OF del, of q] w' True show ?thesis
      unfolding oldest_def [symmetric] n_def [symmetric] keep_def [symmetric]
      by (auto simp: get_current_state_def update_oldest_wal_num_def update_last_wal_num_def less_diff_conv)
  next
    case False
    with assms(1) le state have "s' = s" "wos_wal_remover w' = update_last_wal_num n (wos_wal_remover w)"
        "fb_permit_free (wos_flush_buffer w')"
      by (auto simp: remove_snapshot_wal_files_def update_last_and_get_current_state_def Let_def
          sub_u64_def n_def [symmetric] keep_def [symmetric])
    with le state show ?thesis
      unfolding oldest_def [symmetric] n_def [symmetric] by simp
  qed
qed

end

section \<open>Names of WAL files\<close>

lemma wal_path_less_iff:
  assumes "m < 10 ^ 11" "n < 10 ^ 11"
  shows "wal_path pre m < wal_path pre n \<longleftrightarrow> m < n"
proof -
  have less: "wal_path pre a < wal_path pre b" if "a < b" "b < 10 ^ 11" for a b
  proof -
    have "fixed_digits 11 a < fixed_digits 11 b" using fixed_digits_less that .
    moreover have "a < 10 ^ 11" using that by linarith
    ultimately show ?thesis using that(2)
      by (simp add: wal_path_def pad0_fixed append_less_cancel append_less_same_length)
  qed
  show ?thesis using less [of m n] less [of n m] assms by (cases m n rule: linorder_cases) auto
qed

lemma wal_path_inj: "m < 10 ^ 11 \<Longrightarrow> n < 10 ^ 11 \<Longrightarrow> wal_path pre m = wal_path pre n \<longleftrightarrow> m = n"
  using wal_path_less_iff by (metis linorder_neqE_nat order_less_irrefl)

lemma before_first_digits: "\<forall>c \<in> set ds. is_digit c \<Longrightarrow> before_first ''.wal'' (ds @ ''.wal'') = ds"
  by (induction ds) (auto simp: is_digit_def)

lemma oldest_of_wal_paths:
  assumes "m < 10 ^ 11"
  shows "oldest_wal_file_num (wal_path pre m # ps) = Some m"
proof -
  have "wal_path pre m = (pre @ ''/wal'') @ CHR ''/'' # (fixed_digits 11 m @ ''.wal'')"
    using assms by (simp add: wal_path_def pad0_fixed)
  then have "filename (wal_path pre m) = fixed_digits 11 m @ ''.wal''"
    by (rule filename_in_dir) (simp add: fixed_digits_no_slash)
  moreover have "before_first ''.wal'' (fixed_digits 11 m @ ''.wal'') = fixed_digits 11 m"
    using fixed_digits_all_digits by (intro before_first_digits) blast
  moreover have "parse_uint u64_max (fixed_digits 11 m) = Some m"
    using assms by (intro parse_fixed) (simp_all add: u64_max_def)
  ultimately show ?thesis by (simp add: oldest_wal_file_num_def)
qed

section \<open>Listing\<close>

lemma sorted_last_max: "sorted xs \<Longrightarrow> x \<in> set xs \<Longrightarrow> x \<le> last (xs :: 'a::linorder list)"
  by (induction xs) auto

text \<open>The store answers its listings.\<close>

definition lists_answered :: "('s, 'b) object_store \<Rightarrow> bool" where
  "lists_answered st \<longleftrightarrow>
     (\<forall>pre s. \<exists>ps s'. os_list st pre s = (Inr ps, s')) \<and>
     (\<forall>pre off s. \<exists>ps s'. os_list_with_offset st pre off s = (Inr ps, s'))"

context object_store_reads
begin

lemma load_all_paths:
  assumes "lists_answered st"
  shows "\<exists>ps s'. load_all_wal_file_paths st pre s = Some (Inr ps, s') \<and> sorted ps \<and> distinct ps \<and>
    set ps = {p. contents s p \<noteq> None \<and> under (pre @ ''/wal'') p} \<and> contents s' = contents s"
proof -
  let ?dir = "pre @ ''/wal''"
  obtain ps s1 where list: "os_list st ?dir s = (Inr ps, s1)"
    using assms unfolding lists_answered_def by blast
  note ps = list_ok [OF list] and s1 = list_frame [OF list]
  show ?thesis
  proof (cases "ps = []")
    case True
    with list ps s1 show ?thesis
      by (simp add: load_all_wal_file_paths_def load_paths_loop.simps)
  next
    case False
    define off where "off = last (sort ps)"
    obtain qs s2 where list2: "os_list_with_offset st ?dir off s1 = (Inr qs, s2)"
      using assms unfolding lists_answered_def by blast
    have below: "p \<le> off" if "p \<in> set ps" for p
      using sorted_last_max [of "sort ps" p] that by (simp add: off_def)
    have "p \<in> set ps \<and> off < p" if "p \<in> set qs" for p
      using list_offset_ok [OF list2] ps s1 that by simp
    with below have "set qs = {}" by (metis equals0I leD)
    then have "qs = []" by simp
    with list list2 False have "load_all_wal_file_paths st pre s = Some (Inr (sort ps), s2)"
      by (simp add: load_all_wal_file_paths_def load_paths_loop.simps [of st ?dir None]
          load_paths_loop.simps [of st ?dir "Some _"] off_def sorted_sort_id)
    with ps s1 list_offset_frame [OF list2] show ?thesis by simp
  qed
qed

end

section \<open>Replay follows the files\<close>

definition wal_file_at ::
  "'s wal_env \<Rightarrow> (obj_path \<rightharpoonup> byte list stored_object) \<Rightarrow> string \<Rightarrow> nat \<Rightarrow> wal_contents \<Rightarrow> bool" where
  "wal_file_at env c pre n fc \<longleftrightarrow>
     (\<exists>x. c (wal_path pre n) = Some x \<and>
        verify_file_type_and_deserialize (we_bitcode env) (we_crc env) (so_body x) = Inr fc \<and>
        wct_wal_file_number fc = n)"

text \<open>What a stored file holds, and a stored file that the checks of replay reject.\<close>

definition wal_file_contents ::
  "'s wal_env \<Rightarrow> (obj_path \<rightharpoonup> byte list stored_object) \<Rightarrow> string \<Rightarrow> nat \<Rightarrow> wal_contents option" where
  "wal_file_contents env c pre n =
     (case c (wal_path pre n) of
        None \<Rightarrow> None
      | Some x \<Rightarrow>
          (case verify_file_type_and_deserialize (we_bitcode env) (we_crc env) (so_body x) of Inl e \<Rightarrow> None | Inr fc \<Rightarrow> Some fc))"

definition wal_file_corrupt ::
  "'s wal_env \<Rightarrow> (obj_path \<rightharpoonup> byte list stored_object) \<Rightarrow> string \<Rightarrow> nat \<Rightarrow> bool" where
  "wal_file_corrupt env c pre n \<longleftrightarrow>
     (case c (wal_path pre n) of
        None \<Rightarrow> False
      | Some x \<Rightarrow>
          (case verify_file_type_and_deserialize (we_bitcode env) (we_crc env) (so_body x) of
             Inl e \<Rightarrow> skippable (ReplaySerialize e) | Inr fc \<Rightarrow> False))"

fun event_contents :: "wal_event \<Rightarrow> wal_contents option" where
  "event_contents (Notify c) = Some c"
| "event_contents (NotifyAndSnapshot c sd) = Some c"
| "event_contents (NotifyAdded k c) = None"
| "event_contents (Respond cl r) = None"
| "event_contents CancelProcess = None"

text \<open>The state between two files of a replay: the next file has number at least \<open>n\<close>.\<close>

definition replay_inv :: "nat \<Rightarrow> wal_object_store \<Rightarrow> bool" where
  "replay_inv n w \<longleftrightarrow>
     (let tr = fb_snapshot_tracker (wos_flush_buffer w); oldest = fst (get_current_state (wos_wal_remover w))
      in wf_tracker tr \<and> st_gen1_duration tr > 0 \<and> oldest \<le> n \<and>
         (\<forall>p \<in> set (st_wal_periods tr). oldest \<le> wp_wal_file_number p \<and> wp_wal_file_number p < n))"

lemma replay_inv_later: "replay_inv n w \<Longrightarrow> n \<le> m \<Longrightarrow> replay_inv m w"
  by (auto simp: replay_inv_def Let_def)

lemma replay_wal_period_run:
  assumes "replay_wal_period p fb = Some fb'"
  shows "add_wal_period p (fb_snapshot_tracker fb) = Some (fb_snapshot_tracker fb')"
    "st_wal_periods (fb_snapshot_tracker fb') = st_wal_periods (fb_snapshot_tracker fb) @ [p]"
    "st_gen1_duration (fb_snapshot_tracker fb') = st_gen1_duration (fb_snapshot_tracker fb)"
    "wbf_database_to_write_batch (fb_wal_buffer fb') = wbf_database_to_write_batch (fb_wal_buffer fb)"
  using assms by (auto simp: replay_wal_period_def add_wal_period_def split: option.splits if_splits)

lemma WalPeriod_new_number: "WalPeriod_new n a b = Some p \<Longrightarrow> wp_wal_file_number p = n"
  by (auto simp: WalPeriod_new_def split: if_splits)

lemma replay_inv_period:
  assumes "replay_inv n w" and "replay_wal_period p (wos_flush_buffer w) = Some fb"
    and "wp_wal_file_number p = n"
  shows "replay_inv (n + 1) (w\<lparr>wos_flush_buffer := fb\<rparr>)"
  using assms wf_add_wal_period replay_wal_period_run [OF assms(2)]
  by (auto simp: replay_inv_def Let_def less_Suc_eq)

text \<open>The log over a store that keeps its laws, with an encoding that decodes what it encodes.\<close>

locale wal_log = object_store_laws st contents
  for st :: "('s, byte list) object_store" and contents +
  fixes env :: "'s wal_env"
  assumes env_store: "we_store env = st"
    and env_bitcode: "bitcode_ok (we_bitcode env)"
begin

text \<open>A snapshot taken while replaying file \<open>n\<close> deletes only files below \<open>n\<close>.\<close>

lemma replay_snapshot_step:
  assumes inv: "replay_inv (n + 1) w" and tr: "tr = fb_snapshot_tracker (wos_flush_buffer w)"
    and snap: "tracker_snapshot force tr = Some (Some sd, tr')"
    and rem: "remove_snapshot_wal_files st sd
      (w\<lparr>wos_flush_buffer := (wos_flush_buffer w)\<lparr>fb_snapshot_tracker := tr', fb_permit_free := False\<rparr>\<rparr>) s = Some (w', s')"
  shows "replay_inv (n + 1) w' \<and>
    (\<forall>q. contents s' q = contents s q \<or> (\<exists>k < n. q = wal_path (wos_node_identifier_prefix w) k))"
proof -
  let ?w = "w\<lparr>wos_flush_buffer := (wos_flush_buffer w)\<lparr>fb_snapshot_tracker := tr', fb_permit_free := False\<rparr>\<rparr>"
  have wf: "wf_tracker tr" "st_gen1_duration tr > 0"
    and low: "fst (get_current_state (wos_wal_remover w)) \<le> n + 1"
    and ps: "\<And>p. p \<in> set (st_wal_periods tr) \<Longrightarrow>
        fst (get_current_state (wos_wal_remover w)) \<le> wp_wal_file_number p \<and> wp_wal_file_number p < n + 1"
    using inv by (auto simp: replay_inv_def tr Let_def)
  from tracker_snapshot_covers [OF wf snap] obtain taken where cov: "snapshot_covers tr sd tr' taken" by blast
  then have "last taken \<in> set (st_wal_periods tr)" and last: "sd_last_wal_sequence_number sd = wp_wal_file_number (last taken)"
    by (auto simp: snapshot_covers_def)
  from ps [OF this(1)] last have b: "fst (get_current_state (wos_wal_remover ?w)) \<le> sd_last_wal_sequence_number sd"
    "sd_last_wal_sequence_number sd \<le> n" by auto
  note eff = remove_effect [OF rem b(1)]
  have fields: "fb_snapshot_tracker (wos_flush_buffer w') = tr'"
    using rem by (auto simp: remove_snapshot_wal_files_def Let_def split: prod.splits if_splits option.splits)
  have "wf_tracker tr'" "st_gen1_duration tr' > 0"
    using wf_tracker_snapshot [OF wf snap] tracker_snapshot_fields(1) [OF snap] wf by auto
  moreover have "sd_last_wal_sequence_number sd < wp_wal_file_number p \<and> wp_wal_file_number p < n + 1"
    if "p \<in> set (st_wal_periods tr')" for p
    using cov that ps [of p] by (auto simp: snapshot_covers_def)
  ultimately have "replay_inv (n + 1) w'"
    using eff b(2) unfolding replay_inv_def Let_def fields by fastforce
  moreover have "contents s' q = contents s q \<or> (\<exists>k < n. q = wal_path (wos_node_identifier_prefix w) k)" for q
  proof -
    from remove_effect [OF rem b(1), of q] have "contents s' q = contents s q \<or>
        (\<exists>k. q = wal_path (wos_node_identifier_prefix w) k \<and> k < sd_last_wal_sequence_number sd)" by auto
    with b(2) show ?thesis by (auto intro: less_le_trans)
  qed
  ultimately show ?thesis by blast
qed

lemma replay_contents_step:
  assumes inv: "replay_inv n w" and n: "wct_wal_file_number c = n"
    and run: "replay_contents env ls c w s = Done (evs, w', s')"
  shows "map event_contents evs = [Some c] \<and> replay_inv (n + 1) w' \<and>
    wos_node_identifier_prefix w' = wos_node_identifier_prefix w \<and>
    (\<forall>q. contents s' q = contents s q \<or> (\<exists>k < n. q = wal_path (wos_node_identifier_prefix w) k))"
proof -
  from run obtain p fb where p: "WalPeriod_new (wct_wal_file_number c) (wct_min_timestamp_ns c) (wct_max_timestamp_ns c) = Some p"
    and fb: "replay_wal_period p (wos_flush_buffer w) = Some fb"
    by (auto simp: replay_contents_def split: option.splits)
  have inv1: "replay_inv (n + 1) (w\<lparr>wos_flush_buffer := fb\<rparr>)"
    using replay_inv_period [OF inv fb] WalPeriod_new_number [OF p] n by simp
  show ?thesis
  proof (cases "wct_snapshot c")
    case None
    with run p fb inv1 show ?thesis by (auto simp: replay_contents_def)
  next
    case (Some sd)
    with run p fb obtain info tr where snap: "tracker_snapshot (sd_forced sd) (fb_snapshot_tracker fb) = Some (info, tr)"
      by (auto simp: replay_contents_def split: option.splits)
    show ?thesis
    proof (cases info)
      case None
      then have "tr = fb_snapshot_tracker fb" using tracker_snapshot_fields(4) [OF snap] by simp
      with run p fb Some snap None inv1 show ?thesis
        by (auto simp: replay_contents_def Let_def split: if_splits)
    next
      case (Some sd')
      let ?w = "w\<lparr>wos_flush_buffer := fb\<rparr>"
      have rem: "remove_snapshot_wal_files st sd'
          (?w\<lparr>wos_flush_buffer := (wos_flush_buffer ?w)\<lparr>fb_snapshot_tracker := tr, fb_permit_free := False\<rparr>\<rparr>) s = Some (w', s')"
        and evs: "map event_contents evs = [Some c]"
        using run p fb \<open>wct_snapshot c = Some sd\<close> snap Some env_store
        by (auto simp: replay_contents_def Let_def split: if_splits option.splits)
      have "wos_node_identifier_prefix w' = wos_node_identifier_prefix w"
        using rem by (auto simp: remove_snapshot_wal_files_def Let_def split: prod.splits if_splits option.splits)
      with replay_snapshot_step [OF inv1 _ snap [unfolded Some] rem] evs show ?thesis by simp
    qed
  qed
qed

lemma get_contents_file:
  assumes "get_contents env (wal_path pre n) s = (r, s')"
  shows "contents s' = contents s" and "r = Inr fc \<Longrightarrow> wal_file_contents env (contents s) pre n = Some fc"
    and "r = Inl e \<Longrightarrow> skippable e \<Longrightarrow> wal_file_corrupt env (contents s) pre n \<and> wal_file_contents env (contents s) pre n = None"
proof -
  obtain r0 where get: "os_get st (wal_path pre n) s = (r0, s')"
    using assms env_store by (auto simp: get_contents_def split: prod.splits sum.splits)
  show "contents s' = contents s" using get_frame [OF get] .
  show "wal_file_contents env (contents s) pre n = Some fc" if "r = Inr fc"
    using assms that env_store get get_ok [of "wal_path pre n" s]
    by (auto simp: get_contents_def wal_file_contents_def split: sum.splits)
  show "wal_file_corrupt env (contents s) pre n \<and> wal_file_contents env (contents s) pre n = None" if "r = Inl e" "skippable e"
    using assms that env_store get get_ok [of "wal_path pre n" s]
    by (auto simp: get_contents_def wal_file_contents_def wal_file_corrupt_def split: sum.splits)
qed

lemma replay_paths_contents:
  assumes "sorted_wrt (<) ns" and "\<forall>m \<in> set ns. n \<le> m \<and> m < 10 ^ 11"
    and "\<forall>m \<in> set ns. \<forall>fc. wal_file_contents env (contents s) (wos_node_identifier_prefix w) m = Some fc \<longrightarrow> wct_wal_file_number fc = m"
    and "replay_inv n w"
    and "replay_paths env fe ls (map (wal_path (wos_node_identifier_prefix w)) ns) w s = Done (Inr evs, w', s')"
  shows "map event_contents evs = filter (\<lambda>x. x \<noteq> None) (map (wal_file_contents env (contents s) (wos_node_identifier_prefix w)) ns) \<and>
    list_all (\<lambda>m. wal_file_contents env (contents s) (wos_node_identifier_prefix w) m \<noteq> None \<or>
      \<not> fe \<and> wal_file_corrupt env (contents s) (wos_node_identifier_prefix w) m) ns"
  using assms
proof (induction ns arbitrary: n w s evs)
  case (Cons m ns)
  let ?pre = "wos_node_identifier_prefix w"
  obtain r s1 where get: "get_contents env (wal_path ?pre m) s = (r, s1)" by fastforce
  note got = get_contents_file [OF get]
  have inv: "replay_inv m w" using Cons.prems(2,4) replay_inv_later by simp
  show ?case
  proof (cases r)
    case (Inl e)
    then have skip: "skippable e" "\<not> fe" and rest: "replay_paths env fe ls (map (wal_path ?pre) ns) w s1 = Done (Inr evs, w', s')"
      using Cons.prems(5) get by (auto split: if_splits)
    show ?thesis
      using Cons.IH [OF _ _ _ inv, of s1 evs] Cons.prems(1-3) rest got(1) got(3) [OF Inl skip(1)] skip(2)
      by (simp add: less_imp_le)
  next
    case (Inr fc)
    then obtain evs1 w1 s2 evs2 where
      step: "replay_contents env ls fc w s1 = Done (evs1, w1, s2)"
      and rest: "replay_paths env fe ls (map (wal_path ?pre) ns) w1 s2 = Done (Inr evs2, w', s')"
      and evs: "evs = evs1 @ evs2"
      using Cons.prems(5) get by (auto split: outcome.splits sum.splits)
    have fc: "wal_file_contents env (contents s) ?pre m = Some fc" using got(2) [OF Inr] .
    then have num: "wct_wal_file_number fc = m" using Cons.prems(3) by simp
    note one = replay_contents_step [OF inv num step]
    have same: "contents s2 (wal_path ?pre k) = contents s (wal_path ?pre k)" if k: "k \<in> set ns" for k
    proof -
      have "m < k" "k < 10 ^ 11" "m < 10 ^ 11" using Cons.prems(1,2) k by auto
      then show ?thesis using one got(1) wal_path_inj [of k _ ?pre]
        by (metis (no_types) order_less_trans order_less_imp_not_less)
    qed
    have w1: "wos_node_identifier_prefix w1 = ?pre" using one by simp
    have kept: "wal_file_contents env (contents s2) ?pre k = wal_file_contents env (contents s) ?pre k"
      "wal_file_corrupt env (contents s2) ?pre k = wal_file_corrupt env (contents s) ?pre k" if "k \<in> set ns" for k
      using same [OF that] by (simp_all add: wal_file_contents_def wal_file_corrupt_def)
    have "map event_contents evs2 = filter (\<lambda>x. x \<noteq> None) (map (wal_file_contents env (contents s2) ?pre) ns) \<and>
        list_all (\<lambda>m. wal_file_contents env (contents s2) ?pre m \<noteq> None \<or> \<not> fe \<and> wal_file_corrupt env (contents s2) ?pre m) ns"
      using Cons.IH [where n = "m + 1" and w = w1 and s = s2 and evs = evs2] Cons.prems(1-3) one rest kept(1)
      unfolding w1 by (auto simp: Suc_le_eq)
    then show ?thesis using one evs fc kept by (simp add: list_all_iff cong: map_cong)
  qed
qed simp

end

section \<open>Flushes\<close>

lemma flush_begin_some:
  assumes "flush_begin force now now_ms w = Done (Some (c, rs, sd, w1))"
  shows "ops_rows (wct_ops c) = buffer_rows (fb_wal_buffer (wos_flush_buffer w))"
    "rs = wbf_write_op_responses (fb_wal_buffer (wos_flush_buffer w))"
    "wct_wal_file_number c = wbf_wal_file_sequence_number (fb_wal_buffer (wos_flush_buffer w))"
    "wct_snapshot c = sd"
    "wbf_write_op_responses (fb_wal_buffer (wos_flush_buffer w1)) = []"
proof -
  from assms obtain fb where
    run: "flush_buffer_into_contents_and_responses force now now_ms (wos_flush_buffer w) = Done (c, rs, sd, fb)"
    and w1: "w1 = w\<lparr>wos_flush_buffer := fb\<rparr>"
    by (auto simp: flush_begin_def split: if_splits outcome.splits)
  show "ops_rows (wct_ops c) = buffer_rows (fb_wal_buffer (wos_flush_buffer w))"
    "rs = wbf_write_op_responses (fb_wal_buffer (wos_flush_buffer w))"
    "wct_wal_file_number c = wbf_wal_file_sequence_number (fb_wal_buffer (wos_flush_buffer w))"
    "wct_snapshot c = sd"
    "wbf_write_op_responses (fb_wal_buffer (wos_flush_buffer w1)) = []"
    using flush_contents [OF run] by (simp_all add: w1)
qed

lemma flush_buffer_wal_run:
  assumes "flush_buffer_wal env force now now_ms nonce w s = Done (r, evs, w', s')"
  obtains (idle) "wal_buffer_is_empty (fb_wal_buffer (wos_flush_buffer w))" "\<not> force"
      "r = None" "evs = []" "w' = w" "s' = s"
  | (flushed) c rs sd w1 data out where
      "flush_begin force now now_ms w = Done (Some (c, rs, sd, w1))"
      "serialize_to_file_bytes (we_bitcode env) (we_crc env) c = Inr data"
      "put_wal_file (we_store env) WAL_PUT_ATTEMPTS
         (wal_path (wos_node_identifier_prefix w) (wct_wal_file_number c)) data nonce s = (out, s')"
      "flush_finish (we_error_text env) now_ms out c rs sd w1 = (r, evs, w')"
proof (cases "flush_begin force now now_ms w")
  case (Done begun)
  show thesis
  proof (cases begun)
    case None
    with Done have "wal_buffer_is_empty (fb_wal_buffer (wos_flush_buffer w))" "\<not> force"
      by (auto simp: flush_begin_def split: if_splits outcome.splits)
    with assms Done None idle show thesis by (simp add: flush_buffer_wal_def)
  next
    case (Some x)
    obtain c rs sd w1 where x: "x = (c, rs, sd, w1)" by (cases x)
    from assms Done Some x obtain data where
      data: "serialize_to_file_bytes (we_bitcode env) (we_crc env) c = Inr data"
      by (cases "serialize_to_file_bytes (we_bitcode env) (we_crc env) c") (simp_all add: flush_buffer_wal_def)
    obtain out s1 where put: "put_wal_file (we_store env) WAL_PUT_ATTEMPTS
        (wal_path (wos_node_identifier_prefix w) (wct_wal_file_number c)) data nonce s = (out, s1)" by fastforce
    obtain r1 evs1 w2 where fin: "flush_finish (we_error_text env) now_ms out c rs sd w1 = (r1, evs1, w2)"
      by (cases "flush_finish (we_error_text env) now_ms out c rs sd w1")
    from assms Done Some x data put fin have "r1 = r" "evs1 = evs" "w2 = w'" "s1 = s'"
      by (simp_all add: flush_buffer_wal_def)
    with Done Some x data put fin show thesis by (intro flushed) simp_all
  qed
qed (use assms in \<open>simp_all add: flush_buffer_wal_def\<close>)

text \<open>The answers among the events of a flush.\<close>

fun answer_of :: "wal_event \<Rightarrow> (client \<times> write_result) list" where
  "answer_of (Respond cl r) = [(cl, r)]"
| "answer_of _ = []"

definition answers :: "wal_event list \<Rightarrow> (client \<times> write_result) list" where
  "answers evs = concat (map answer_of evs)"

lemma answers_responds [simp]: "answers (map (\<lambda>cl. Respond cl r) cs) = map (\<lambda>cl. (cl, r)) cs"
  by (induction cs) (simp_all add: answers_def)

lemma answers_added [simp]: "answers (map (\<lambda>k. NotifyAdded k c) ks) = []"
  by (induction ks) (simp_all add: answers_def)

lemma answers_simps [simp]:
  "answers [] = []" "answers (e # evs) = answer_of e @ answers evs" "answers (evs @ evs') = answers evs @ answers evs'"
  by (simp_all add: answers_def)

lemma answers_mem: "Respond cl r \<in> set evs \<longleftrightarrow> (cl, r) \<in> set (answers evs)"
proof -
  have "(cl, r) \<in> set (answer_of e) \<longleftrightarrow> e = Respond cl r" for e by (cases e) auto
  then show ?thesis by (induction evs) auto
qed

lemma failure_answers:
  "fst (flush_buffer_with_failure e now_ms fb) = map (\<lambda>cl. (cl, e)) (wbf_write_op_responses (fb_wal_buffer fb))"
  by (simp add: flush_buffer_with_failure_def flush_buffer_with_responses_def Let_def split_beta
      into_wal_contents_and_responses_def)

lemma flush_finish_answers:
  assumes "flush_finish et now_ms out c rs sd w = (r, evs, w')"
    and "wbf_write_op_responses (fb_wal_buffer (wos_flush_buffer w)) = []"
  shows "answers evs = map (\<lambda>cl. (cl, if out = Written then Success
           else Error (case out of GaveUp e \<Rightarrow> et e | _ \<Rightarrow> wal_already_written_text))) rs"
proof (cases out)
  case Written
  then have "evs = (case wct_snapshot c of Some d \<Rightarrow> NotifyAndSnapshot c d | None \<Rightarrow> Notify c) #
      map (\<lambda>k. NotifyAdded k c) [0..<wos_added_file_notifiers w] @ map (\<lambda>cl. Respond cl Success) rs"
    using assms(1) by (auto simp: flush_finish_def Let_def)
  with Written show ?thesis by (simp split: option.split)
next
  case AlreadyThere
  then have "evs = map (\<lambda>cl. Respond cl (Error wal_already_written_text)) rs @ [CancelProcess]"
    using assms(1) by (auto simp: flush_finish_def Let_def)
  with AlreadyThere show ?thesis by simp
next
  case (GaveUp e)
  then have "evs = map (\<lambda>cl. Respond cl (Error (et e))) rs @ map (\<lambda>(cl, r). Respond cl r)
      (fst (flush_buffer_with_failure (Error (et e)) now_ms (wos_flush_buffer w)))"
    using assms(1) by (auto simp: flush_finish_def Let_def split_beta)
  then have "evs = map (\<lambda>cl. Respond cl (Error (et e))) rs" by (simp add: failure_answers assms(2))
  with GaveUp show ?thesis by simp
qed

section \<open>A log in memory\<close>

text \<open>An encoding of one file's contents, to run the definitions.\<close>

definition one_code :: "'c \<Rightarrow> 'c bitcode" where
  "one_code c = \<lparr>bc_serialize = (\<lambda>c'. if c' = c then Some [1] else None),
     bc_deserialize = (\<lambda>bs. if bs = [1] then Some c else None)\<rparr>"

definition ex_env :: "wal_contents \<Rightarrow> byte list mem wal_env" where
  "ex_env c = \<lparr>we_store = SelfVerifyingCreateStore ''g'' mem_store, we_bitcode = one_code c,
     we_crc = sum_crc, we_error_text = (\<lambda>_. ''failed'')\<rparr>"

text \<open>A fresh log with one buffered write of client 7.\<close>

definition ex_wal :: wal_object_store where
  "ex_wal = snd (wal_write_ops [Write (ex_batch 5)] 7
     (wal_new_without_replay ''n'' wal_config_default None None [] 300))"

definition ex_contents :: wal_contents where
  "ex_contents = fst (into_wal_contents_and_responses False 0 (fb_wal_buffer (wos_flush_buffer ex_wal)))"

lemma one_code_ok: "bitcode_ok (one_code c)"
  by (simp add: bitcode_ok_def one_code_def)

interpretation mem_wal: wal_log "SelfVerifyingCreateStore ''g'' mem_store" map_of "ex_env c" for c
  by unfold_locales (simp_all add: ex_env_def one_code_ok)

lemma ex_wal_buffer:
  "wbf_write_op_responses (fb_wal_buffer (wos_flush_buffer ex_wal)) = [7]"
  "wbf_wal_file_sequence_number (fb_wal_buffer (wos_flush_buffer ex_wal)) = 1"
  "wbf_database_to_write_batch (fb_wal_buffer (wos_flush_buffer ex_wal)) \<noteq> []"
  "wbf_no_op (fb_wal_buffer (wos_flush_buffer ex_wal)) = None"
  "wos_node_identifier_prefix ex_wal = ''n''" "wos_added_file_notifiers ex_wal = 0"
  "fb_snapshot_tracker (wos_flush_buffer ex_wal) = SnapshotTracker_new 600 gen1_default None"
  by (simp_all add: ex_wal_def wal_write_ops_def buffer_ops_with_response_def write_ops_unconfirmed_def
      is_accepting_writes_def wal_new_without_replay_def FlushBuffer_new_def WalBuffer_new_def
      wal_config_default_def upd_wal_buffer_def Let_def)

lemma ex_contents_fields:
  "into_wal_contents_and_responses False 0 (fb_wal_buffer (wos_flush_buffer ex_wal)) = (ex_contents, [7])"
  "wct_wal_file_number ex_contents = 1" "wct_snapshot ex_contents = None"
  by (simp_all add: ex_contents_def into_wal_contents_and_responses_def ex_wal_buffer Let_def)

lemma ex_flush:
  "\<exists>w' s'. flush_buffer_wal (ex_env ex_contents) False 0 0 ''k'' ex_wal [] =
     Done (None, [Notify ex_contents, Respond 7 Success], w', s')"
proof -
  have "\<exists>w1. flush_begin False 0 0 ex_wal = Done (Some (ex_contents, [7], None, w1)) \<and> wos_added_file_notifiers w1 = 0"
    by (simp add: flush_begin_def wal_buffer_is_empty_def ex_wal_buffer flush_defs ex_contents_fields
        add_wal_period_def SnapshotTracker_new_def tracker_snapshot_def should_run_snapshot_def
        number_of_periods_to_snapshot_after_def)
  then obtain w1 where begun: "flush_begin False 0 0 ex_wal = Done (Some (ex_contents, [7], None, w1))"
    "wos_added_file_notifiers w1 = 0" by blast
  have "put_wal_file (SelfVerifyingCreateStore ''g'' mem_store) 101 p data ''k'' [] =
      (Written, snd (put_wal_file (SelfVerifyingCreateStore ''g'' mem_store) 101 p data ''k'' []))" for p data
    by (simp add: put_wal_file.simps(2) [of _ 100, simplified] self_verifying_put_opts_def SelfVerifyingCreate_put_options_def
        SelfVerifyingCreate_with_nonce_def into_nonce_def Let_def)
  then obtain s1 where "put_wal_file (SelfVerifyingCreateStore ''g'' mem_store) 101 (wal_path ''n'' 1)
      (FILE_TYPE_IDENTIFIER @ to_be_bytes (sum_crc [1]) @ [1]) ''k'' [] = (Written, s1)" by metis
  moreover have "WAL_PUT_ATTEMPTS = 101" by (simp add: WAL_PUT_ATTEMPTS_def)
  ultimately show ?thesis
    using begun by (simp add: flush_buffer_wal_def ex_env_def serialize_to_file_bytes_def one_code_def
        ex_contents_fields ex_wal_buffer flush_finish_def Let_def)
qed

section \<open>Properties\<close>

text \<open>Claim C2. An acknowledged write is durable: when a flush answers a client with success, the store
  holds at the next WAL path a file that verifies, and its operations hold exactly the rows that were
  buffered; no other object changed.  The put may have been retried with the same nonce, and earlier
  attempts may have landed unseen.\<close>

theorem acknowledged_writes_are_durable:
  assumes "object_store_laws inner contents" and "we_store env = SelfVerifyingCreateStore g inner"
    and "bitcode_ok (we_bitcode env)" and "nonce_fresh (contents s) nonce"
    and "flush_buffer_wal env force now now_ms nonce w s = Done (r, evs, w', s')"
    and "Respond cl Success \<in> set evs"
  shows "\<exists>fc. wal_file_at env (contents s') (wos_node_identifier_prefix w)
             (wbf_wal_file_sequence_number (fb_wal_buffer (wos_flush_buffer w))) fc \<and>
           ops_rows (wct_ops fc) = buffer_rows (fb_wal_buffer (wos_flush_buffer w)) \<and>
           cl \<in> set (wbf_write_op_responses (fb_wal_buffer (wos_flush_buffer w))) \<and>
           (\<forall>q. q \<noteq> wal_path (wos_node_identifier_prefix w) (wct_wal_file_number fc) \<longrightarrow> contents s' q = contents s q)"
  using assms(5)
proof (cases rule: flush_buffer_wal_run)
  case idle
  then show ?thesis using assms(6) by simp
next
  case (flushed c rs sd w1 data out)
  let ?p = "wal_path (wos_node_identifier_prefix w) (wct_wal_file_number c)"
  note begun = flush_begin_some [OF flushed(1)]
  have "(cl, Success) \<in> set (answers evs)" using assms(6) answers_mem by blast
  then have out: "out = Written" and cl: "cl \<in> set rs"
    using flush_finish_answers [OF flushed(4) begun(5)] by (auto split: if_splits)
  have own: "nonce_owned nonce ?p data (contents s)" using assms(4) by (rule nonce_fresh_owned)
  note put = object_store_laws.put_wal_file_effect [OF assms(1) flushed(3) [unfolded assms(2)] own]
  from put out obtain x where "contents s' ?p = Some x" "so_body x = data" by auto
  moreover have "verify_file_type_and_deserialize (we_bitcode env) (we_crc env) data = Inr c"
  proof -
    from flushed(2) obtain body where "bc_serialize (we_bitcode env) c = Some body"
      "data = FILE_TYPE_IDENTIFIER @ to_be_bytes (we_crc env body) @ body"
      by (auto simp: serialize_to_file_bytes_def split: option.splits)
    with assms(3) show ?thesis by (simp add: frame_verifies bitcode_ok_def)
  qed
  ultimately show ?thesis
    using begun cl put_effect_other [OF conjunct1 [OF put]]
    by (intro exI [of _ c]) (auto simp: wal_file_at_def)
qed

theorem acknowledged_writes_are_durable_witness:
  "\<exists>fc s'. wal_file_at (ex_env ex_contents) (map_of s') ''n'' 1 fc \<and>
     ops_rows (wct_ops fc) = buffer_rows (fb_wal_buffer (wos_flush_buffer ex_wal))"
proof -
  from ex_flush obtain w' s' where run: "flush_buffer_wal (ex_env ex_contents) False 0 0 ''k'' ex_wal [] =
     Done (None, [Notify ex_contents, Respond 7 Success], w', s')" by blast
  have "we_store (ex_env ex_contents) = SelfVerifyingCreateStore ''g'' mem_store"
    "bitcode_ok (we_bitcode (ex_env ex_contents))" by (simp_all add: ex_env_def one_code_ok)
  from acknowledged_writes_are_durable [OF mem.object_store_laws_axioms this _ run, of 7]
  show ?thesis by (auto simp: nonce_fresh_def ex_wal_buffer)
qed

text \<open>Claim C23. A flush answers every waiting client exactly once and all alike: with success when the
  file was written, otherwise with the error; a flush that finds nothing to write answers nobody.\<close>

theorem flush_answers_every_client_once:
  assumes "flush_buffer_wal env force now now_ms nonce w s = Done (r, evs, w', s')"
    and "force \<or> \<not> wal_buffer_is_empty (fb_wal_buffer (wos_flush_buffer w))"
  shows "\<exists>res. answers evs = map (\<lambda>cl. (cl, res)) (wbf_write_op_responses (fb_wal_buffer (wos_flush_buffer w)))"
  using assms(1)
proof (cases rule: flush_buffer_wal_run)
  case (flushed c rs sd w1 data out)
  note begun = flush_begin_some [OF flushed(1)]
  from flush_finish_answers [OF flushed(4) begun(5)] begun(2) show ?thesis by auto
qed (use assms(2) in simp)

theorem flush_answers_every_client_once_witness:
  "\<exists>r evs w' s' res. flush_buffer_wal (ex_env ex_contents) False 0 0 ''k'' ex_wal [] = Done (r, evs, w', s') \<and>
     answers evs = [(7, res)]"
proof -
  from ex_flush obtain w' s' where run: "flush_buffer_wal (ex_env ex_contents) False 0 0 ''k'' ex_wal [] =
     Done (None, [Notify ex_contents, Respond 7 Success], w', s')" by blast
  have "False \<or> \<not> wal_buffer_is_empty (fb_wal_buffer (wos_flush_buffer ex_wal))"
    by (simp add: wal_buffer_is_empty_def ex_wal_buffer)
  from flush_answers_every_client_once [OF run this] run show ?thesis by (auto simp: ex_wal_buffer)
qed

text \<open>Claim C13. Cleaning up after a snapshot deletes only WAL files the snapshot covers, never the last
  of them nor the configured number before it, and leaves the bookkeeping in order for the next
  snapshot; the snapshot permit is free again.\<close>

theorem cleanup_keeps_unsnapshotted_files:
  assumes "object_store_laws st contents"
    and "remove_snapshot_wal_files st sd w s = Some (w', s')"
    and "fst (get_current_state (wos_wal_remover w)) \<le> sd_last_wal_sequence_number sd"
  shows "(contents s' q = contents s q \<or> contents s' q = None \<and>
      (\<exists>k. q = wal_path (wos_node_identifier_prefix w) k \<and> fst (get_current_state (wos_wal_remover w)) \<le> k \<and>
         k + wos_snapshotted_wal_files_to_keep w < sd_last_wal_sequence_number sd)) \<and>
    fst (get_current_state (wos_wal_remover w')) \<le> sd_last_wal_sequence_number sd \<and>
    snd (get_current_state (wos_wal_remover w')) = sd_last_wal_sequence_number sd \<and>
    fb_permit_free (wos_flush_buffer w')"
  using object_store_laws.remove_effect [OF assms] .

definition ex_details :: snapshot_details where
  "ex_details = \<lparr>sd_snapshot_sequence_number = 1, sd_end_time_marker = 0,
     sd_first_wal_sequence_number = 1, sd_last_wal_sequence_number = 3, sd_forced = False\<rparr>"

theorem cleanup_keeps_unsnapshotted_files_witness:
  "\<exists>w' s'. remove_snapshot_wal_files (mem_store :: (byte list mem, byte list) object_store) ex_details ex_wal [] = Some (w', s') \<and>
     snd (get_current_state (wos_wal_remover w')) = 3 \<and> fb_permit_free (wos_flush_buffer w')"
proof -
  have rem: "wos_wal_remover ex_wal = \<lparr>wfr_oldest_wal_file = None, wfr_last_snapshotted = None\<rparr>"
    "wos_snapshotted_wal_files_to_keep ex_wal = 300"
    by (simp_all add: ex_wal_def wal_write_ops_def wal_new_without_replay_def upd_wal_buffer_def Let_def
        oldest_wal_file_num_def split_beta)
  then have "\<exists>w' s'. remove_snapshot_wal_files (mem_store :: (byte list mem, byte list) object_store) ex_details ex_wal [] = Some (w', s')"
    by (simp add: remove_snapshot_wal_files_def update_last_and_get_current_state_def Let_def
        get_current_state_def update_last_wal_num_def ex_details_def sub_u64_def)
  then obtain w' s' where run: "remove_snapshot_wal_files (mem_store :: (byte list mem, byte list) object_store)
      ex_details ex_wal [] = Some (w', s')" by blast
  have "fst (get_current_state (wos_wal_remover ex_wal)) \<le> sd_last_wal_sequence_number ex_details"
    by (simp add: rem get_current_state_def ex_details_def)
  from cleanup_keeps_unsnapshotted_files [OF mem.object_store_laws_axioms run this] run
  show ?thesis by (auto simp: ex_details_def)
qed

text \<open>Claim C24. Opening the log terminates and sees every WAL file: on a store that answers its listings
  the repeated listing ends, with all paths below the WAL prefix in order, each once.\<close>

theorem wal_listing_is_complete:
  assumes "object_store_reads st contents" and "lists_answered st"
  shows "\<exists>ps s'. load_all_wal_file_paths st pre s = Some (Inr ps, s') \<and> sorted ps \<and> distinct ps \<and>
    set ps = {p. contents s p \<noteq> None \<and> under (pre @ ''/wal'') p} \<and> contents s' = contents s"
  using object_store_reads.load_all_paths [OF assms] .

theorem wal_listing_is_complete_witness:
  "\<exists>ps s'. load_all_wal_file_paths (mem_store :: (nat mem, nat) object_store) ''n''
       [(wal_path ''n'' 1, \<lparr>so_body = 0, so_attrs = []\<rparr>)] = Some (Inr ps, s') \<and> sorted ps"
proof -
  have "lists_answered (mem_store :: (nat mem, nat) object_store)"
    by (simp add: lists_answered_def mem_store_def)
  from wal_listing_is_complete [OF mem.object_store_reads_axioms this] show ?thesis by blast
qed

text \<open>Claim C9.  A replay that succeeds hands the contents of every readable WAL file above the last persisted
  one to the notifier, in order of file number and once, although it deletes files of snapshots on the
  way.  The only files it passes over are those whose stored bytes fail the length, type or checksum test,
  and it passes over them only when it is not told to fail on errors.  Readable files are assumed to carry
  the number that their name has.\<close>

theorem replay_notifies_every_file:
  assumes "wal_log (we_store env) contents env" and "sorted_wrt (<) ms" and "\<forall>m \<in> set ms. m < 10 ^ 11"
    and "\<forall>m \<in> set ms. \<forall>fc. wal_file_contents env (contents s) pre m = Some fc \<longrightarrow> wct_wal_file_number fc = m"
    and "wc_gen1_duration config > 0" and "last_wal = None \<or> the last_wal < 10 ^ 11"
    and "wal_replay env fe last_wal (map (wal_path pre) ms)
      (wal_new_without_replay pre config last_wal last_snapshot (map (wal_path pre) ms) keep) s = Done (Inr evs, w', s')"
    and ns: "ns = filter (\<lambda>m. case last_wal of None \<Rightarrow> True | Some n \<Rightarrow> n < m) ms"
  shows "map event_contents evs = filter (\<lambda>x. x \<noteq> None) (map (wal_file_contents env (contents s) pre) ns) \<and>
    list_all (\<lambda>m. wal_file_contents env (contents s) pre m \<noteq> None \<or> \<not> fe \<and> wal_file_corrupt env (contents s) pre m) ns"
proof -
  note ns_def = ns
  let ?w = "wal_new_without_replay pre config last_wal last_snapshot (map (wal_path pre) ms) keep"
  have paths: "load_existing_wal_file_paths pre last_wal (map (wal_path pre) ms) = map (wal_path pre) ns"
  proof -
    have "filter (\<lambda>p. case last_wal of Some n \<Rightarrow> p > wal_path pre n | None \<Rightarrow> True) (map (wal_path pre) xs) =
        map (wal_path pre) (filter (\<lambda>m. case last_wal of None \<Rightarrow> True | Some n \<Rightarrow> n < m) xs)"
      if "\<forall>m \<in> set xs. m < 10 ^ 11" for xs
      using that assms(6) by (induction xs) (auto simp: wal_path_less_iff split: option.splits)
    with assms(3) show ?thesis by (simp add: load_existing_wal_file_paths_def ns_def)
  qed
  show ?thesis
  proof (cases ns)
    case Nil
    then show ?thesis using assms(7) paths
      by (simp add: wal_replay_def wal_new_without_replay_def)
  next
    case (Cons n ns')
    have ms: "ms \<noteq> []" using Cons by (auto simp: ns_def)
    then have oldest: "wfr_oldest_wal_file (wos_wal_remover ?w) = Some (hd ms)"
      using oldest_of_wal_paths [of "hd ms" pre "map (wal_path pre) (tl ms)"] assms(3)
      by (cases ms) (simp_all add: wal_new_without_replay_def)
    have sorted: "sorted_wrt (<) ns" using assms(2) unfolding ns_def by (rule sorted_wrt_filter)
    have "hd ms \<le> m" if "m \<in> set ms" for m using that assms(2) ms by (cases ms) auto
    then have "hd ms \<le> m" if "m \<in> set ns" for m using that by (simp add: ns_def)
    with Cons oldest assms(5) have inv: "replay_inv n ?w"
      by (simp add: replay_inv_def Let_def get_current_state_def wf_tracker_new wal_new_without_replay_def
          FlushBuffer_new_def) (simp add: wf_tracker_new SnapshotTracker_new_def wf_tracker_def)
    have pre: "wos_node_identifier_prefix ?w = pre" by (simp add: wal_new_without_replay_def)
    have sub: "set ns \<subseteq> set ms" by (auto simp: ns_def)
    have le: "n \<le> m" if "m \<in> set ns" for m using that sorted Cons by auto
    have rng: "\<forall>m \<in> set ns. n \<le> m \<and> m < 10 ^ 11" using le sub assms(3) by auto
    have num: "\<forall>m \<in> set ns. \<forall>fc. wal_file_contents env (contents s) pre m = Some fc \<longrightarrow> wct_wal_file_number fc = m"
      using sub assms(4) by auto
    have run: "replay_paths env fe (st_last_snapshot_sequence_number (fb_snapshot_tracker (wos_flush_buffer ?w)))
        (map (wal_path pre) ns) ?w s = Done (Inr evs, w', s')"
      using assms(7) paths by (simp add: wal_replay_def pre)
    show ?thesis
      using wal_log.replay_paths_contents [OF assms(1) sorted rng _ inv, where s = s] num run unfolding pre by blast
  qed
qed

theorem replay_notifies_every_file_witness:
  "\<exists>evs w' s'. wal_replay (ex_env ex_contents) False None [wal_path ''n'' 1]
       (wal_new_without_replay ''n'' wal_config_default None None [wal_path ''n'' 1] 300)
       [(wal_path ''n'' 1, \<lparr>so_body = FILE_TYPE_IDENTIFIER @ to_be_bytes (sum_crc [1]) @ [1], so_attrs = []\<rparr>)] =
       Done (Inr evs, w', s') \<and> map event_contents evs = [Some ex_contents]"
proof -
  let ?s = "[(wal_path ''n'' 1, \<lparr>so_body = FILE_TYPE_IDENTIFIER @ to_be_bytes (sum_crc [1]) @ [1], so_attrs = []\<rparr>)]"
  let ?w = "wal_new_without_replay ''n'' wal_config_default None None (map (wal_path ''n'') [1]) 300"
  let ?env = "ex_env ex_contents"
  have log: "wal_log (we_store ?env) map_of ?env"
    using mem_wal.wal_log_axioms [of ex_contents] by (simp add: ex_env_def)
  have ver: "verify_file_type_and_deserialize (we_bitcode ?env) (we_crc ?env)
      (FILE_TYPE_IDENTIFIER @ to_be_bytes (sum_crc [1]) @ [1]) = Inr ex_contents"
    by (simp add: frame_verifies ex_env_def one_code_def)
  have got: "wal_file_contents ?env (map_of ?s) ''n'' 1 = Some ex_contents" using ver by (simp add: wal_file_contents_def)
  then have at: "\<forall>m \<in> set [1]. \<forall>fc. wal_file_contents ?env (map_of ?s) ''n'' m = Some fc \<longrightarrow> wct_wal_file_number fc = m"
    by (simp add: ex_contents_fields)
  have times: "wct_min_timestamp_ns ex_contents \<le> wct_max_timestamp_ns ex_contents"
    by (simp add: ex_contents_def into_wal_contents_and_responses_def ex_wal_def wal_write_ops_def
        buffer_ops_with_response_def write_ops_unconfirmed_def is_accepting_writes_def
        wal_new_without_replay_def FlushBuffer_new_def WalBuffer_new_def wal_config_default_def
        upd_wal_buffer_def Let_def add_write_batch_def ex_batch_def WriteBatch_new_def push_row_def
        table_chunks_default_def i64_max_def i64_min_def empty_batch_like_def)
  have run: "\<exists>evs w' s'. wal_replay ?env False None (map (wal_path ''n'') [1]) ?w ?s = Done (Inr evs, w', s')"
    using ver times
    by (simp add: wal_replay_def load_existing_wal_file_paths_def get_contents_def ex_env_def mem_store_def
        replay_contents_def WalPeriod_new_def ex_contents_fields replay_wal_period_def add_wal_period_def
        wal_new_without_replay_def FlushBuffer_new_def SnapshotTracker_new_def)
  then obtain evs w' s' where run: "wal_replay ?env False None (map (wal_path ''n'') [1]) ?w ?s = Done (Inr evs, w', s')"
    by blast
  have gen1: "wc_gen1_duration wal_config_default > 0"
    by (simp add: wal_config_default_def gen1_default_def gen1_from_secs_def NANOS_PER_SEC_def)
  have small: "sorted_wrt (<) [1 :: nat]" "\<forall>m \<in> set [1 :: nat]. m < 10 ^ 11" "None = None \<or> the None < (10 :: nat) ^ 11" by simp_all
  note notified = replay_notifies_every_file [OF log small(1,2) at gen1 small(3) run refl]
  have "map event_contents evs = filter (\<lambda>x. x \<noteq> None) (map (wal_file_contents ?env (map_of ?s) ''n'')
      (filter (\<lambda>m. case None of None \<Rightarrow> True | Some n \<Rightarrow> n < m) [1]))"
    using notified by (rule conjunct1)
  also have "\<dots> = [Some ex_contents]" by (simp only: option.case filter.simps if_True list.map got option.distinct not_False_eq_True)
  finally show ?thesis using run by auto
qed

end
