(* ===== verification/Compaction_Record.thy ===== *)
theory Compaction_Record
  imports Wal_Object_Store Startup
begin

text \<open>
  How a node records a compaction of its own files: the notice a compactor sends
  (\<open>influxdb3_cluster/src/rpc/notice.rs\<close>) and \<open>apply_compaction_locally\<close>
  (\<open>influxdb3_cluster/src/rpc/server.rs\<close>), which swaps the files in memory, reserves a snapshot
  sequence number from the node's log and persists one manifest.  The owner's state joins the
  write-ahead log, the file list, the file identifier allocator and the persister's cache.
\<close>

section \<open>The notice\<close>

record compaction_notice =
  cn_node_id :: node_name
  cn_db_id :: db_id
  cn_table_id :: table_id
  cn_merged_path :: obj_path
  cn_merged_size_bytes :: nat
  cn_merged_row_count :: nat
  cn_merged_chunk_time :: time_ns
  cn_merged_min_time :: time_ns
  cn_merged_max_time :: time_ns
  cn_removed_paths :: "obj_path list"

definition CompactionNotice_new ::
  "node_name \<Rightarrow> db_id \<Rightarrow> table_id \<Rightarrow> parquet_file \<Rightarrow> obj_path list \<Rightarrow> compaction_notice" where
  "CompactionNotice_new node_id d t merged removed_paths =
     \<lparr>cn_node_id = node_id, cn_db_id = d, cn_table_id = t,
      cn_merged_path = pf_path merged, cn_merged_size_bytes = pf_size_bytes merged,
      cn_merged_row_count = pf_row_count merged, cn_merged_chunk_time = pf_chunk_time merged,
      cn_merged_min_time = pf_min_time merged, cn_merged_max_time = pf_max_time merged,
      cn_removed_paths = removed_paths\<rparr>"

definition merged_file :: "compaction_notice \<Rightarrow> nat \<Rightarrow> parquet_file" where
  "merged_file n i =
     \<lparr>pf_id = i, pf_path = cn_merged_path n, pf_size_bytes = cn_merged_size_bytes n,
      pf_row_count = cn_merged_row_count n, pf_chunk_time = cn_merged_chunk_time n,
      pf_min_time = cn_merged_min_time n, pf_max_time = cn_merged_max_time n\<rparr>"

section \<open>Recording\<close>

datatype compaction_apply_error = WrongNode node_name node_name | Persist persister_error

record owner =
  ow_node_id :: node_name
  ow_wal :: wal_object_store
  ow_persisted_files :: persisted_files
  ow_next_file_id :: nat
  ow_catalog_sequence_number :: nat
  ow_persister_state :: persister_state

definition compaction_snapshot ::
  "node_name \<Rightarrow> nat \<Rightarrow> nat \<Rightarrow> nat \<Rightarrow> nat \<Rightarrow> compaction_notice \<Rightarrow> parquet_file \<Rightarrow> parquet_file list \<Rightarrow> persisted_snapshot" where
  "compaction_snapshot node_id next_file_id sq wal_seq catalog_seq n merged removed =
     (PersistedSnapshot_new next_file_id node_id sq wal_seq catalog_seq)
       \<lparr>ps_next_file_id := ParquetFileId_next_id next_file_id,
        ps_parquet_size_bytes := pf_size_bytes merged,
        ps_row_count := pf_row_count merged,
        ps_min_time := pf_min_time merged,
        ps_max_time := pf_max_time merged,
        ps_databases := [(cn_db_id n, [(cn_table_id n, [merged])])],
        ps_removed_files := (if removed = [] then [] else [(cn_db_id n, [(cn_table_id n, removed)])])\<rparr>"

text \<open>\<open>None\<close> is the panic of the identifier allocator at the end of its range.\<close>

definition apply_compaction_locally ::
  "('s, 'b) persister \<Rightarrow> int \<Rightarrow> nat \<Rightarrow> compaction_notice \<Rightarrow> owner \<Rightarrow> 's \<Rightarrow>
   ((compaction_apply_error + unit) \<times> persister_task list \<times> owner \<times> 's) option" where
  "apply_compaction_locally pe now_ms instant n ow s =
     (if cn_node_id n \<noteq> ow_node_id ow
      then Some (Inl (WrongNode (ow_node_id ow) (cn_node_id n)), [], ow, s)
      else case ParquetFileId_new (ow_next_file_id ow) of
             None \<Rightarrow> None
           | Some (i, next_file_id) \<Rightarrow>
               (let merged = merged_file n i
                in case apply_compaction (cn_db_id n) (cn_table_id n) [merged] (cn_removed_paths n) (ow_persisted_files ow) of
                     ((added, removed), files) \<Rightarrow>
                       (let ow1 = ow\<lparr>ow_next_file_id := next_file_id, ow_persisted_files := files\<rparr>
                        in if added = 0 \<and> removed = [] then Some (Inr (), [], ow1, s)
                           else case wal_reserve_snapshot_sequence_number (ow_wal ow1) of
                                  (sq, wal) \<Rightarrow>
                                    (let wal_seq = wal_last_persisted_wal_sequence_number wal;
                                         snapshot = compaction_snapshot (ow_node_id ow) next_file_id sq wal_seq
                                                      (ow_catalog_sequence_number ow) n merged removed
                                     in case persist_snapshot pe now_ms instant snapshot (ow_persister_state ow1) s of
                                          (r, tasks, ps', s') \<Rightarrow>
                                            Some (case r of Inl e \<Rightarrow> Inl (Persist e) | Inr u \<Rightarrow> Inr (),
                                                  tasks, ow1\<lparr>ow_wal := wal, ow_persister_state := ps'\<rparr>, s')))))"

section \<open>The record and the history\<close>

text \<open>The owner's state agrees with its manifests: the file list is what the history left, and the
  allocators are ahead of it.\<close>

definition owner_at :: "('s, 'b) persister \<Rightarrow> (obj_path \<rightharpoonup> 'b stored_object) \<Rightarrow> persisted_snapshot list \<Rightarrow> owner \<Rightarrow> bool" where
  "owner_at pe c h ow \<longleftrightarrow>
     manifests_in pe c (rev h) \<and> history_sane h \<and> lists_history (pi_files (ow_persisted_files ow)) h \<and>
     (\<forall>x \<in> set h. ps_snapshot_sequence_number x \<le> wal_last_snapshot_sequence_number (ow_wal ow)) \<and>
     (\<forall>x \<in> additions h \<union> removals h. gid x < ow_next_file_id ow)"

lemma compaction_snapshot_files:
  "added_files (compaction_snapshot node nf sq w cat n m rs) = [(cn_db_id n, cn_table_id n, m)]"
  "removed_files (compaction_snapshot node nf sq w cat n m rs) = map (\<lambda>f. (cn_db_id n, cn_table_id n, f)) rs"
  "snapshot_wf (compaction_snapshot node nf sq w cat n m rs)"
  "ps_snapshot_sequence_number (compaction_snapshot node nf sq w cat n m rs) = sq"
  "ps_next_file_id (compaction_snapshot node nf sq w cat n m rs) = nf"
  by (simp_all add: compaction_snapshot_def added_files_def removed_files_def tm_items_def snapshot_wf_def tm_wf_def
      PersistedSnapshot_new_def ParquetFileId_next_id_def)

lemma additions_gid_inj:
  assumes "history_sane h" and "x \<in> additions h" and "y \<in> additions h" and "gid x = gid y"
  shows "x = y"
proof -
  have "distinct (map gid (concat (map added_files h)))" using assms(1) by (simp only: history_sane_def)
  then have inj: "inj_on gid (set (concat (map added_files h)))" by (simp only: distinct_map)
  have "x \<in> set (concat (map added_files h))" "y \<in> set (concat (map added_files h))"
    using assms(2,3) by (simp_all add: additions_def)
  from inj_onD [OF inj assms(4) this] show ?thesis .
qed

text \<open>A manifest that adds one file with a fresh identifier and removes listed files of the same table
  extends a sane history.\<close>

lemma history_sane_record:
  assumes sane: "history_sane h" and wf: "snapshot_wf x" and add: "added_files x = [(d, t, m)]"
    and rem: "removed_files x = map (\<lambda>f. (d, t, f)) rs" and listed: "\<forall>f \<in> set rs. (d, t, f) \<in> left_by h"
    and fresh: "\<forall>y \<in> additions h \<union> removals h. gid y < pf_id m"
  shows "history_sane (h @ [x])"
proof -
  have old: "\<forall>y \<in> additions h. gid y \<noteq> pf_id m" "\<forall>y \<in> removals h. gid y \<noteq> pf_id m"
    using fresh by (auto simp: less_imp_neq)
  have rs: "\<forall>f \<in> set rs. (d, t, f) \<in> additions h" using listed left_by_additions by blast
  have rs_old: "\<forall>f \<in> set rs. pf_id f \<noteq> pf_id m" using rs old(1) by fastforce
  have adds: "set (concat (map added_files h)) = additions h" by (simp add: additions_def)
  have "distinct (map gid (concat (map added_files h)))" using sane by (simp only: history_sane_def)
  moreover have "pf_id m \<notin> gid ` set (concat (map added_files h))" unfolding adds using old(1) by (auto simp: image_iff)
  ultimately have dist: "distinct (map gid (concat (map added_files (h @ [x]))))" using add by simp
  have order: "sorted_wrt (\<lambda>s s'. gid ` set (removed_files s) \<inter> gid ` set (added_files s') = {}) (h @ [x])"
    unfolding sorted_wrt_append
  proof (intro conjI ballI)
    show "sorted_wrt (\<lambda>s s'. gid ` set (removed_files s) \<inter> gid ` set (added_files s') = {}) h"
      using sane by (simp only: history_sane_def)
    fix s s'
    assume "s \<in> set h" "s' \<in> set [x]"
    then have "set (removed_files s) \<subseteq> removals h" "s' = x" by (auto simp: removals_def)
    moreover have "pf_id m \<notin> gid ` set (removed_files s)"
    proof
      assume "pf_id m \<in> gid ` set (removed_files s)"
      then obtain r where "r \<in> set (removed_files s)" "pf_id m = gid r" by (rule imageE)
      then show False using old(2) calculation(1) by (metis subsetD)
    qed
    ultimately show "gid ` set (removed_files s) \<inter> gid ` set (added_files s') = {}" using add by simp
  qed simp
  have places: "place y = place r" if s: "s \<in> set (h @ [x])" "s' \<in> set (h @ [x])" and y: "y \<in> set (added_files s)"
    and r: "r \<in> set (removed_files s')" and eq: "gid y = gid r" for s s' y r
  proof (cases "s = x \<and> s \<notin> set h")
    case True
    then have m: "gid y = pf_id m" using y add by auto
    have "r \<in> removals h \<or> r \<in> set (removed_files x)" using s(2) r by (auto simp: removals_def)
    then have "gid r \<noteq> pf_id m" using old(2) rs_old rem by auto
    then show ?thesis using m eq by simp
  next
    case False
    then have sh: "s \<in> set h" using s(1) by auto
    then have ya: "y \<in> additions h" using y by (auto simp: additions_def)
    show ?thesis
    proof (cases "s' \<in> set h")
      case True
      then show ?thesis using sane sh y r eq unfolding history_sane_def by blast
    next
      case False
      then obtain f where f: "f \<in> set rs" "r = (d, t, f)" using s(2) r rem by auto
      then have "y = r" using additions_gid_inj [OF sane ya, of r] rs eq by blast
      then show ?thesis by simp
    qed
  qed
  have "\<forall>s \<in> set (h @ [x]). snapshot_wf s" using sane wf by (simp add: history_sane_def)
  with dist order places show ?thesis unfolding history_sane_def by blast
qed

lemma lists_history_record:
  assumes lists: "lists_history (pi_files p) h" and sane: "history_sane h"
    and new: "pf_path m \<notin> pf_path ` set (tm_get (pi_files p) d t)" and out: "pf_path m \<notin> set paths"
    and app: "apply_compaction d t [m] paths p = ((added, removed), p')"
    and add: "added_files x = [(d, t, m)]" and rem: "removed_files x = map (\<lambda>f. (d, t, f)) removed"
    and fresh: "\<forall>y \<in> additions h \<union> removals h. gid y < pf_id m"
  shows "lists_history (pi_files p') (h @ [x])" and "\<forall>f \<in> set removed. (d, t, f) \<in> left_by h"
proof -
  note e = apply_compaction_effect [OF app]
  let ?fs = "tm_get (pi_files p) d t"
  have removed: "removed = filter (\<lambda>f. pf_path f \<in> set paths) ?fs" using e(2) [OF out] .
  have at: "set ?fs = {f. (d, t, f) \<in> left_by h}" and dist: "distinct (map pf_id ?fs)"
    using lists by (simp_all add: lists_history_def)
  show "\<forall>f \<in> set removed. (d, t, f) \<in> left_by h" using at removed by auto
  have left: "left_by (h @ [x]) = {y \<in> insert (d, t, m) (left_by h). gid y \<notin> pf_id ` set removed}"
    unfolding left_by_snoc leave_def add rem by (auto simp: image_iff)
  have old: "gid y \<noteq> pf_id m" if "y \<in> left_by h" for y
  proof -
    have "y \<in> additions h" using that left_by_additions [of h] by (rule rev_subsetD)
    then have "gid y < pf_id m" using fresh by blast
    then show ?thesis by simp
  qed
  have "pf_id m \<notin> pf_id ` set removed" using at removed old by force
  moreover have inj: "y = (d, t, f)" if "y \<in> left_by h" "f \<in> set removed" "gid y = pf_id f" for y f
  proof (rule additions_gid_inj [OF sane])
    show "y \<in> additions h" using that(1) left_by_additions [of h] by (rule rev_subsetD)
    have "(d, t, f) \<in> left_by h" using that(2) at removed by auto
    then show "(d, t, f) \<in> additions h" using left_by_additions [of h] by (rule rev_subsetD)
  qed (use that(3) in simp)
  ultimately have keep: "left_by (h @ [x]) = insert (d, t, m) {y \<in> left_by h. \<forall>f \<in> set removed. y \<noteq> (d, t, f)}"
  proof -
    have "gid y \<notin> pf_id ` set removed \<longleftrightarrow> (\<forall>f \<in> set removed. y \<noteq> (d, t, f))" if "y \<in> left_by h" for y
      using inj [OF that] by (auto simp: image_iff)
    then show ?thesis unfolding left using \<open>pf_id m \<notin> pf_id ` set removed\<close> by auto
  qed
  show "lists_history (pi_files p') (h @ [x])"
    unfolding lists_history_def
  proof (intro allI)
    fix d' t'
    show "distinct (map pf_id (tm_get (pi_files p') d' t')) \<and>
        set (tm_get (pi_files p') d' t') = {f. (d', t', f) \<in> left_by (h @ [x])}"
    proof (cases "(d', t') = (d, t)")
      case False
      then have "tm_get (pi_files p') d' t' = tm_get (pi_files p) d' t'" by (rule e(4))
      then show ?thesis using False lists unfolding keep lists_history_def by auto
    next
      case True
      have "added = 1" using e(1) new by simp
      then have fs: "tm_get (pi_files p') d t = filter (\<lambda>f. pf_path f \<notin> set paths) ?fs @ [m]" using e(3) [OF out] by simp
      have "pf_id m \<notin> pf_id ` set ?fs" using at old by force
      then have "distinct (map pf_id (filter (\<lambda>f. pf_path f \<notin> set paths) ?fs @ [m]))"
        using distinct_map_filter_keys [OF dist] by auto
      moreover have "set (filter (\<lambda>f. pf_path f \<notin> set paths) ?fs @ [m]) = {f. (d, t, f) \<in> left_by (h @ [x])}"
        unfolding keep removed using at by auto
      ultimately show ?thesis using True fs by simp
    qed
  qed
qed

lemma reserve_sequence:
  "wal_reserve_snapshot_sequence_number w = (sq, w') \<Longrightarrow>
     sq = wal_last_snapshot_sequence_number w + 1 \<and> wal_last_snapshot_sequence_number w' = sq"
  by (auto simp: wal_reserve_snapshot_sequence_number_def reserve_snapshot_sequence_number_def
      increment_snapshot_sequence_number_def wal_last_snapshot_sequence_number_def Let_def)

text \<open>The cases of a record that is not refused.\<close>

lemma record_cases:
  assumes run: "apply_compaction_locally pe now_ms instant n ow s = Some (r, tasks, ow', s')"
    and node: "cn_node_id n = ow_node_id ow"
    and app: "apply_compaction (cn_db_id n) (cn_table_id n) [merged_file n (ow_next_file_id ow)] (cn_removed_paths n)
      (ow_persisted_files ow) = ((added, removed), files)"
  obtains (redelivered) "added = 0" "removed = []" "r = Inr ()" "s' = s"
      "ow' = ow\<lparr>ow_next_file_id := ow_next_file_id ow + 1, ow_persisted_files := files\<rparr>"
  | (recorded) sq wal x rp ps' where "\<not> (added = 0 \<and> removed = [])"
      "wal_reserve_snapshot_sequence_number (ow_wal ow) = (sq, wal)"
      "x = compaction_snapshot (ow_node_id ow) (ow_next_file_id ow + 1) sq (wal_last_persisted_wal_sequence_number wal)
         (ow_catalog_sequence_number ow) n (merged_file n (ow_next_file_id ow)) removed"
      "persist_snapshot pe now_ms instant x (ow_persister_state ow) s = (rp, tasks, ps', s')"
      "r = (case rp of Inl e \<Rightarrow> Inl (Persist e) | Inr u \<Rightarrow> Inr ())"
      "ow' = ow\<lparr>ow_next_file_id := ow_next_file_id ow + 1, ow_persisted_files := files, ow_wal := wal,
         ow_persister_state := ps'\<rparr>"
proof -
  have room: "ow_next_file_id ow < u64_max"
    using run node by (auto simp: apply_compaction_locally_def ParquetFileId_new_def split: if_splits)
  obtain sq wal where res: "wal_reserve_snapshot_sequence_number (ow_wal ow) = (sq, wal)" by fastforce
  define x where "x = compaction_snapshot (ow_node_id ow) (ow_next_file_id ow + 1) sq
      (wal_last_persisted_wal_sequence_number wal) (ow_catalog_sequence_number ow) n (merged_file n (ow_next_file_id ow)) removed"
  obtain rp ts ps1 s1 where per: "persist_snapshot pe now_ms instant x (ow_persister_state ow) s = (rp, ts, ps1, s1)"
    by (metis prod_cases4)
  show thesis
  proof (cases "added = 0 \<and> removed = []")
    case True
    then show thesis using run node room app redelivered
      by (simp add: apply_compaction_locally_def ParquetFileId_new_def Let_def)
  next
    case False
    have "Some (r, tasks, ow', s') = Some (case rp of Inl e \<Rightarrow> Inl (Persist e) | Inr u \<Rightarrow> Inr (), ts,
        ow\<lparr>ow_next_file_id := ow_next_file_id ow + 1, ow_persisted_files := files, ow_wal := wal, ow_persister_state := ps1\<rparr>, s1)"
      using run node room app False res per
      by (simp add: apply_compaction_locally_def ParquetFileId_new_def Let_def x_def)
    then show thesis using recorded [OF False res x_def] per by blast
  qed
qed

lemma owner_at_redelivered:
  assumes "owner_at pe c h ow" and "\<And>d t. tm_get (pi_files files) d t = tm_get (pi_files (ow_persisted_files ow)) d t"
    and "ow_next_file_id ow \<le> nf"
  shows "owner_at pe c h (ow\<lparr>ow_next_file_id := nf, ow_persisted_files := files\<rparr>)"
proof -
  have "gid x < nf" if "x \<in> additions h \<union> removals h" for x
    using assms(1,3) that unfolding owner_at_def by (meson less_le_trans)
  then show ?thesis using assms(1,2) by (simp add: owner_at_def lists_history_def)
qed

lemma owner_at_recorded:
  assumes laws: "object_store_laws (pe_store pe) contents" and at: "owner_at pe (contents s) h ow"
    and app: "apply_compaction d t [m] paths (ow_persisted_files ow) = ((added, removed), files)"
    and new: "pf_path m \<notin> pf_path ` set (tm_get (pi_files (ow_persisted_files ow)) d t)" and out: "pf_path m \<notin> set paths"
    and m: "pf_id m = ow_next_file_id ow" and res: "wal_reserve_snapshot_sequence_number (ow_wal ow) = (sq, wal)"
    and x: "added_files x = [(d, t, m)]" "removed_files x = map (\<lambda>f. (d, t, f)) removed" "snapshot_wf x"
      "ps_snapshot_sequence_number x = sq"
    and per: "persist_snapshot pe now_ms instant x (ow_persister_state ow) s = (Inr (), tasks, ps', s')"
    and codec: "\<And>x json. to_vec_manifest (pe_codec pe) x = Some json \<Longrightarrow> from_slice_manifest (pe_codec pe) json = Some x"
    and room: "wal_last_snapshot_sequence_number (ow_wal ow) < u64_max"
  shows "owner_at pe (contents s') (h @ [x]) (ow\<lparr>ow_next_file_id := ow_next_file_id ow + 1, ow_persisted_files := files,
    ow_wal := wal, ow_persister_state := ps'\<rparr>)"
proof -
  have h: "manifests_in pe (contents s) (rev h)" "history_sane h" "lists_history (pi_files (ow_persisted_files ow)) h"
    "\<forall>x \<in> set h. ps_snapshot_sequence_number x \<le> wal_last_snapshot_sequence_number (ow_wal ow)"
    "\<forall>x \<in> additions h \<union> removals h. gid x < pf_id m"
    using at m by (simp_all add: owner_at_def)
  note sq = reserve_sequence [OF res]
  note lists = lists_history_record [OF h(3,2) new out app x(1,2) h(5)]
  have "manifests_in pe (contents s') (manifest_insert x (rev h))"
    using object_store_laws.persist_manifest [OF laws per refl h(1) _ codec] x(4) sq room by auto
  moreover have "manifest_insert x (rev h) = rev (h @ [x])"
    using h(4) x(4) sq by (simp add: manifest_insert_newest less_Suc_eq_le)
  ultimately have man: "manifests_in pe (contents s') (rev (h @ [x]))" by simp
  have sane: "history_sane (h @ [x])" by (rule history_sane_record [OF h(2) x(3,1,2) lists(2) h(5)])
  have "gid y < ow_next_file_id ow + 1" if "y \<in> additions (h @ [x]) \<union> removals (h @ [x])" for y
  proof -
    have "(d, t, f) \<in> additions h" if "f \<in> set removed" for f using lists(2) left_by_additions that by blast
    then have "y \<in> additions h \<union> removals h \<or> y = (d, t, m)" using that x(1,2) by auto
    then show ?thesis
    proof
      assume "y \<in> additions h \<union> removals h"
      then show ?thesis using h(5) m by (metis less_SucI Suc_eq_plus1)
    qed (simp add: m)
  qed
  then show ?thesis using man sane lists(1) h(4) sq x(4) unfolding owner_at_def by auto
qed

lemma acknowledged_record:
  assumes "object_store_laws (pe_store pe) contents" and at: "owner_at pe (contents s) h ow"
    and "apply_compaction_locally pe now_ms instant n ow s = Some (Inr (), tasks, ow', s')"
    and codec: "\<And>x json. to_vec_manifest (pe_codec pe) x = Some json \<Longrightarrow> from_slice_manifest (pe_codec pe) json = Some x"
    and out: "cn_merged_path n \<notin> set (cn_removed_paths n)"
    and again: "cn_merged_path n \<in> pf_path ` set (tm_get (pi_files (ow_persisted_files ow)) (cn_db_id n) (cn_table_id n)) \<Longrightarrow>
      pf_path ` set (tm_get (pi_files (ow_persisted_files ow)) (cn_db_id n) (cn_table_id n)) \<inter> set (cn_removed_paths n) = {}"
    and room: "wal_last_snapshot_sequence_number (ow_wal ow) < u64_max"
  shows "\<exists>h'. owner_at pe (contents s') h' ow' \<and>
    pf_path ` {f. (cn_db_id n, cn_table_id n, f) \<in> left_by h'} =
      insert (cn_merged_path n) (pf_path ` {f. (cn_db_id n, cn_table_id n, f) \<in> left_by h} - set (cn_removed_paths n))"
proof -
  let ?d = "cn_db_id n" and ?t = "cn_table_id n" and ?paths = "cn_removed_paths n"
  let ?m = "merged_file n (ow_next_file_id ow)" and ?fs = "tm_get (pi_files (ow_persisted_files ow)) (cn_db_id n) (cn_table_id n)"
  have node: "cn_node_id n = ow_node_id ow"
    using assms(3) by (auto simp: apply_compaction_locally_def split: if_splits)
  obtain added removed files where app: "apply_compaction ?d ?t [?m] ?paths (ow_persisted_files ow) = ((added, removed), files)"
    by (metis prod.exhaust)
  have m: "pf_path ?m = cn_merged_path n" "pf_id ?m = ow_next_file_id ow" by (simp_all add: merged_file_def)
  note e = apply_compaction_effect [OF app, unfolded m(1)]
  have fs: "set ?fs = {f. (?d, ?t, f) \<in> left_by h}" using at by (simp add: owner_at_def lists_history_def)
  have swap: "pf_path ` set (tm_get (pi_files files) ?d ?t) = insert (cn_merged_path n) (pf_path ` set ?fs - set ?paths)"
    using e(1) e(3) [OF out] m(1) out by auto
  have "\<exists>h'. owner_at pe (contents s') h' ow'"
  proof (rule record_cases [OF assms(3) node app])
    assume none: "added = 0" "removed = []" and s: "s' = s"
      and ow': "ow' = ow\<lparr>ow_next_file_id := ow_next_file_id ow + 1, ow_persisted_files := files\<rparr>"
    have "cn_merged_path n \<in> pf_path ` set ?fs" using e(1) none(1) by (auto split: if_splits)
    then have "tm_get (pi_files files) d t = tm_get (pi_files (ow_persisted_files ow)) d t" for d t
      using e(3) [OF out] e(4) [of d t] again none(1) by (cases "(d, t) = (?d, ?t)") (auto simp: filter_id_conv)
    then show ?thesis unfolding ow' s using at by (intro exI [of _ h] owner_at_redelivered) simp_all
  next
    fix sq wal x rp ps'
    assume some: "\<not> (added = 0 \<and> removed = [])" and res: "wal_reserve_snapshot_sequence_number (ow_wal ow) = (sq, wal)"
      and x: "x = compaction_snapshot (ow_node_id ow) (ow_next_file_id ow + 1) sq (wal_last_persisted_wal_sequence_number wal)
         (ow_catalog_sequence_number ow) n ?m removed"
      and per: "persist_snapshot pe now_ms instant x (ow_persister_state ow) s = (rp, tasks, ps', s')"
      and r: "Inr () = (case rp of Inl e \<Rightarrow> Inl (Persist e) | Inr u \<Rightarrow> Inr ())"
      and ow': "ow' = ow\<lparr>ow_next_file_id := ow_next_file_id ow + 1, ow_persisted_files := files, ow_wal := wal,
         ow_persister_state := ps'\<rparr>"
    have new: "pf_path ?m \<notin> pf_path ` set ?fs"
    proof
      assume "pf_path ?m \<in> pf_path ` set ?fs"
      then have "added = 0" "pf_path ` set ?fs \<inter> set ?paths = {}" using e(1) again m(1) by simp_all
      then show False using some e(2) [OF out] by (auto simp: filter_empty_conv)
    qed
    have ok: "persist_snapshot pe now_ms instant x (ow_persister_state ow) s = (Inr (), tasks, ps', s')"
      using per r by (cases rp) auto
    show ?thesis unfolding ow'
      using owner_at_recorded [OF assms(1) at app new out [folded m(1)] m(2) res _ _ _ _ ok codec room]
      by (auto simp: x compaction_snapshot_files)
  qed
  then obtain h' where h': "owner_at pe (contents s') h' ow'" by blast
  moreover have "ow_persisted_files ow' = files" by (rule record_cases [OF assms(3) node app]) simp_all
  ultimately have "set (tm_get (pi_files files) ?d ?t) = {f. (?d, ?t, f) \<in> left_by h'}"
    by (simp add: owner_at_def lists_history_def)
  then show ?thesis using h' swap fs by metis
qed

text \<open>A notice whose merge is already in the list.\<close>

lemma redelivered_record:
  assumes run: "apply_compaction_locally pe now_ms instant n ow s = Some (Inr (), tasks, ow', s')"
    and out: "cn_merged_path n \<notin> set (cn_removed_paths n)"
    and listed: "cn_merged_path n \<in> pf_path ` set (tm_get (pi_files (ow_persisted_files ow)) (cn_db_id n) (cn_table_id n))"
    and gone: "pf_path ` set (tm_get (pi_files (ow_persisted_files ow)) (cn_db_id n) (cn_table_id n)) \<inter> set (cn_removed_paths n) = {}"
  shows "s' = s \<and> tm_get (pi_files (ow_persisted_files ow')) d t = tm_get (pi_files (ow_persisted_files ow)) d t"
proof -
  let ?m = "merged_file n (ow_next_file_id ow)" and ?fs = "tm_get (pi_files (ow_persisted_files ow)) (cn_db_id n) (cn_table_id n)"
  have node: "cn_node_id n = ow_node_id ow" using run by (auto simp: apply_compaction_locally_def split: if_splits)
  obtain added removed files where app: "apply_compaction (cn_db_id n) (cn_table_id n) [?m] (cn_removed_paths n) (ow_persisted_files ow) =
      ((added, removed), files)" by (metis prod.exhaust)
  have m: "pf_path ?m = cn_merged_path n" by (simp add: merged_file_def)
  note e = apply_compaction_effect [OF app, unfolded m]
  have none: "added = 0" "removed = []" using e(1) e(2) [OF out] listed gone by (auto simp: filter_empty_conv)
  have same: "tm_get (pi_files files) d t = tm_get (pi_files (ow_persisted_files ow)) d t"
    using e(3) [OF out] e(4) [of d t] gone none(1) by (cases "(d, t) = (cn_db_id n, cn_table_id n)") (auto simp: filter_id_conv)
  show ?thesis by (rule record_cases [OF run node app]) (use none same in simp_all)
qed

section \<open>Claims\<close>

text \<open>Claim C8.  Take an owner whose file list is exactly what its manifests in the object store leave, with the
  allocators ahead of them, and a notice that, if its merged file is already listed, names no input that
  still is.  When the owner acknowledges the notice, its list has the merged file in place of the inputs and
  is again exactly what its manifests in the store leave, so that a restart lists the same files; and if the
  merged file was already listed, neither the store nor the list has changed.  A record whose manifest could
  not be written leaves the owner outside the first condition.\<close>

theorem compaction_record_is_durable:
  assumes "object_store_laws (pe_store pe) contents" and at: "owner_at pe (contents s) h ow"
    and "apply_compaction_locally pe now_ms instant n ow s = Some (Inr (), tasks, ow', s')"
    and codec: "\<And>x json. to_vec_manifest (pe_codec pe) x = Some json \<Longrightarrow> from_slice_manifest (pe_codec pe) json = Some x"
    and out: "cn_merged_path n \<notin> set (cn_removed_paths n)"
    and again: "cn_merged_path n \<in> pf_path ` set (tm_get (pi_files (ow_persisted_files ow)) (cn_db_id n) (cn_table_id n)) \<Longrightarrow>
      pf_path ` set (tm_get (pi_files (ow_persisted_files ow)) (cn_db_id n) (cn_table_id n)) \<inter> set (cn_removed_paths n) = {}"
    and room: "wal_last_snapshot_sequence_number (ow_wal ow) < u64_max"
  shows "(\<exists>h'. owner_at pe (contents s') h' ow' \<and>
      pf_path ` {f. (cn_db_id n, cn_table_id n, f) \<in> left_by h'} =
        insert (cn_merged_path n) (pf_path ` {f. (cn_db_id n, cn_table_id n, f) \<in> left_by h} - set (cn_removed_paths n))) \<and>
    (cn_merged_path n \<in> pf_path ` set (tm_get (pi_files (ow_persisted_files ow)) (cn_db_id n) (cn_table_id n)) \<longrightarrow>
      s' = s \<and> (\<forall>d t. tm_get (pi_files (ow_persisted_files ow')) d t = tm_get (pi_files (ow_persisted_files ow)) d t))"
  using acknowledged_record [OF assms] redelivered_record [OF assms(3) out _ again] by simp

text \<open>Witnesses: a node that has persisted one file, and a notice that replaces it.\<close>

definition record_owner :: owner where
  "record_owner =
     \<lparr>ow_node_id = ''node'', ow_wal = wal_new_without_replay ''node'' wal_config_default None (Some 2) [] 300,
      ow_persisted_files = persisted_files_default\<lparr>pi_files := [(1, [(2, [pf_file 2 ''a'' 3])])]\<rparr>,
      ow_next_file_id = 3, ow_catalog_sequence_number = 1, ow_persister_state = persister_state_new\<rparr>"

definition record_notice :: compaction_notice where
  "record_notice = CompactionNotice_new ''node'' 1 2 (pf_file 0 ''m'' 3) [''a'']"

definition record_store :: "persisted_object mem" where
  "record_store = [(SnapshotInfoFilePath_new ''node'' 2, \<lparr>so_body = Inl restart_old, so_attrs = []\<rparr>)]"

lemma record_wal: "wal_last_snapshot_sequence_number (ow_wal record_owner) = 2"
  by (simp add: record_owner_def wal_last_snapshot_sequence_number_def wal_new_without_replay_def FlushBuffer_new_def
      SnapshotTracker_new_def)

lemma record_files: "tm_get (pi_files (ow_persisted_files record_owner)) 1 2 = [pf_file 2 ''a'' 3]"
  by (simp add: record_owner_def tm_get_def hm_get_def)

lemma record_swap:
  "fst (fst (apply_compaction 1 2 [merged_file record_notice 3] [''a''] (ow_persisted_files record_owner))) = 1"
proof -
  obtain a r p where app: "apply_compaction 1 2 [merged_file record_notice 3] [''a''] (ow_persisted_files record_owner) = ((a, r), p)"
    by (metis prod.exhaust)
  show ?thesis using apply_compaction_effect(1) [OF app] app record_files
    by (simp add: merged_file_def record_notice_def CompactionNotice_new_def)
qed

lemma record_run:
  "\<exists>tasks ow' s'. apply_compaction_locally (mem_persister None) 0 0 record_notice record_owner record_store =
     Some (Inr (), tasks, ow', s')"
  by (simp add: apply_compaction_locally_def record_notice_def record_owner_def CompactionNotice_new_def
      ParquetFileId_new_def u64_max_def Let_def split_beta persist_snapshot_def mem_persister_def plain_codec_def)

lemma record_owner_at: "owner_at (mem_persister None) (map_of record_store) [restart_old] record_owner"
proof -
  have "{p. map_of record_store p \<noteq> None \<and> under (SnapshotInfoFilePath_dir ''node'') p} = {SnapshotInfoFilePath_new ''node'' 2}"
    by (auto simp: record_store_def split: if_splits)
  then have "manifests_in (mem_persister None) (map_of record_store) [restart_old]"
    by (auto simp: manifests_in_def mem_persister_def u64_max_def record_store_def plain_codec_def)
  moreover have files: "added_files restart_old = [(1, 2, pf_file 2 ''a'' 3)]" "removed_files restart_old = []"
    by (simp_all add: restart_old_def pf_snapshot_def PersistedSnapshot_new_def added_files_def removed_files_def tm_items_def)
  moreover have "left_by [restart_old] = {(1, 2, pf_file 2 ''a'' 3)}"
    using left_by_snoc [of "[]" restart_old] files by (auto simp: leave_def left_by_def)
  moreover note record_wal
  moreover have "history_sane [restart_old]" using restart_history by (simp add: history_sane_def)
  ultimately show ?thesis
    by (auto simp: owner_at_def lists_history_def record_owner_def additions_def removals_def tm_get_def hm_get_def)
qed

theorem compaction_record_is_durable_witness:
  "\<exists>tasks ow' s' h'. apply_compaction_locally (mem_persister None) 0 0 record_notice record_owner record_store =
     Some (Inr (), tasks, ow', s') \<and> owner_at (mem_persister None) (map_of s') h' ow' \<and>
     pf_path ` {f. (1, 2, f) \<in> left_by h'} = {''m''}"
proof -
  let ?pe = "mem_persister None"
  obtain tasks ow' s' where run: "apply_compaction_locally ?pe 0 0 record_notice record_owner record_store =
     Some (Inr (), tasks, ow', s')" using record_run by blast
  have "set (tm_get (pi_files (ow_persisted_files record_owner)) 1 2) = {f. (1, 2, f) \<in> left_by [restart_old]}"
    using record_owner_at by (simp add: owner_at_def lists_history_def)
  then have left: "{f. (1, 2, f) \<in> left_by [restart_old]} = {pf_file 2 ''a'' 3}" by (simp only: record_files) simp
  have laws: "object_store_laws (pe_store ?pe) map_of" by (simp add: mem_persister_def mem.object_store_laws_axioms)
  have n: "cn_db_id record_notice = 1" "cn_table_id record_notice = 2" "cn_merged_path record_notice = ''m''"
    "cn_removed_paths record_notice = [''a'']" by (simp_all add: record_notice_def CompactionNotice_new_def)
  have "\<exists>h'. owner_at ?pe (map_of s') h' ow' \<and> pf_path ` {f. (1, 2, f) \<in> left_by h'} =
      insert ''m'' (pf_path ` {f. (1, 2, f) \<in> left_by [restart_old]} - set [''a''])"
    using compaction_record_is_durable [OF laws record_owner_at run, THEN conjunct1] n record_files record_wal
    by (simp add: mem_persister_def plain_codec_def u64_max_def)
  then show ?thesis using run unfolding left by auto
qed

text \<open>When the manifest of a record could not be written, the compactor is told so and sends the
  notice again.  The files have already been swapped in memory, so the second notice finds nothing to
  change and is acknowledged without writing anything: the store is as the failed write left it.\<close>

theorem failed_record_is_acknowledged_on_retry:
  assumes "apply_compaction_locally pe now_ms instant n ow s = Some (Inl (Persist e), tasks, ow1, s1)"
    and "cn_merged_path n \<notin> set (cn_removed_paths n)" and "ow_next_file_id ow1 < u64_max"
  shows "\<exists>ow2. apply_compaction_locally pe now_ms' instant' n ow1 s1 = Some (Inr (), [], ow2, s1)"
proof -
  let ?d = "cn_db_id n" and ?t = "cn_table_id n" and ?paths = "cn_removed_paths n"
  have node: "cn_node_id n = ow_node_id ow"
    using assms(1) by (auto simp: apply_compaction_locally_def split: if_splits)
  obtain added removed files where app:
    "apply_compaction ?d ?t [merged_file n (ow_next_file_id ow)] ?paths (ow_persisted_files ow) = ((added, removed), files)"
    by (metis prod.exhaust)
  have files: "ow_persisted_files ow1 = files" and same: "ow_node_id ow1 = ow_node_id ow"
    by (rule record_cases [OF assms(1) node app]; simp split: sum.splits)+
  have path: "pf_path (merged_file n i) = cn_merged_path n" for i by (simp add: merged_file_def)
  note e = apply_compaction_effect [OF app, unfolded path]
  have listed: "pf_path ` set (tm_get (pi_files files) ?d ?t) =
      insert (cn_merged_path n) (pf_path ` set (tm_get (pi_files (ow_persisted_files ow)) ?d ?t) - set ?paths)"
    using e(1) e(3) [OF assms(2)] assms(2) path by auto
  obtain a2 r2 p2 where app2: "apply_compaction ?d ?t [merged_file n (ow_next_file_id ow1)] ?paths files = ((a2, r2), p2)"
    by (metis prod.exhaust)
  note e2 = apply_compaction_effect [OF app2, unfolded path]
  have "a2 = 0" using e2(1) listed by simp
  moreover have "pf_path ` set (tm_get (pi_files files) ?d ?t) \<inter> set ?paths = {}" unfolding listed using assms(2) by blast
  then have "r2 = []" using e2(2) [OF assms(2)] by (auto simp: filter_empty_conv)
  ultimately show ?thesis
    using node same files app2 assms(3) by (simp add: apply_compaction_locally_def ParquetFileId_new_def Let_def)
qed

definition full_persister :: "(persisted_object mem, persisted_object) persister" where
  "full_persister = (mem_persister None)\<lparr>pe_store := mem_store\<lparr>os_put := (\<lambda>p b m. (Inl (Generic), m))\<rparr>\<rparr>"

theorem failed_record_is_acknowledged_on_retry_witness:
  "\<exists>e ow1 ow2. apply_compaction_locally full_persister 0 0 record_notice record_owner record_store =
       Some (Inl (Persist e), [], ow1, record_store) \<and>
     apply_compaction_locally full_persister 1 1 record_notice ow1 record_store = Some (Inr (), [], ow2, record_store)"
proof -
  have "\<exists>e ow1. apply_compaction_locally full_persister 0 0 record_notice record_owner record_store =
       Some (Inl (Persist e), [], ow1, record_store) \<and> ow_next_file_id ow1 = 4"
    using record_swap
    by (simp add: apply_compaction_locally_def record_notice_def record_owner_def CompactionNotice_new_def
        ParquetFileId_new_def u64_max_def Let_def split_beta persist_snapshot_def full_persister_def mem_persister_def
        plain_codec_def)
  then obtain e ow1 where run: "apply_compaction_locally full_persister 0 0 record_notice record_owner record_store =
       Some (Inl (Persist e), [], ow1, record_store)" and nx: "ow_next_file_id ow1 = 4" by blast
  have "cn_merged_path record_notice \<notin> set (cn_removed_paths record_notice)"
    by (simp add: record_notice_def CompactionNotice_new_def)
  from failed_record_is_acknowledged_on_retry [OF run this, of 1 1] nx run show ?thesis by (auto simp: u64_max_def)
qed

end
