(* ===== verification/Compactor.thy ===== *)
theory Compactor
  imports Merge_Selection Input_Deleter Compaction_Record File_Index
begin

text \<open>
  The compactor (\<open>influxdb3_cluster/src/compactor.rs\<close>): one merge from the catalog lookup to its record
  at the node that owns the files, a pass over all targets, and the loop around it.  The state joins
  the object store, the state of every node that owns files, the queue of merged-away files, and the
  number of clock readings and of calls to peers so far.  The query engine that reads the inputs and
  writes the merged rows, multipart uploads, the hash of the standard library and the network are
  parameters: which call reaches the peer, and whether its answer comes back, is arbitrary.
\<close>

section \<open>State\<close>

datatype compactor_error = Plan | Execute | Write persister_error | Unreachable | RecordLocal compaction_apply_error

datatype delivery = NotDelivered | Delivered | AnswerLost

record ('s, 'b) compactor_args =
  ca_node_id :: node_name
  ca_cluster_id :: string
  ca_config :: compaction_config
  ca_catalog :: membership
  ca_file_index :: file_index
  ca_persisters :: "node_name \<Rightarrow> ('s, 'b) persister"
  ca_compact_self :: bool
  ca_db_known :: "db_id \<Rightarrow> bool"
  ca_table_known :: "db_id \<Rightarrow> table_id \<Rightarrow> bool"
  ca_plan :: "merge_group \<Rightarrow> 's \<Rightarrow> compactor_error option"
  ca_rows :: "merge_group \<Rightarrow> 's \<Rightarrow> persister_error + (nat \<times> 'b)"
  ca_bytes_len :: "'b \<Rightarrow> nat"
  ca_put_multipart :: "nat \<Rightarrow> obj_path \<Rightarrow> 'b \<Rightarrow> ('s, unit) store_op"
  ca_date_string :: "time_ns \<Rightarrow> string"
  ca_hash :: "obj_path list \<Rightarrow> 64 word"
  ca_listening :: "string \<Rightarrow> node_name option"
  ca_delivery :: "nat \<Rightarrow> delivery"
  ca_clock :: "nat \<Rightarrow> time_ns"
  ca_instant :: "nat \<Rightarrow> nat"
  ca_to_vec :: "pending_deletion list \<Rightarrow> 'b option"
  ca_from_slice :: "'b \<Rightarrow> pending_deletion list option"

record 's compactor_state =
  cs_store :: 's
  cs_owners :: "node_name \<Rightarrow> owner"
  cs_queue :: "pending_deletion list"
  cs_reads :: nat
  cs_calls :: nat
  cs_tasks :: "(node_name \<times> persister_task) list"

definition read_clock :: "('s, 'b) compactor_args \<Rightarrow> 's compactor_state \<Rightarrow> time_ns \<times> 's compactor_state" where
  "read_clock args w = (ca_clock args (cs_reads w), w\<lparr>cs_reads := cs_reads w + 1\<rparr>)"

abbreviation own_persister :: "('s, 'b) compactor_args \<Rightarrow> ('s, 'b) persister" where
  "own_persister args \<equiv> ca_persisters args (ca_node_id args)"

definition deleter_of :: "('s, 'b) compactor_args \<Rightarrow> ('s, 'b) input_deleter" where
  "deleter_of args =
     \<lparr>dl_store = pe_store (own_persister args), dl_grace = cf_input_grace (ca_config args),
      dl_cluster_id = ca_cluster_id args, dl_to_vec = ca_to_vec args, dl_from_slice = ca_from_slice args\<rparr>"

section \<open>Writing the merged file\<close>

definition DEFAULT_MULTIPART_CHUNK_SIZE :: nat where
  "DEFAULT_MULTIPART_CHUNK_SIZE = 16 * 1024 * 1024"

definition put_adaptive_impl :: "('s, 'b) compactor_args \<Rightarrow> nat \<Rightarrow> obj_path \<Rightarrow> 'b \<Rightarrow> ('s, unit) store_op" where
  "put_adaptive_impl args chunk_size p b =
     (if ca_bytes_len args b \<le> chunk_size then os_put (pe_store (own_persister args)) p b
      else ca_put_multipart args chunk_size p b)"

text \<open>The rows come from the query engine, and the writer has counted them.\<close>

definition serialize_to_parquet :: "('s, 'b) compactor_args \<Rightarrow> merge_group \<Rightarrow> 's \<Rightarrow> persister_error + (nat \<times> 'b)" where
  "serialize_to_parquet args g s =
     (case ca_rows args g s of
        Inl e \<Rightarrow> Inl e
      | Inr (num_rows, b) \<Rightarrow> if num_rows = 0 then Inl NoRows else Inr (num_rows, b))"

definition persist_parquet_file ::
  "('s, 'b) compactor_args \<Rightarrow> obj_path \<Rightarrow> merge_group \<Rightarrow> 's \<Rightarrow> (persister_error + (nat \<times> nat)) \<times> 's" where
  "persist_parquet_file args p g s =
     (case serialize_to_parquet args g s of
        Inl e \<Rightarrow> (Inl e, s)
      | Inr (num_rows, b) \<Rightarrow>
          (case put_adaptive_impl args DEFAULT_MULTIPART_CHUNK_SIZE p b s of
             (Inl e, s1) \<Rightarrow> (Inl (PersisterStore e), s1)
           | (Inr u, s1) \<Rightarrow> (Inr (ca_bytes_len args b, num_rows), s1)))"

section \<open>Recording the merge\<close>

text \<open>A node records a notice; \<open>None\<close> is its panic.\<close>

definition record_at ::
  "('s, 'b) compactor_args \<Rightarrow> node_name \<Rightarrow> compaction_notice \<Rightarrow> 's compactor_state \<Rightarrow>
   ((compaction_apply_error + unit) \<times> 's compactor_state) option" where
  "record_at args node n w =
     (case read_clock args w of
        (now, w1) \<Rightarrow>
          (case apply_compaction_locally (ca_persisters args node) (now div 1000000) (ca_instant args (cs_reads w1)) n
                  (cs_owners w1 node) (cs_store w1) of
             None \<Rightarrow> None
           | Some (r, tasks, ow, s) \<Rightarrow>
               Some (r, w1\<lparr>cs_store := s, cs_owners := (cs_owners w1)(node := ow),
                         cs_tasks := cs_tasks w1 @ map (Pair node) tasks\<rparr>)))"

text \<open>A call to the node that listens at an address.  A panic of the handler is a failed call.\<close>

definition notify_compaction ::
  "('s, 'b) compactor_args \<Rightarrow> string \<Rightarrow> compaction_notice \<Rightarrow> 's compactor_state \<Rightarrow> bool \<times> 's compactor_state" where
  "notify_compaction args addr n w =
     (let fate = ca_delivery args (cs_calls w); w1 = w\<lparr>cs_calls := cs_calls w + 1\<rparr>
      in if fate = NotDelivered then (False, w1)
         else case ca_listening args addr of
                None \<Rightarrow> (False, w1)
              | Some node \<Rightarrow>
                  (case record_at args node n w1 of
                     None \<Rightarrow> (False, w1)
                   | Some (Inl e, w2) \<Rightarrow> (False, w2)
                   | Some (Inr u, w2) \<Rightarrow> (fate = Delivered, w2)))"

definition notify_owner ::
  "('s, 'b) compactor_args \<Rightarrow> node_name \<Rightarrow> merge_group \<Rightarrow> parquet_file \<Rightarrow> 's compactor_state \<Rightarrow>
   (compactor_error + unit) \<times> 's compactor_state" where
  "notify_owner args peer g merged w =
     (case Option.bind (find (\<lambda>n. nd_node_id n = peer) (resource_iter (mb_nodes (ca_catalog args)))) nd_conn_info of
        None \<Rightarrow> (Inl Unreachable, w)
      | Some addr \<Rightarrow>
          (case notify_compaction args addr
                  (CompactionNotice_new peer (mg_db_id g) (mg_table_id g) merged (map pf_path (mg_inputs g))) w of
             (ok, w1) \<Rightarrow> (if ok then Inr () else Inl Unreachable, w1)))"

definition merged_of :: "('s, 'b) compactor_args \<Rightarrow> node_name \<Rightarrow> merge_group \<Rightarrow> nat \<Rightarrow> nat \<Rightarrow> parquet_file" where
  "merged_of args target g size_bytes row_count =
     \<lparr>pf_id = 0, pf_path = merged_path (ca_date_string args) (ca_hash args) target g, pf_size_bytes = size_bytes,
      pf_row_count = row_count, pf_chunk_time = mg_chunk_time g, pf_min_time = mg_min_time g,
      pf_max_time = mg_max_time g\<rparr>"

definition compact_group ::
  "('s, 'b) compactor_args \<Rightarrow> node_name \<Rightarrow> merge_group \<Rightarrow> 's compactor_state \<Rightarrow>
   ((compactor_error + parquet_file option) \<times> 's compactor_state) option" where
  "compact_group args target g w =
     (if \<not> ca_db_known args (mg_db_id g) then Some (Inr None, w)
      else if \<not> ca_table_known args (mg_db_id g) (mg_table_id g) then Some (Inr None, w)
      else case ca_plan args g (cs_store w) of
             Some e \<Rightarrow> Some (Inl e, w)
           | None \<Rightarrow>
               (case persist_parquet_file args (merged_path (ca_date_string args) (ca_hash args) target g) g (cs_store w) of
                  (Inl NoRows, s1) \<Rightarrow> Some (Inr None, w\<lparr>cs_store := s1\<rparr>)
                | (Inl e, s1) \<Rightarrow> Some (Inl (Write e), w\<lparr>cs_store := s1\<rparr>)
                | (Inr (size_bytes, row_count), s1) \<Rightarrow>
                    (let merged = merged_of args target g size_bytes row_count; w1 = w\<lparr>cs_store := s1\<rparr>
                     in if target = ca_node_id args
                        then (case record_at args target
                                     (CompactionNotice_new target (mg_db_id g) (mg_table_id g) merged
                                        (map pf_path (mg_inputs g))) w1 of
                                None \<Rightarrow> None
                              | Some (Inl e, w2) \<Rightarrow> Some (Inl (RecordLocal e), w2)
                              | Some (Inr u, w2) \<Rightarrow> Some (Inr (Some merged), w2))
                        else (case notify_owner args target g merged w1 of
                                (Inl e, w2) \<Rightarrow> Some (Inl e, w2)
                              | (Inr u, w2) \<Rightarrow> Some (Inr (Some merged), w2)))))"

section \<open>A pass\<close>

definition retire :: "('s, 'b) compactor_args \<Rightarrow> node_name \<Rightarrow> merge_group \<Rightarrow> 's compactor_state \<Rightarrow> 's compactor_state" where
  "retire args target g w =
     (case read_clock args w of
        (now, w1) \<Rightarrow>
          (case schedule (deleter_of args) now target (mg_inputs g) (cs_queue w1) (cs_store w1) of
             (q, s) \<Rightarrow> w1\<lparr>cs_queue := q, cs_store := s\<rparr>))"

fun compact_groups ::
  "('s, 'b) compactor_args \<Rightarrow> node_name \<Rightarrow> merge_group list \<Rightarrow> 's compactor_state \<Rightarrow> 's compactor_state option" where
  "compact_groups args target [] w = Some w"
| "compact_groups args target (g # gs) w =
     (case compact_group args target g w of
        None \<Rightarrow> None
      | Some (Inr (Some merged), w1) \<Rightarrow> compact_groups args target gs (retire args target g w1)
      | Some (Inr None, w1) \<Rightarrow> compact_groups args target gs w1
      | Some (Inl e, w1) \<Rightarrow> compact_groups args target gs w1)"

fun compact_tables ::
  "('s, 'b) compactor_args \<Rightarrow> time_ns \<Rightarrow> node_name \<Rightarrow> (db_id \<times> table_id) list \<Rightarrow> 's compactor_state \<Rightarrow>
   's compactor_state option" where
  "compact_tables args cold_before target [] w = Some w"
| "compact_tables args cold_before target ((d, t) # ts) w =
     (let files = files_for_table (ca_file_index args) target d t;
          groups = select_merges d t files cold_before (ca_config args)
      in case compact_groups args target groups w of
           None \<Rightarrow> None
         | Some w1 \<Rightarrow> compact_tables args cold_before target ts w1)"

fun compact_targets ::
  "('s, 'b) compactor_args \<Rightarrow> time_ns \<Rightarrow> node_name list \<Rightarrow> 's compactor_state \<Rightarrow> 's compactor_state option" where
  "compact_targets args cold_before [] w = Some w"
| "compact_targets args cold_before (target # targets) w =
     (case compact_tables args cold_before target (tables_for_node (ca_file_index args) target) w of
        None \<Rightarrow> None
      | Some w1 \<Rightarrow> compact_targets args cold_before targets w1)"

definition pass_targets :: "('s, 'b) compactor_args \<Rightarrow> node_name list" where
  "pass_targets args =
     select_targets (map (\<lambda>n. (nd_node_id n, nd_mode n)) (resource_iter (mb_nodes (ca_catalog args))))
       (ca_node_id args) (ca_compact_self args)"

definition compact_once :: "('s, 'b) compactor_args \<Rightarrow> 's compactor_state \<Rightarrow> 's compactor_state option" where
  "compact_once args w =
     (case read_clock args w of
        (now, w1) \<Rightarrow>
          compact_targets args (i64_wrap (now - i64_wrap (int (cf_min_age (ca_config args))))) (pass_targets args) w1)"

text \<open>The loop: what a new process starts from, and one round.\<close>

definition compactor_start :: "('s, 'b) compactor_args \<Rightarrow> 's compactor_state \<Rightarrow> 's compactor_state" where
  "compactor_start args w =
     (case load_queue (deleter_of args) [] (cs_store w) of (q, s) \<Rightarrow> w\<lparr>cs_queue := q, cs_store := s\<rparr>)"

definition compactor_round :: "('s, 'b) compactor_args \<Rightarrow> 's compactor_state \<Rightarrow> 's compactor_state option" where
  "compactor_round args w =
     (case compact_once args w of
        None \<Rightarrow> None
      | Some w1 \<Rightarrow>
          (case read_clock args w1 of
             (now, w2) \<Rightarrow>
               (case reclaim_due (deleter_of args) now (cs_queue w2) (cs_store w2) of
                  (q, s) \<Rightarrow> Some (w2\<lparr>cs_queue := q, cs_store := s\<rparr>))))"

section \<open>The environment\<close>

text \<open>What the compactor relies on: one store for all nodes, persisters under the names of their nodes,
  encodings that can be read back, and multipart uploads that promise what a plain write promises.\<close>

locale compaction_cluster =
  fixes args :: "('s, 'b) compactor_args"
    and contents :: "'s \<Rightarrow> obj_path \<rightharpoonup> 'b stored_object"
  assumes store_laws: "object_store_laws (pe_store (ca_persisters args node)) contents"
    and prefix: "pe_prefix (ca_persisters args node) = node"
    and manifest_codec: "to_vec_manifest (pe_codec (ca_persisters args node)) x = Some json \<Longrightarrow>
          from_slice_manifest (pe_codec (ca_persisters args node)) json = Some x"
    and queue_codec: "ca_to_vec args l = Some body \<Longrightarrow> ca_from_slice args body = Some l"
    and multipart_ok: "ca_put_multipart args k p b s = (Inr u, s') \<Longrightarrow>
          contents s' = (contents s)(p \<mapsto> \<lparr>so_body = b, so_attrs = []\<rparr>)"
    and multipart_failed: "ca_put_multipart args k p b s = (Inl e, s') \<Longrightarrow>
          contents s' = contents s \<or> contents s' = (contents s)(p \<mapsto> \<lparr>so_body = b, so_attrs = []\<rparr>)"

section \<open>What is written\<close>

text \<open>Objects that a merge writes: they keep everything else and are not the queue.\<close>

definition store_grows ::
  "(obj_path \<rightharpoonup> 'b stored_object) \<Rightarrow> (obj_path \<rightharpoonup> 'b stored_object) \<Rightarrow> bool" where
  "store_grows c c' \<longleftrightarrow> (\<forall>p. c p \<noteq> None \<longrightarrow> c' p \<noteq> None)"

definition numbered :: "obj_path \<Rightarrow> bool" where
  "numbered p \<longleftrightarrow> filename p \<noteq> [] \<and> is_digit (hd (filename p))"

definition writes_numbered ::
  "(obj_path \<rightharpoonup> 'b stored_object) \<Rightarrow> (obj_path \<rightharpoonup> 'b stored_object) \<Rightarrow> bool" where
  "writes_numbered c c' \<longleftrightarrow> store_grows c c' \<and> (\<forall>p. \<not> numbered p \<longrightarrow> c' p = c p)"

lemma writes_numbered_refl [simp]: "writes_numbered c c"
  by (simp add: writes_numbered_def store_grows_def)

lemma writes_numbered_trans: "writes_numbered a b \<Longrightarrow> writes_numbered b c \<Longrightarrow> writes_numbered a c"
  unfolding writes_numbered_def store_grows_def by metis

lemma writes_numbered_put: "numbered p \<Longrightarrow> c' = c \<or> c' = c(p \<mapsto> x) \<Longrightarrow> writes_numbered c c'"
  by (auto simp: writes_numbered_def store_grows_def)

lemma digits_hd: "0 < w \<Longrightarrow> fixed_digits w n \<noteq> [] \<and> is_digit (hd (fixed_digits w n))"
  using fixed_digits_all_digits by (metis length_fixed_digits length_greater_0_conv list.set_sel(1))

lemma manifest_numbered: "numbered (SnapshotInfoFilePath_new h n)"
proof -
  have "filename (SnapshotInfoFilePath_new h n) = fixed_digits 20 (object_store_file_stem n) @ ''.info.json''"
    by (intro filename_in_dir [of _ "h @ ''/snapshots''"])
      (simp_all add: SnapshotInfoFilePath_new_def pad0_fixed stem_less [simplified] fixed_digits_no_slash)
  then show ?thesis using digits_hd [of 20] by (simp add: numbered_def)
qed

lemma checkpoint_numbered: "numbered (SnapshotCheckpointPath_new h ym n)"
proof -
  have "filename (SnapshotCheckpointPath_new h ym n) = fixed_digits 20 (object_store_file_stem n) @ ''.checkpoint.json''"
    by (intro filename_in_dir [of _ "h @ ''/snapshot-checkpoints/'' @ show_year_month ym"])
      (simp_all add: SnapshotCheckpointPath_new_def pad0_fixed stem_less [simplified] fixed_digits_no_slash)
  then show ?thesis using digits_hd [of 20] by (simp add: numbered_def)
qed

lemma pad0_not_Nil: "0 < w \<Longrightarrow> pad0 w n \<noteq> []"
  by (cases "show_nat n") (auto simp: pad0_def Let_def)

lemma merged_numbered: "numbered (merged_path ds hash target g)"
proof -
  have "filename (merged_path ds hash target g) = parquet_name 0 (output_path_discriminator hash g)"
    by (simp only: merged_path_def parquet_filename)
  then show ?thesis
    using pad0_not_Nil [of 10 0] pad0_digits [of 10 0] by (simp add: numbered_def parquet_name_def)
qed

lemma queue_not_numbered: "\<not> numbered (queue_path dl)"
proof -
  have "filename (queue_path dl) = ''pending-deletions.json''"
    by (rule filename_in_dir [of _ "dl_cluster_id dl @ ''/compactor''"]) (simp_all add: queue_path_def)
  then show ?thesis by (simp add: numbered_def is_digit_def)
qed

text \<open>The last character tells a parquet file from the objects of a persister.\<close>

lemma merged_not_persister_object:
  "merged_path ds hash target g \<noteq> SnapshotInfoFilePath_new h n"
  "merged_path ds hash target g \<noteq> SnapshotCheckpointPath_new h ym n"
proof -
  have t: "last (merged_path ds hash target g) = CHR ''t''"
    by (simp add: merged_path_def ParquetFilePath_new_with_chunk_ordinal_def)
  have i: "last (SnapshotInfoFilePath_new h n) = CHR ''n''" by (simp add: SnapshotInfoFilePath_new_def)
  have c: "last (SnapshotCheckpointPath_new h ym n) = CHR ''n''" by (simp add: SnapshotCheckpointPath_new_def)
  show "merged_path ds hash target g \<noteq> SnapshotInfoFilePath_new h n"
  proof
    assume "merged_path ds hash target g = SnapshotInfoFilePath_new h n"
    from arg_cong [OF this, of last] show False unfolding t i by simp
  qed
  show "merged_path ds hash target g \<noteq> SnapshotCheckpointPath_new h ym n"
  proof
    assume "merged_path ds hash target g = SnapshotCheckpointPath_new h ym n"
    from arg_cong [OF this, of last] show False unfolding t c by simp
  qed
qed

lemma merged_not_manifest: "\<not> under (SnapshotInfoFilePath_dir target) (merged_path ds hash target g)"
  by (simp add: under_def SnapshotInfoFilePath_dir_def merged_path_def ParquetFilePath_new_with_chunk_ordinal_def)

context compaction_cluster
begin

lemma put_adaptive_outcome:
  assumes "put_adaptive_impl args k p b s = (r, s')"
  shows "contents s' = (contents s)(p \<mapsto> \<lparr>so_body = b, so_attrs = []\<rparr>) \<or> (\<exists>e. r = Inl e) \<and> contents s' = contents s"
  using assms object_store_laws.put_outcome [OF store_laws] multipart_ok multipart_failed
  by (cases r) (fastforce simp: put_adaptive_impl_def split: if_splits)+

lemma persist_file_writes:
  assumes "persist_parquet_file args p g s = (r, s')" and "numbered p"
  shows "writes_numbered (contents s) (contents s')"
proof (cases "serialize_to_parquet args g s")
  case (Inr x)
  obtain r1 s1 where put: "put_adaptive_impl args DEFAULT_MULTIPART_CHUNK_SIZE p (snd x) s = (r1, s1)" by fastforce
  then have "s' = s1" using assms(1) Inr by (auto simp: persist_parquet_file_def split: sum.splits prod.splits)
  then show ?thesis using put_adaptive_outcome [OF put] assms(2) writes_numbered_put by blast
qed (use assms in \<open>simp add: persist_parquet_file_def\<close>)

lemma persist_file_ok:
  assumes "persist_parquet_file args p g s = (Inr (z, n), s')"
  shows "\<exists>b. serialize_to_parquet args g s = Inr (n, b) \<and> z = ca_bytes_len args b \<and>
    contents s' = (contents s)(p \<mapsto> \<lparr>so_body = b, so_attrs = []\<rparr>)"
proof (cases "serialize_to_parquet args g s")
  case (Inr x)
  obtain n' b where x: "x = (n', b)" by fastforce
  obtain r1 s1 where put: "put_adaptive_impl args DEFAULT_MULTIPART_CHUNK_SIZE p b s = (r1, s1)" by fastforce
  have "z = ca_bytes_len args b" "n = n'" "s' = s1" "\<exists>u. r1 = Inr u"
    using assms Inr x put by (auto simp: persist_parquet_file_def split: sum.splits)
  then show ?thesis using Inr x put_adaptive_outcome [OF put] by auto
qed (use assms in \<open>simp add: persist_parquet_file_def\<close>)

text \<open>What a persister writes when it records a manifest.\<close>

lemma persist_checkpoint_writes:
  assumes "persist_checkpoint (ca_persisters args node) cp s = (r, tasks, s')"
  shows "\<exists>ym k. contents s' = contents s \<or> (\<exists>x. contents s' = (contents s)(SnapshotCheckpointPath_new node ym k \<mapsto> x))"
proof (cases "to_vec_checkpoint (pe_codec (ca_persisters args node)) cp")
  case (Some json)
  let ?p = "SnapshotCheckpointPath_new node (cp_year_month cp) (cp_last_snapshot_sequence_number cp)"
  obtain r1 s1 where put: "os_put (pe_store (ca_persisters args node)) ?p json s = (r1, s1)" by fastforce
  then have "s' = s1" using assms Some prefix [of node] by (auto simp: persist_checkpoint_def split: sum.splits prod.splits)
  then show ?thesis using object_store_laws.put_outcome [OF store_laws put] by blast
qed (use assms in \<open>simp add: persist_checkpoint_def\<close>)

lemma persist_snapshot_writes:
  assumes run: "persist_snapshot (ca_persisters args node) now_ms instant x ps s = (r, tasks, ps', s')"
  shows "writes_numbered (contents s) (contents s')"
    and "contents s' (merged_path ds hash target g) = contents s (merged_path ds hash target g)"
proof -
  let ?m = "SnapshotInfoFilePath_new node (ps_snapshot_sequence_number x)"
  have "\<exists>c ym k. (c = contents s \<or> (\<exists>y. c = (contents s)(?m \<mapsto> y))) \<and>
      (contents s' = c \<or> (\<exists>y. contents s' = c(SnapshotCheckpointPath_new node ym k \<mapsto> y)))"
  proof (cases "to_vec_manifest (pe_codec (ca_persisters args node)) x")
    case None
    then show ?thesis using run by (auto simp: persist_snapshot_def)
  next
    case (Some json)
    obtain r1 s1 where put: "os_put (pe_store (ca_persisters args node)) ?m json s = (r1, s1)" by fastforce
    have one: "contents s1 = contents s \<or> (\<exists>y. contents s1 = (contents s)(?m \<mapsto> y))"
      using object_store_laws.put_outcome [OF store_laws put] by blast
    have "s' = s1 \<or> (\<exists>cp r2 ts2. persist_checkpoint (ca_persisters args node) cp s1 = (r2, ts2, s'))"
      using run put Some prefix [of node]
      by (auto simp: persist_snapshot_def split: sum.splits prod.splits if_splits option.splits)
    then have "\<exists>ym k. contents s' = contents s1 \<or> (\<exists>y. contents s' = (contents s1)(SnapshotCheckpointPath_new node ym k \<mapsto> y))"
      using persist_checkpoint_writes by blast
    with one show ?thesis by blast
  qed
  then obtain c ym k where c: "c = contents s \<or> (\<exists>y. c = (contents s)(?m \<mapsto> y))"
    and c': "contents s' = c \<or> (\<exists>y. contents s' = c(SnapshotCheckpointPath_new node ym k \<mapsto> y))" by blast
  have "writes_numbered (contents s) c" using writes_numbered_put [OF manifest_numbered] c by blast
  moreover have "writes_numbered c (contents s')" using writes_numbered_put [OF checkpoint_numbered] c' by blast
  ultimately show "writes_numbered (contents s) (contents s')" by (rule writes_numbered_trans)
  show "contents s' (merged_path ds hash target g) = contents s (merged_path ds hash target g)"
    using c c' merged_not_persister_object by (auto split: if_splits)
qed

lemma apply_locally_writes:
  assumes run: "apply_compaction_locally (ca_persisters args node) now_ms instant n ow s = Some (r, tasks, ow', s')"
  shows "writes_numbered (contents s) (contents s')"
    and "contents s' (merged_path ds hash target g) = contents s (merged_path ds hash target g)"
proof -
  have "s' = s \<or> (\<exists>x ps0 r0 ts0 ps1. persist_snapshot (ca_persisters args node) now_ms instant x ps0 s = (r0, ts0, ps1, s'))"
  proof (cases "cn_node_id n = ow_node_id ow")
    case True
    obtain added removed files where app: "apply_compaction (cn_db_id n) (cn_table_id n) [merged_file n (ow_next_file_id ow)]
        (cn_removed_paths n) (ow_persisted_files ow) = ((added, removed), files)" by (metis prod.exhaust)
    show ?thesis by (rule record_cases [OF run True app]) blast+
  qed (use run in \<open>simp add: apply_compaction_locally_def\<close>)
  then show "writes_numbered (contents s) (contents s')"
    "contents s' (merged_path ds hash target g) = contents s (merged_path ds hash target g)"
    using persist_snapshot_writes by fastforce+
qed

lemma record_at_writes:
  assumes "record_at args node n w = Some (r, w')"
  shows "writes_numbered (contents (cs_store w)) (contents (cs_store w'))" and "cs_queue w' = cs_queue w"
    and "contents (cs_store w') (merged_path ds hash target g) = contents (cs_store w) (merged_path ds hash target g)"
  using assms apply_locally_writes
  by (fastforce simp: record_at_def read_clock_def split: option.splits prod.splits)+

lemma notify_compaction_writes:
  assumes "notify_compaction args addr n w = (ok, w')"
  shows "writes_numbered (contents (cs_store w)) (contents (cs_store w'))" and "cs_queue w' = cs_queue w"
  using assms record_at_writes [where w = "w\<lparr>cs_calls := cs_calls w + 1\<rparr>"]
  by (fastforce simp: notify_compaction_def Let_def split: if_splits option.splits prod.splits sum.splits)+

lemma compact_group_writes:
  assumes "compact_group args target g w = Some (r, w')"
  shows "writes_numbered (contents (cs_store w)) (contents (cs_store w')) \<and> cs_queue w' = cs_queue w"
proof -
  let ?p = "merged_path (ca_date_string args) (ca_hash args) target g"
  obtain r1 s1 where wr: "persist_parquet_file args ?p g (cs_store w) = (r1, s1)" by fastforce
  have one: "writes_numbered (contents (cs_store w)) (contents s1)" by (rule persist_file_writes [OF wr merged_numbered])
  let ?w1 = "w\<lparr>cs_store := s1\<rparr>"
  have "w' = w \<or> w' = ?w1 \<or> (\<exists>n r2. record_at args target n ?w1 = Some (r2, w')) \<or>
      (\<exists>addr n ok. notify_compaction args addr n ?w1 = (ok, w'))"
    using assms wr
    by (auto simp: compact_group_def notify_owner_def Let_def split: if_splits option.splits sum.splits prod.splits persister_error.splits)
  then show ?thesis
    using one record_at_writes [where w = ?w1] notify_compaction_writes [where w = ?w1] writes_numbered_trans [OF one]
    by fastforce
qed

text \<open>An acknowledged merge was written and recorded by some node.\<close>

lemma acknowledged_cases:
  assumes "compact_group args target g w = Some (Inr (Some merged), w')"
  obtains s1 z rows w1 node where
    "persist_parquet_file args (merged_path (ca_date_string args) (ca_hash args) target g) g (cs_store w) = (Inr (z, rows), s1)"
    "merged = merged_of args target g z rows" "cs_store w1 = s1" "cs_owners w1 = cs_owners w"
    "record_at args node (CompactionNotice_new target (mg_db_id g) (mg_table_id g) merged (map pf_path (mg_inputs g))) w1 =
       Some (Inr (), w')"
proof -
  let ?p = "merged_path (ca_date_string args) (ca_hash args) target g"
  let ?n = "\<lambda>m. CompactionNotice_new target (mg_db_id g) (mg_table_id g) m (map pf_path (mg_inputs g))"
  obtain r1 s1 where wr: "persist_parquet_file args ?p g (cs_store w) = (r1, s1)" by fastforce
  obtain z rows where r1: "r1 = Inr (z, rows)"
    using assms wr by (cases r1) (auto simp: compact_group_def split: if_splits option.splits persister_error.splits)
  let ?w1 = "w\<lparr>cs_store := s1\<rparr>" and ?m = "merged_of args target g z rows"
  have "(target = ca_node_id args \<and> merged = ?m \<and> record_at args target (?n ?m) ?w1 = Some (Inr (), w')) \<or>
      (merged = ?m \<and> notify_owner args target g ?m ?w1 = (Inr (), w'))"
    using assms wr r1 by (auto simp: compact_group_def Let_def split: if_splits option.splits sum.splits prod.splits)
  then show thesis
  proof
    assume near: "target = ca_node_id args \<and> merged = ?m \<and> record_at args target (?n ?m) ?w1 = Some (Inr (), w')"
    show thesis by (rule that [OF wr [unfolded r1], of ?w1 target]) (use near in auto)
  next
    assume far: "merged = ?m \<and> notify_owner args target g ?m ?w1 = (Inr (), w')"
    then obtain addr where "notify_compaction args addr (?n ?m) ?w1 = (True, w')"
      by (auto simp: notify_owner_def split: option.splits prod.splits if_splits)
    then obtain node where "record_at args node (?n ?m) (?w1\<lparr>cs_calls := cs_calls ?w1 + 1\<rparr>) = Some (Inr (), w')"
      by (auto simp: notify_compaction_def Let_def split: if_splits option.splits prod.splits sum.splits)
    then show thesis by (intro that [OF wr [unfolded r1], of "?w1\<lparr>cs_calls := cs_calls ?w1 + 1\<rparr>" node]) (use far in auto)
  qed
qed

end

lemma owner_at_frame:
  assumes "owner_at pe c h ow" and "\<And>p. under (manifest_dir pe) p \<Longrightarrow> c' p = c p"
  shows "owner_at pe c' h ow"
proof -
  have "manifests_in pe c' (rev h) = manifests_in pe c (rev h)" by (rule manifests_frame) (rule assms(2))
  then show ?thesis using assms(1) by (simp add: owner_at_def)
qed

lemma record_at_result:
  assumes "record_at args node n w = Some (r, w')"
  obtains now instant tasks where
    "apply_compaction_locally (ca_persisters args node) now instant n (cs_owners w node) (cs_store w) =
       Some (r, tasks, cs_owners w' node, cs_store w')"
    "\<And>m. m \<noteq> node \<Longrightarrow> cs_owners w' m = cs_owners w m"
  using assms by (auto simp: record_at_def read_clock_def split: option.splits prod.splits)

lemma notice_fields:
  "cn_node_id (CompactionNotice_new node d t m ps) = node" "cn_db_id (CompactionNotice_new node d t m ps) = d"
  "cn_table_id (CompactionNotice_new node d t m ps) = t" "cn_merged_path (CompactionNotice_new node d t m ps) = pf_path m"
  "cn_removed_paths (CompactionNotice_new node d t m ps) = ps"
  by (simp_all add: CompactionNotice_new_def)

section \<open>Effects of a pass\<close>

text \<open>
  The merges of a run, one after the other, from a state to a state.  An attempt is the node, the group and, where
  the merge counts as done, the time read for the retirement of its inputs, which is the next reading of the
  clock after the acknowledgement.
\<close>

type_synonym merge_attempt = "node_name \<times> merge_group \<times> time_ns option"

inductive merge_run ::
  "('s, 'b) compactor_args \<Rightarrow> 's compactor_state \<Rightarrow> merge_attempt list \<Rightarrow> 's compactor_state \<Rightarrow> bool" for args where
  finished: "merge_run args w [] w"
| merged: "compact_group args target g w = Some (Inr (Some merged), w1) \<Longrightarrow> merge_run args (retire args target g w1) as w' \<Longrightarrow>
    merge_run args w ((target, g, Some (ca_clock args (cs_reads w1))) # as) w'"
| skipped: "compact_group args target g w = Some (Inr None, w1) \<Longrightarrow> merge_run args w1 as w' \<Longrightarrow>
    merge_run args w ((target, g, None) # as) w'"
| failed: "compact_group args target g w = Some (Inl e, w1) \<Longrightarrow> merge_run args w1 as w' \<Longrightarrow>
    merge_run args w ((target, g, None) # as) w'"

definition retired :: "merge_attempt list \<Rightarrow> retirement set" where
  "retired as = {(t, target, pf_path f) |t target g f. (target, g, Some t) \<in> set as \<and> f \<in> set (mg_inputs g)}"

text \<open>The groups that a pass may merge.\<close>

definition candidate :: "('s, 'b) compactor_args \<Rightarrow> time_ns \<Rightarrow> node_name \<Rightarrow> merge_group \<Rightarrow> bool" where
  "candidate args cold_before target g \<longleftrightarrow>
     (\<exists>d t. (d, t) \<in> set (tables_for_node (ca_file_index args) target) \<and>
        g \<in> set (select_merges d t (files_for_table (ca_file_index args) target d t) cold_before (ca_config args)))"

lemma retired_simps [simp]:
  "retired [] = {}" "retired ((target, g, None) # as) = retired as"
  "retired ((target, g, Some t) # as) = {(t, target, pf_path f) |f. f \<in> set (mg_inputs g)} \<union> retired as"
  by (auto simp: retired_def)

lemma merge_run_trans: "merge_run args a as b \<Longrightarrow> merge_run args b bs c \<Longrightarrow> merge_run args a (as @ bs) c"
  by (induction rule: merge_run.induct) (auto intro: merge_run.intros)

lemma compact_groups_run:
  "compact_groups args target gs w = Some w' \<Longrightarrow>
     \<exists>as. merge_run args w as w' \<and> list_all (\<lambda>(n, g, t). n = target \<and> g \<in> set gs) as"
proof (induction gs arbitrary: w)
  case Nil
  then show ?case by (auto intro: merge_run.finished)
next
  case (Cons g gs)
  have weaken: "list_all (\<lambda>(n, g', t). n = target \<and> g' \<in> set (g # gs)) ((target, g, x) # as)"
    if "list_all (\<lambda>(n, g', t). n = target \<and> g' \<in> set gs) as" for as x
    using that by (auto simp: list_all_iff)
  obtain r w1 where g: "compact_group args target g w = Some (r, w1)"
    using Cons.prems by (cases "compact_group args target g w") auto
  show ?case
  proof (cases r)
    case (Inl e)
    then have "compact_groups args target gs w1 = Some w'" using Cons.prems g by simp
    then obtain as where "merge_run args w1 as w'" "list_all (\<lambda>(n, g, t). n = target \<and> g \<in> set gs) as"
      using Cons.IH by blast
    then show ?thesis by (intro exI conjI) (rule merge_run.failed [OF g [unfolded Inl]], assumption, rule weaken)
  next
    case r: (Inr x)
    show ?thesis
    proof (cases x)
      case None
      then have "compact_groups args target gs w1 = Some w'" using Cons.prems g r by simp
      then obtain as where "merge_run args w1 as w'" "list_all (\<lambda>(n, g, t). n = target \<and> g \<in> set gs) as"
        using Cons.IH by blast
      then show ?thesis by (intro exI conjI) (rule merge_run.skipped [OF g [unfolded r None]], assumption, rule weaken)
    next
      case (Some merged)
      then have "compact_groups args target gs (retire args target g w1) = Some w'" using Cons.prems g r by simp
      then obtain as where "merge_run args (retire args target g w1) as w'" "list_all (\<lambda>(n, g, t). n = target \<and> g \<in> set gs) as"
        using Cons.IH by blast
      then show ?thesis by (intro exI conjI) (rule merge_run.merged [OF g [unfolded r Some]], assumption, rule weaken)
    qed
  qed
qed

lemma compact_tables_run:
  "compact_tables args cold target ts w = Some w' \<Longrightarrow> set ts \<subseteq> set (tables_for_node (ca_file_index args) target) \<Longrightarrow>
     \<exists>as. merge_run args w as w' \<and> list_all (\<lambda>(n, g, t). n = target \<and> candidate args cold target g) as"
proof (induction ts arbitrary: w)
  case Nil
  then show ?case by (auto intro: merge_run.finished)
next
  case (Cons x ts)
  obtain d t where x: "x = (d, t)" by fastforce
  let ?gs = "select_merges d t (files_for_table (ca_file_index args) target d t) cold (ca_config args)"
  obtain w1 where run: "compact_groups args target ?gs w = Some w1" "compact_tables args cold target ts w1 = Some w'"
    using Cons.prems(1) x by (auto simp: Let_def split: option.splits)
  obtain as where as: "merge_run args w as w1" "list_all (\<lambda>(n, g, t). n = target \<and> g \<in> set ?gs) as"
    using compact_groups_run [OF run(1)] by blast
  obtain bs where bs: "merge_run args w1 bs w'" "list_all (\<lambda>(n, g, t). n = target \<and> candidate args cold target g) bs"
    using Cons.IH [OF run(2)] Cons.prems(2) by auto
  have "list_all (\<lambda>(n, g, t). n = target \<and> candidate args cold target g) as"
    using as(2) Cons.prems(2) x unfolding list_all_iff candidate_def by fastforce
  then show ?case using merge_run_trans [OF as(1) bs(1)] bs(2) by (intro exI [of _ "as @ bs"]) simp
qed

lemma compact_targets_run:
  "compact_targets args cold targets w = Some w' \<Longrightarrow>
     \<exists>as. merge_run args w as w' \<and> list_all (\<lambda>(n, g, t). n \<in> set targets \<and> candidate args cold n g) as"
proof (induction targets arbitrary: w)
  case Nil
  then show ?case by (auto intro: merge_run.finished)
next
  case (Cons target targets)
  obtain w1 where run: "compact_tables args cold target (tables_for_node (ca_file_index args) target) w = Some w1"
    "compact_targets args cold targets w1 = Some w'" using Cons.prems by (auto split: option.splits)
  obtain as where as: "merge_run args w as w1" "list_all (\<lambda>(n, g, t). n = target \<and> candidate args cold target g) as"
    using compact_tables_run [OF run(1)] by blast
  obtain bs where bs: "merge_run args w1 bs w'" "list_all (\<lambda>(n, g, t). n \<in> set targets \<and> candidate args cold n g) bs"
    using Cons.IH [OF run(2)] by blast
  have "list_all (\<lambda>(n, g, t). n \<in> set (target # targets) \<and> candidate args cold n g) (as @ bs)"
    using as(2) bs(2) by (auto simp: list_all_iff)
  then show ?case using merge_run_trans [OF as(1) bs(1)] by blast
qed

context compaction_cluster
begin

lemma deleter_laws: "object_store_laws (dl_store (deleter_of args)) contents"
  using store_laws by (simp add: deleter_of_def)

lemma compact_group_effect:
  assumes "compact_group args target g w = Some (r, w')"
  shows "store_grows (contents (cs_store w)) (contents (cs_store w'))"
    and "deleter_run (deleter_of args) contents noted (cs_queue w) (cs_store w) \<Longrightarrow>
      deleter_run (deleter_of args) contents noted (cs_queue w') (cs_store w')"
proof -
  note wr = compact_group_writes [OF assms]
  show "store_grows (contents (cs_store w)) (contents (cs_store w'))" using wr by (simp add: writes_numbered_def)
  have "contents (cs_store w') (queue_path (deleter_of args)) = contents (cs_store w) (queue_path (deleter_of args))"
    using wr queue_not_numbered unfolding writes_numbered_def by blast
  then show "deleter_run (deleter_of args) contents noted (cs_queue w) (cs_store w) \<Longrightarrow>
      deleter_run (deleter_of args) contents noted (cs_queue w') (cs_store w')"
    using wr deleter_run.others [of "deleter_of args" contents noted "cs_queue w" "cs_store w" "cs_store w'"] by simp
qed

lemma retire_effect:
  shows "store_grows (contents (cs_store w)) (contents (cs_store (retire args target g w)))"
    and "deleter_run (deleter_of args) contents noted (cs_queue w) (cs_store w) \<Longrightarrow>
      deleter_run (deleter_of args) contents
        (noted \<union> {(ca_clock args (cs_reads w), target, pf_path f) |f. f \<in> set (mg_inputs g)})
        (cs_queue (retire args target g w)) (cs_store (retire args target g w))"
proof -
  let ?now = "ca_clock args (cs_reads w)"
  obtain q s where sch: "schedule (deleter_of args) ?now target (mg_inputs g) (cs_queue w) (cs_store w) = (q, s)" by fastforce
  have w': "cs_queue (retire args target g w) = q" "cs_store (retire args target g w) = s"
    using sch by (simp_all add: retire_def read_clock_def)
  have "s = save_queue (deleter_of args) q (cs_store w)" using sch by (auto simp: schedule_def Let_def)
  then show "store_grows (contents (cs_store w)) (contents (cs_store (retire args target g w)))"
    using save_queue_contents [OF deleter_laws, of q "cs_store w"] unfolding store_grows_def w' by (auto split: if_splits)
  show "deleter_run (deleter_of args) contents noted (cs_queue w) (cs_store w) \<Longrightarrow>
      deleter_run (deleter_of args) contents (noted \<union> {(?now, target, pf_path f) |f. f \<in> set (mg_inputs g)})
        (cs_queue (retire args target g w)) (cs_store (retire args target g w))"
    unfolding w' by (rule deleter_run.scheduled [OF _ sch])
qed

lemma store_grows_trans: "store_grows a b \<Longrightarrow> store_grows b c \<Longrightarrow> store_grows a c" for a b c :: "obj_path \<rightharpoonup> 'b stored_object"
  unfolding store_grows_def by blast

lemma merge_run_effect:
  assumes "merge_run args w as w'"
  shows "store_grows (contents (cs_store w)) (contents (cs_store w')) \<and>
    (deleter_run (deleter_of args) contents noted (cs_queue w) (cs_store w) \<longrightarrow>
     deleter_run (deleter_of args) contents (noted \<union> retired as) (cs_queue w') (cs_store w'))"
  using assms
proof (induction arbitrary: noted)
  case (finished w)
  then show ?case by (simp add: store_grows_def)
next
  case (merged target g w merged w1 as w')
  note one = compact_group_effect [OF merged.hyps(1)] and two = retire_effect [where w = w1 and target = target and g = g]
  show ?case
    unfolding retired_simps Un_assoc [symmetric]
    using store_grows_trans [OF store_grows_trans [OF one(1) two(1)]] two(2) [OF one(2)] merged.IH by blast
next
  case (skipped target g w w1 as w')
  note one = compact_group_effect [OF skipped.hyps(1)]
  show ?case using store_grows_trans [OF one(1)] one(2) skipped.IH by simp
next
  case (failed target g w e w1 as w')
  note one = compact_group_effect [OF failed.hyps(1)]
  show ?case using store_grows_trans [OF one(1)] one(2) failed.IH by simp
qed

end

section \<open>Claims\<close>

text \<open>Claim C36.  A merge that the compactor counts as done is durable at the node that owns the files, whether
  that node is the compactor itself or was called over the network, provided that node's list of files
  was what its manifests leave before the merge, and that it does not list the merged file together
  with inputs of it: afterwards its list of files has the merged file in place of the inputs, it is
  exactly what its manifests in the store leave, so that a restart lists the same files, and the merged
  rows are in the store under the name the list gives.  No other node's list has changed, even when
  another process answers at the node's address.  The first condition fails after a record whose
  manifest could not be written: the repeated notice is then acknowledged with nothing written.\<close>

theorem acknowledged_merges_are_durable:
  assumes env: "compaction_cluster args contents" and ids: "\<forall>n. ow_node_id (cs_owners w n) = n"
    and at: "owner_at (ca_persisters args target) (contents (cs_store w)) h (cs_owners w target)"
    and done': "compact_group args target g w = Some (Inr (Some merged), w')"
    and out: "pf_path merged \<notin> pf_path ` set (mg_inputs g)"
    and again: "pf_path merged \<in> pf_path ` {f. (mg_db_id g, mg_table_id g, f) \<in> left_by h} \<Longrightarrow>
      pf_path ` {f. (mg_db_id g, mg_table_id g, f) \<in> left_by h} \<inter> pf_path ` set (mg_inputs g) = {}"
    and room: "wal_last_snapshot_sequence_number (ow_wal (cs_owners w target)) < u64_max"
  shows "(\<exists>h'. owner_at (ca_persisters args target) (contents (cs_store w')) h' (cs_owners w' target) \<and>
      pf_path ` {f. (mg_db_id g, mg_table_id g, f) \<in> left_by h'} = insert (pf_path merged)
        (pf_path ` {f. (mg_db_id g, mg_table_id g, f) \<in> left_by h} - pf_path ` set (mg_inputs g))) \<and>
    (\<exists>b. ca_rows args g (cs_store w) = Inr (pf_row_count merged, b) \<and> 0 < pf_row_count merged \<and>
      contents (cs_store w') (pf_path merged) = Some \<lparr>so_body = b, so_attrs = []\<rparr>) \<and>
    (\<forall>n. n \<noteq> target \<longrightarrow> cs_owners w' n = cs_owners w n)"
proof -
  let ?p = "merged_path (ca_date_string args) (ca_hash args) target g"
  obtain s1 z rows w1 node where wr: "persist_parquet_file args ?p g (cs_store w) = (Inr (z, rows), s1)"
    and m: "merged = merged_of args target g z rows" and w1: "cs_store w1 = s1" "cs_owners w1 = cs_owners w"
    and rec: "record_at args node (CompactionNotice_new target (mg_db_id g) (mg_table_id g) merged (map pf_path (mg_inputs g))) w1 =
      Some (Inr (), w')" by (rule compaction_cluster.acknowledged_cases [OF env done'])
  obtain b where b: "serialize_to_parquet args g (cs_store w) = Inr (rows, b)"
    "contents s1 = (contents (cs_store w))(?p \<mapsto> \<lparr>so_body = b, so_attrs = []\<rparr>)"
    using compaction_cluster.persist_file_ok [OF env wr] by blast
  have mp: "pf_path merged = ?p" "pf_row_count merged = rows" by (simp_all add: m merged_of_def)
  obtain now instant tasks where
    app: "apply_compaction_locally (ca_persisters args node) now instant
        (CompactionNotice_new target (mg_db_id g) (mg_table_id g) merged (map pf_path (mg_inputs g))) (cs_owners w node) s1 =
      Some (Inr (), tasks, cs_owners w' node, cs_store w')" and others: "\<And>n. n \<noteq> node \<Longrightarrow> cs_owners w' n = cs_owners w n"
    using record_at_result [OF rec] w1 by metis
  have "ow_node_id (cs_owners w node) = target"
    using app by (auto simp: apply_compaction_locally_def notice_fields split: if_splits)
  then have node: "node = target" using ids by simp
  have "owner_at (ca_persisters args target) (contents s1) h (cs_owners w target)"
    using at by (rule owner_at_frame) (use b(2) merged_not_manifest compaction_cluster.prefix [OF env] in auto)
  moreover have "set (tm_get (pi_files (ow_persisted_files (cs_owners w target))) (mg_db_id g) (mg_table_id g)) =
      {f. (mg_db_id g, mg_table_id g, f) \<in> left_by h}" using at by (simp add: owner_at_def lists_history_def)
  ultimately have "\<exists>h'. owner_at (ca_persisters args target) (contents (cs_store w')) h' (cs_owners w' target) \<and>
      pf_path ` {f. (mg_db_id g, mg_table_id g, f) \<in> left_by h'} = insert (pf_path merged)
        (pf_path ` {f. (mg_db_id g, mg_table_id g, f) \<in> left_by h} - pf_path ` set (mg_inputs g))"
    using acknowledged_record [OF compaction_cluster.store_laws [OF env] _ app [unfolded node]
        compaction_cluster.manifest_codec [OF env], unfolded notice_fields set_map] out again room by simp
  moreover have "contents (cs_store w') ?p = contents s1 ?p"
    by (rule compaction_cluster.apply_locally_writes(2) [OF env app])
  moreover have "ca_rows args g (cs_store w) = Inr (rows, b) \<and> 0 < rows"
    using b(1) by (auto simp: serialize_to_parquet_def split: sum.splits if_splits)
  ultimately show ?thesis using b(2) mp others node by auto
qed

text \<open>Witnesses: a cluster of one node in memory that merges two of its own files.\<close>

type_synonym cluster_object = "persisted_object + pending_deletion list"

definition cluster_codec :: "cluster_object snapshot_serde" where
  "cluster_codec =
     \<lparr>to_vec_manifest = (\<lambda>x. Some (Inl (Inl x))),
      from_slice_manifest = (\<lambda>b. case b of Inl (Inl x) \<Rightarrow> Some x | _ \<Rightarrow> None),
      to_vec_checkpoint = (\<lambda>cp. Some (Inl (Inr cp))),
      from_slice_checkpoint = (\<lambda>b. case b of Inl (Inr cp) \<Rightarrow> Some cp | _ \<Rightarrow> None)\<rparr>"

definition cluster_persister :: "node_name \<Rightarrow> (cluster_object mem, cluster_object) persister" where
  "cluster_persister n =
     \<lparr>pe_store = mem_store, pe_codec = cluster_codec, pe_prefix = n, pe_checkpoint_interval = None,
      pe_month_of = (\<lambda>ms. \<lparr>ym_year = 2025, ym_month = 1\<rparr>), pe_last_modified_ms = (\<lambda>p. 7)\<rparr>"

definition merge_inputs :: "parquet_file list" where
  "merge_inputs = [pf_file 1 ''b'' 2, pf_file 2 ''a'' 3]"

definition merge_manifest :: persisted_snapshot where
  "merge_manifest = pf_snapshot 2 merge_inputs []"

definition merge_example :: merge_group where
  "merge_example = \<lparr>mg_db_id = 1, mg_table_id = 2, mg_inputs = merge_inputs\<rparr>"

definition cluster_args :: "(cluster_object mem, cluster_object) compactor_args" where
  "cluster_args =
     \<lparr>ca_node_id = ''node'', ca_cluster_id = ''c'',
      ca_config = \<lparr>cf_interval = 0, cf_min_age = 1, cf_max_input_size_bytes = 100, cf_target_size_bytes = 100,
        cf_max_inputs = 9, cf_input_grace = 50\<rparr>,
      ca_catalog = membership_new member_level,
      ca_file_index = \<lparr>fi_nodes = [(''node'', [(1, [(2, map (\<lambda>f. \<lparr>if_file = f, added_at = 1\<rparr>) merge_inputs)])])],
        fi_sequence = 1, fi_watermarks = [], fi_persisted_max_times = []\<rparr>,
      ca_persisters = cluster_persister, ca_compact_self = True, ca_db_known = (\<lambda>d. True), ca_table_known = (\<lambda>d t. True),
      ca_plan = (\<lambda>g s. None), ca_rows = (\<lambda>g s. Inr (5, Inr [])), ca_bytes_len = (\<lambda>b. 1),
      ca_put_multipart = (\<lambda>k p b. os_put mem_store p b), ca_date_string = (\<lambda>t. ''2025''), ca_hash = (\<lambda>ps. 0),
      ca_listening = (\<lambda>addr. None), ca_delivery = (\<lambda>k. Delivered), ca_clock = (\<lambda>k. 1000), ca_instant = (\<lambda>k. 0),
      ca_to_vec = (\<lambda>l. Some (Inr l)), ca_from_slice = (\<lambda>b. case b of Inl x \<Rightarrow> None | Inr l \<Rightarrow> Some l)\<rparr>"

definition merge_owner :: "node_name \<Rightarrow> owner" where
  "merge_owner n = record_owner\<lparr>ow_node_id := n,
     ow_persisted_files := persisted_files_default\<lparr>pi_files := [(1, [(2, merge_inputs)])]\<rparr>\<rparr>"

definition cluster_start :: "cluster_object mem compactor_state" where
  "cluster_start =
     \<lparr>cs_store = [(SnapshotInfoFilePath_new ''node'' 2, \<lparr>so_body = Inl (Inl merge_manifest), so_attrs = []\<rparr>)],
      cs_owners = merge_owner, cs_queue = [], cs_reads = 0, cs_calls = 0, cs_tasks = []\<rparr>"

lemma mem_put: "os_put mem_store p b m = (Inr (), hm_insert p \<lparr>so_body = b, so_attrs = []\<rparr> m)"
  by (simp add: mem_store_def)

interpretation mc: compaction_cluster cluster_args map_of
  by (rule compaction_cluster.intro)
    (auto simp: cluster_args_def cluster_persister_def cluster_codec_def mem.object_store_laws_axioms mem_put map_of_hm_insert)

lemma merge_owner_at: "owner_at (ca_persisters cluster_args ''node'') (map_of (cs_store cluster_start)) [merge_manifest] (cs_owners cluster_start ''node'')"
proof -
  have "{p. map_of (cs_store cluster_start) p \<noteq> None \<and> under (SnapshotInfoFilePath_dir ''node'') p} = {SnapshotInfoFilePath_new ''node'' 2}"
    by (auto simp: cluster_start_def split: if_splits)
  then have "manifests_in (ca_persisters cluster_args ''node'') (map_of (cs_store cluster_start)) [merge_manifest]"
    by (auto simp: manifests_in_def cluster_args_def cluster_persister_def u64_max_def cluster_start_def cluster_codec_def
        merge_manifest_def pf_snapshot_def PersistedSnapshot_new_def)
  moreover have files: "added_files merge_manifest = [(1, 2, pf_file 1 ''b'' 2), (1, 2, pf_file 2 ''a'' 3)]"
    "removed_files merge_manifest = []"
    by (simp_all add: merge_manifest_def merge_inputs_def pf_snapshot_def PersistedSnapshot_new_def added_files_def
        removed_files_def tm_items_def)
  moreover have "left_by [merge_manifest] = {(1, 2, pf_file 1 ''b'' 2), (1, 2, pf_file 2 ''a'' 3)}"
    using left_by_snoc [of "[]" merge_manifest] files by (auto simp: leave_def left_by_def)
  moreover have "history_sane [merge_manifest]"
    using files by (simp add: history_sane_def snapshot_wf_def tm_wf_def merge_manifest_def pf_snapshot_def
        PersistedSnapshot_new_def pf_file_def)
  moreover have "wal_last_snapshot_sequence_number (ow_wal (cs_owners cluster_start ''node'')) = 2"
    using record_wal by (simp add: cluster_start_def merge_owner_def)
  moreover have "ps_snapshot_sequence_number merge_manifest = 2"
    by (simp add: merge_manifest_def pf_snapshot_def PersistedSnapshot_new_def)
  ultimately show ?thesis
    by (auto simp: owner_at_def lists_history_def merge_owner_def record_owner_def additions_def removals_def tm_get_def
        hm_get_def cluster_start_def merge_inputs_def pf_file_def)
qed

lemma merge_runs:
  "\<exists>merged w. compact_group cluster_args ''node'' merge_example (cluster_start\<lparr>cs_reads := k\<rparr>) = Some (Inr (Some merged), w) \<and>
     cs_queue w = []"
  by (simp add: compact_group_def cluster_args_def persist_parquet_file_def serialize_to_parquet_def put_adaptive_impl_def
      DEFAULT_MULTIPART_CHUNK_SIZE_def record_at_def read_clock_def apply_compaction_locally_def cluster_start_def merge_owner_def
      record_owner_def CompactionNotice_new_def ParquetFileId_new_def u64_max_def Let_def split_beta persist_snapshot_def
      cluster_persister_def cluster_codec_def mem_store_def)

lemma merged_elsewhere: "merged_path ds hash ''node'' g \<notin> {''a'', ''b''}"
  by (simp add: merged_path_def ParquetFilePath_new_with_chunk_ordinal_def)

theorem acknowledged_merges_are_durable_witness:
  "\<exists>merged w h'. compact_group cluster_args ''node'' merge_example cluster_start = Some (Inr (Some merged), w) \<and>
     owner_at (ca_persisters cluster_args ''node'') (map_of (cs_store w)) h' (cs_owners w ''node'') \<and>
     pf_path ` {f. (1, 2, f) \<in> left_by h'} = {pf_path merged} \<and>
     map_of (cs_store w) (pf_path merged) = Some \<lparr>so_body = Inr [], so_attrs = []\<rparr>"
proof -
  obtain merged w where run: "compact_group cluster_args ''node'' merge_example cluster_start = Some (Inr (Some merged), w)"
    using merge_runs [of 0] by (auto simp: cluster_start_def)
  have g: "mg_db_id merge_example = 1" "mg_table_id merge_example = 2" "pf_path ` set (mg_inputs merge_example) = {''b'', ''a''}"
    by (simp_all add: merge_example_def merge_inputs_def pf_file_def)
  have "pf_path merged = merged_path (ca_date_string cluster_args) (ca_hash cluster_args) ''node'' merge_example"
    by (rule mc.acknowledged_cases [OF run]) (simp add: merged_of_def)
  then have m: "pf_path merged \<notin> {''a'', ''b''}" using merged_elsewhere by simp
  have "tm_get (pi_files (ow_persisted_files (cs_owners cluster_start ''node''))) 1 2 = mg_inputs merge_example"
    by (simp add: cluster_start_def merge_owner_def tm_get_def hm_get_def merge_example_def)
  moreover have "set (tm_get (pi_files (ow_persisted_files (cs_owners cluster_start ''node''))) 1 2) =
      {f. (1, 2, f) \<in> left_by [merge_manifest]}" using merge_owner_at by (simp add: owner_at_def lists_history_def)
  ultimately have left: "pf_path ` {f. (1, 2, f) \<in> left_by [merge_manifest]} = {''b'', ''a''}" using g(3) by simp
  have ids: "\<forall>n. ow_node_id (cs_owners cluster_start n) = n" by (simp add: cluster_start_def merge_owner_def)
  have room: "wal_last_snapshot_sequence_number (ow_wal (cs_owners cluster_start ''node'')) < u64_max"
    using record_wal by (simp add: cluster_start_def merge_owner_def u64_max_def)
  have rows: "ca_rows cluster_args merge_example (cs_store cluster_start) = Inr (5, Inr [])" by (simp add: cluster_args_def)
  have out: "pf_path merged \<notin> pf_path ` set (mg_inputs merge_example)" unfolding g(3) using m by blast
  have again: "pf_path ` {f. (mg_db_id merge_example, mg_table_id merge_example, f) \<in> left_by [merge_manifest]} \<inter>
      pf_path ` set (mg_inputs merge_example) = {}"
    if "pf_path merged \<in> pf_path ` {f. (mg_db_id merge_example, mg_table_id merge_example, f) \<in> left_by [merge_manifest]}"
    using that m unfolding g(1,2) left by blast
  note d = acknowledged_merges_are_durable [OF mc.compaction_cluster_axioms ids merge_owner_at run out again room]
  from d obtain h' where h': "owner_at (ca_persisters cluster_args ''node'') (map_of (cs_store w)) h' (cs_owners w ''node'')"
    "pf_path ` {f. (1, 2, f) \<in> left_by h'} = insert (pf_path merged) ({''b'', ''a''} - {''b'', ''a''})"
    unfolding g left by blast
  have "map_of (cs_store w) (pf_path merged) = Some \<lparr>so_body = Inr [], so_attrs = []\<rparr>"
    using d rows by auto
  with h' run show ?thesis by auto
qed

text \<open>Claim C37.  A pass of the compactor that does not panic takes no object from the store.  From its first reading of
  the clock to its end it is a chain of merge attempts, on groups selected from the files the index lists
  for its targets, and it adds to the deletion queue exactly the inputs of those attempts of this chain that
  counted as done, each with the time read right after its acknowledgement; nothing of an attempt that
  failed or had nothing to do is added.\<close>

theorem passes_retire_only_acknowledged_inputs:
  assumes env: "compaction_cluster args contents" and pass: "compact_once args w = Some w'"
    and queue: "deleter_run (deleter_of args) contents noted (cs_queue w) (cs_store w)"
  shows "(\<forall>p. contents (cs_store w) p \<noteq> None \<longrightarrow> contents (cs_store w') p \<noteq> None) \<and>
    (\<exists>as. merge_run args (w\<lparr>cs_reads := cs_reads w + 1\<rparr>) as w' \<and>
      list_all (\<lambda>(target, g, t). target \<in> set (pass_targets args) \<and>
        candidate args (i64_wrap (ca_clock args (cs_reads w) - i64_wrap (int (cf_min_age (ca_config args))))) target g) as \<and>
      deleter_run (deleter_of args) contents (noted \<union> retired as) (cs_queue w') (cs_store w'))"
proof -
  let ?w = "w\<lparr>cs_reads := cs_reads w + 1\<rparr>"
  obtain as where as: "merge_run args ?w as w'" "list_all (\<lambda>(target, g, t). target \<in> set (pass_targets args) \<and>
      candidate args (i64_wrap (ca_clock args (cs_reads w) - i64_wrap (int (cf_min_age (ca_config args))))) target g) as"
    using compact_targets_run pass unfolding compact_once_def read_clock_def prod.case by blast
  have "store_grows (contents (cs_store w)) (contents (cs_store w'))"
    "deleter_run (deleter_of args) contents (noted \<union> retired as) (cs_queue w') (cs_store w')"
    using compaction_cluster.merge_run_effect [OF env as(1), of noted] queue by simp_all
  then show ?thesis using as unfolding store_grows_def by blast
qed

lemma cluster_reads:
  "cs_reads cluster_start = 0" "ca_clock cluster_args k = 1000" "cf_min_age (ca_config cluster_args) = 1"
  by (simp_all add: cluster_start_def cluster_args_def)

lemma cluster_pass:
  "\<exists>merged w. compact_group cluster_args ''node'' merge_example (cluster_start\<lparr>cs_reads := 1\<rparr>) = Some (Inr (Some merged), w) \<and>
     cs_queue w = [] \<and> compact_once cluster_args cluster_start = Some (retire cluster_args ''node'' merge_example w)"
proof -
  obtain merged w where run: "compact_group cluster_args ''node'' merge_example (cluster_start\<lparr>cs_reads := 1\<rparr>) = Some (Inr (Some merged), w)"
    "cs_queue w = []" using merge_runs [of 1] by blast
  have targets: "pass_targets cluster_args = [''node'']" "tables_for_node (ca_file_index cluster_args) ''node'' = [(1, 2)]"
    by (simp_all add: pass_targets_def select_targets_def cluster_args_def membership_new_def repository_new_def resource_iter_def
        tables_for_node_def)
  have "select_merges 1 2 (files_for_table (ca_file_index cluster_args) ''node'' 1 2) 999 (ca_config cluster_args) = [merge_example]"
    by (simp add: cluster_args_def files_for_table_def table_entries_def tm_get_def hm_get_def select_merges_def eligible_def
        merge_inputs_def pf_file_def packs_def pack_step_def u64_add_def merge_example_def)
  then have "compact_once cluster_args cluster_start = Some (retire cluster_args ''node'' merge_example w)"
    using run(1) targets
    by (simp add: compact_once_def read_clock_def i64_wrap_def Let_def cluster_reads)
  then show ?thesis using run by blast
qed

theorem passes_retire_only_acknowledged_inputs_witness:
  "\<exists>w as. compact_once cluster_args cluster_start = Some w \<and> merge_run cluster_args (cluster_start\<lparr>cs_reads := 1\<rparr>) as w \<and>
     deleter_run (deleter_of cluster_args) map_of (retired as) (cs_queue w) (cs_store w) \<and> map pd_path (cs_queue w) = [''b'', ''a'']"
proof -
  obtain w where pass: "compact_once cluster_args cluster_start = Some (retire cluster_args ''node'' merge_example w)"
    and q: "cs_queue w = []" using cluster_pass by blast
  have "map_of (cs_store cluster_start) (queue_path (deleter_of cluster_args)) = None"
  proof -
    have "queue_path (deleter_of cluster_args) \<noteq> SnapshotInfoFilePath_new ''node'' 2"
      using queue_not_numbered manifest_numbered by metis
    then show ?thesis by (simp add: cluster_start_def)
  qed
  from deleter_run.first [where contents = map_of and dl = "deleter_of cluster_args", OF this]
  have "deleter_run (deleter_of cluster_args) map_of {} (cs_queue cluster_start) (cs_store cluster_start)"
    by (simp add: cluster_start_def)
  note passes_retire_only_acknowledged_inputs [OF mc.compaction_cluster_axioms pass this]
  then obtain as where as: "merge_run cluster_args (cluster_start\<lparr>cs_reads := cs_reads cluster_start + 1\<rparr>) as
      (retire cluster_args ''node'' merge_example w)"
    "deleter_run (deleter_of cluster_args) map_of ({} \<union> retired as)
      (cs_queue (retire cluster_args ''node'' merge_example w)) (cs_store (retire cluster_args ''node'' merge_example w))" by blast
  have reads: "cluster_start\<lparr>cs_reads := cs_reads cluster_start + 1\<rparr> = cluster_start\<lparr>cs_reads := 1\<rparr>" by (simp add: cluster_reads)
  have "map pd_path (cs_queue (retire cluster_args ''node'' merge_example w)) = [''b'', ''a'']"
    using q by (simp add: retire_def read_clock_def schedule_def Let_def merge_example_def merge_inputs_def pf_file_def)
  then show ?thesis using pass as(1) [unfolded reads] as(2) [unfolded Un_empty_left] by (intro exI conjI)
qed

end
