(* ===== verification/Table_Buffer.thy ===== *)
theory Table_Buffer
  imports Wal_Types Snapshot_Types
begin

text \<open>
  The rows of a table that are not yet persisted (\<open>influxdb3_write/src/write_buffer/table_buffer.rs\<close>):
  column builders that only grow, the index that finds the row a new one overwrites, the split of a
  chunk whose text columns would become too large, the batches that queries and persisting read, and
  the snapshot that freezes the chunks before a time.  A builder is a typed list of values with nulls;
  the Arrow arrays it is finished into are that list.  The builders of text columns have 32-bit offsets:
  a value that would take them past \<open>i32::MAX\<close> bytes makes them panic.  The keyed hash of a row's identity
  is a parameter.  A panic is \<open>None\<close>.
\<close>

section \<open>Builders\<close>

datatype column_type =
  TimestampColumn | TagColumn | StringColumn | IntegerColumn | UIntegerColumn | FloatColumn | BooleanColumn

fun column_type_of :: "field_data \<Rightarrow> column_type option" where
  "column_type_of (Timestamp v) = Some TimestampColumn"
| "column_type_of (Key v) = None"
| "column_type_of (Tag v) = Some TagColumn"
| "column_type_of (String v) = Some StringColumn"
| "column_type_of (Integer v) = Some IntegerColumn"
| "column_type_of (UInteger v) = Some UIntegerColumn"
| "column_type_of (Float v) = Some FloatColumn"
| "column_type_of (Boolean v) = Some BooleanColumn"

record builder =
  bd_type :: column_type
  bd_values :: "field_data option list"

definition new_null_prefilled :: "column_type \<Rightarrow> nat \<Rightarrow> builder" where
  "new_null_prefilled ty rows = \<lparr>bd_type = ty, bd_values = replicate rows None\<rparr>"

text \<open>
  The text that a builder stores: a string builder has every value one after the other, a dictionary
  builder each distinct value once.  The offsets are 32-bit, and so are the keys of a dictionary.
\<close>

definition ARROW_VAR_COL_MAX_BYTES :: nat where
  "ARROW_VAR_COL_MAX_BYTES = 2 ^ 31 - 1"

definition DICTIONARY_MAX_KEYS :: nat where
  "DICTIONARY_MAX_KEYS = 2 ^ 31"

fun var_bytes :: "field_data \<Rightarrow> nat" where
  "var_bytes (Tag v) = length v"
| "var_bytes (String v) = length v"
| "var_bytes _ = 0"

definition stored_values :: "builder \<Rightarrow> field_data list" where
  "stored_values b =
     (if bd_type b = TagColumn then remdups (List.map_filter id (bd_values b)) else List.map_filter id (bd_values b))"

definition builder_fits :: "builder \<Rightarrow> bool" where
  "builder_fits b \<longleftrightarrow> sum_list (map var_bytes (stored_values b)) \<le> ARROW_VAR_COL_MAX_BYTES \<and>
     (bd_type b = TagColumn \<longrightarrow> length (stored_values b) \<le> DICTIONARY_MAX_KEYS)"

definition builder_append :: "field_data option \<Rightarrow> builder \<Rightarrow> builder option" where
  "builder_append v b =
     (let b1 = b\<lparr>bd_values := bd_values b @ [v]\<rparr> in if builder_fits b1 then Some b1 else None)"

definition builder_read :: "builder \<Rightarrow> nat \<Rightarrow> field_data option" where
  "builder_read b idx = (if bd_type b = TagColumn then None else bd_values b ! idx)"

definition append_copied :: "field_data option \<Rightarrow> builder \<Rightarrow> (builder \<times> nat) option" where
  "append_copied v b =
     (case v of
        None \<Rightarrow> map_option (\<lambda>b1. (b1, 0)) (builder_append None b)
      | Some x \<Rightarrow>
          if column_type_of x = Some (bd_type b) \<and> bd_type b \<noteq> TagColumn
          then map_option (\<lambda>b1. (b1, var_bytes x)) (builder_append (Some x) b) else None)"

section \<open>Chunks\<close>

record mutable_table_chunk =
  mc_timestamp_min :: time_ns
  mc_timestamp_max :: time_ns
  mc_data :: "(column_id, builder) hash_map"
  mc_row_count :: nat
  mc_string_bytes :: "(column_id, nat) hash_map"
  mc_live :: "bool list"
  mc_superseded_count :: nat
  mc_superseded_since_watermark :: "nat option"

definition mutable_table_chunk_new :: mutable_table_chunk where
  "mutable_table_chunk_new =
     \<lparr>mc_timestamp_min = i64_max, mc_timestamp_max = i64_min, mc_data = [], mc_row_count = 0, mc_string_bytes = [],
      mc_live = [], mc_superseded_count = 0, mc_superseded_since_watermark = None\<rparr>"

definition mark_superseded :: "nat \<Rightarrow> mutable_table_chunk \<Rightarrow> mutable_table_chunk" where
  "mark_superseded i c =
     c\<lparr>mc_live := (mc_live c)[i := False], mc_superseded_count := mc_superseded_count c + 1,
       mc_superseded_since_watermark :=
         Some (case mc_superseded_since_watermark c of None \<Rightarrow> i | Some w \<Rightarrow> min w i)\<rparr>"

definition would_exceed_limit_with :: "nat \<Rightarrow> (column_id, nat) hash_map \<Rightarrow> mutable_table_chunk \<Rightarrow> bool" where
  "would_exceed_limit_with limit incoming c =
     list_ex (\<lambda>(col, additional). min u64_max (hm_get 0 (mc_string_bytes c) col + additional) > limit) incoming"

datatype carry_source = CarryNone | CarryLocal nat | CarryForeign mutable_table_chunk nat

fun fold_opt :: "('a \<Rightarrow> 's \<Rightarrow> 's option) \<Rightarrow> 'a list \<Rightarrow> 's \<Rightarrow> 's option" where
  "fold_opt f [] s = Some s"
| "fold_opt f (x # xs) s = (case f x s of None \<Rightarrow> None | Some s1 \<Rightarrow> fold_opt f xs s1)"

text \<open>One field of a row: its column is created with nulls for the earlier rows.\<close>

definition append_field :: "nat \<Rightarrow> field \<Rightarrow> mutable_table_chunk \<Rightarrow> mutable_table_chunk option" where
  "append_field this_row f c =
     (case column_type_of (fld_value f) of
        None \<Rightarrow> None
      | Some ty \<Rightarrow>
          (let c1 = (case fld_value f of
                       Timestamp v \<Rightarrow> c\<lparr>mc_timestamp_min := min (mc_timestamp_min c) v,
                                        mc_timestamp_max := max (mc_timestamp_max c) v\<rparr>
                     | Tag v \<Rightarrow> c\<lparr>mc_string_bytes := hm_upd 0 (fld_id f) (\<lambda>n. n + length v) (mc_string_bytes c)\<rparr>
                     | String v \<Rightarrow> c\<lparr>mc_string_bytes := hm_upd 0 (fld_id f) (\<lambda>n. n + length v) (mc_string_bytes c)\<rparr>
                     | _ \<Rightarrow> c);
               b = (case map_of (mc_data c1) (fld_id f) of None \<Rightarrow> new_null_prefilled ty this_row | Some b \<Rightarrow> b)
           in if bd_type b = ty
              then map_option (\<lambda>b1. c1\<lparr>mc_data := hm_insert (fld_id f) b1 (mc_data c1)\<rparr>)
                     (builder_append (Some (fld_value f)) b)
              else None))"

definition carried_value :: "carry_source \<Rightarrow> column_id \<Rightarrow> builder \<Rightarrow> field_data option" where
  "carried_value carry col b =
     (case carry of
        CarryNone \<Rightarrow> None
      | CarryLocal old \<Rightarrow> builder_read b old
      | CarryForeign src old \<Rightarrow> (case map_of (mc_data src) col of None \<Rightarrow> None | Some sb \<Rightarrow> builder_read sb old))"

definition store_copied :: "column_id \<Rightarrow> field_data option \<Rightarrow> builder \<Rightarrow> mutable_table_chunk \<Rightarrow> mutable_table_chunk option" where
  "store_copied col v b c =
     (case append_copied v b of
        None \<Rightarrow> None
      | Some (b1, copied_bytes) \<Rightarrow>
          Some (c\<lparr>mc_data := hm_insert col b1 (mc_data c),
                  mc_string_bytes := (if copied_bytes > 0 then hm_upd 0 col (\<lambda>n. n + copied_bytes) (mc_string_bytes c)
                                      else mc_string_bytes c)\<rparr>))"

text \<open>A column of the chunk that the row does not provide.\<close>

definition carry_column :: "column_id list \<Rightarrow> carry_source \<Rightarrow> column_id \<Rightarrow> mutable_table_chunk \<Rightarrow> mutable_table_chunk option" where
  "carry_column value_added carry col c =
     (if col \<in> set value_added then Some c
      else case map_of (mc_data c) col of
             None \<Rightarrow> Some c
           | Some b \<Rightarrow> store_copied col (carried_value carry col b) b c)"

text \<open>A column that only the chunk of the replaced row has.\<close>

definition carry_foreign ::
  "nat \<Rightarrow> column_id list \<Rightarrow> nat \<Rightarrow> column_id \<times> builder \<Rightarrow> mutable_table_chunk \<Rightarrow> mutable_table_chunk option" where
  "carry_foreign this_row value_added old x c =
     (case x of
        (col, src) \<Rightarrow>
          if col \<notin> set value_added \<and> map_of (mc_data c) col = None
          then store_copied col (builder_read src old) (new_null_prefilled (bd_type src) this_row) c
          else Some c)"

definition append_row :: "row \<Rightarrow> carry_source \<Rightarrow> mutable_table_chunk \<Rightarrow> (nat \<times> mutable_table_chunk) option" where
  "append_row r carry c =
     (let this_row = mc_row_count c; value_added = map fld_id (row_fields r)
      in case fold_opt (append_field this_row) (row_fields r) c of
           None \<Rightarrow> None
         | Some c1 \<Rightarrow>
             (case fold_opt (carry_column value_added carry) (map fst (mc_data c1)) c1 of
                None \<Rightarrow> None
              | Some c2 \<Rightarrow>
                  (case (case carry of
                           CarryForeign src old \<Rightarrow> fold_opt (carry_foreign this_row value_added old) (mc_data src) c2
                         | _ \<Rightarrow> Some c2) of
                     None \<Rightarrow> None
                   | Some c3 \<Rightarrow> Some (this_row, c3\<lparr>mc_live := mc_live c3 @ [True], mc_row_count := mc_row_count c3 + 1\<rparr>))))"

section \<open>The identity of a row\<close>

type_synonym point = "(column_id \<times> string) list \<times> time_ns"

definition row_tags :: "row \<Rightarrow> (column_id \<times> string) list" where
  "row_tags r =
     sort_key fst (List.map_filter (\<lambda>f. case fld_value f of Tag v \<Rightarrow> Some (fld_id f, v) | _ \<Rightarrow> None) (row_fields r))"

definition point_of :: "row \<Rightarrow> point" where
  "point_of r = (row_tags r, row_time r)"

text \<open>The low bytes of a number, most significant first.\<close>

primrec be_bytes :: "nat \<Rightarrow> nat \<Rightarrow> nat list" where
  "be_bytes 0 n = []"
| "be_bytes (Suc w) n = be_bytes w (n div 256) @ [n mod 256]"

definition key_bytes :: "point \<Rightarrow> nat list" where
  "key_bytes p =
     concat (map (\<lambda>(i, v). be_bytes 2 i @ be_bytes 4 (length v) @ map of_char v) (fst p)) @
     be_bytes 8 (nat (snd p mod 2 ^ 64))"

definition row_key_for :: "(nat list \<Rightarrow> nat) \<Rightarrow> row \<Rightarrow> nat" where
  "row_key_for hash r = hash (key_bytes (point_of r))"

section \<open>Chunks of one chunk time\<close>

record chunk_time_buffer =
  cb_chunks :: "mutable_table_chunk list"
  cb_row_key_to_index :: "(nat, nat \<times> nat) hash_map"

definition chunk_time_buffer_default :: chunk_time_buffer where
  "chunk_time_buffer_default = \<lparr>cb_chunks = [], cb_row_key_to_index = []\<rparr>"

definition add_row :: "(nat list \<Rightarrow> nat) \<Rightarrow> row \<Rightarrow> chunk_time_buffer \<Rightarrow> chunk_time_buffer option" where
  "add_row hash r cb =
     (let last' = length (cb_chunks cb) - 1; row_key = row_key_for hash r; target = cb_chunks cb ! last'
      in case map_of (cb_row_key_to_index cb) row_key of
           None \<Rightarrow>
             map_option (\<lambda>(this_row, c).
                 \<lparr>cb_chunks = (cb_chunks cb)[last' := c],
                  cb_row_key_to_index = hm_insert row_key (last', this_row) (cb_row_key_to_index cb)\<rparr>)
               (append_row r CarryNone target)
         | Some (ci, ri) \<Rightarrow>
             if ci = last'
             then map_option (\<lambda>(this_row, c).
                      \<lparr>cb_chunks = (cb_chunks cb)[last' := mark_superseded ri c],
                       cb_row_key_to_index = hm_insert row_key (last', this_row) (cb_row_key_to_index cb)\<rparr>)
                    (append_row r (CarryLocal ri) target)
             else map_option (\<lambda>(this_row, c).
                      \<lparr>cb_chunks = (cb_chunks cb)[last' := c, ci := mark_superseded ri (cb_chunks cb ! ci)],
                       cb_row_key_to_index = hm_insert row_key (last', this_row) (cb_row_key_to_index cb)\<rparr>)
                    (append_row r (CarryForeign (cb_chunks cb ! ci) ri) target))"

definition add_rows :: "(nat list \<Rightarrow> nat) \<Rightarrow> row list \<Rightarrow> chunk_time_buffer \<Rightarrow> chunk_time_buffer option" where
  "add_rows hash rows cb = fold_opt (add_row hash) rows cb"

section \<open>The buffer of a table\<close>

text \<open>A batch is a list of columns over a number of rows, with the schema it was built for.\<close>

type_synonym batch_schema = "(column_id \<times> column_type) list"

record record_batch =
  rb_schema :: batch_schema
  rb_columns :: "(column_id \<times> field_data option list) list"
  rb_num_rows :: nat

record snapshot_chunk =
  sc_chunk_time :: int
  sc_chunk_ordinal :: nat
  sc_timestamp_min_max :: "time_ns \<times> time_ns"
  sc_record_batch :: record_batch
  sc_schema :: batch_schema

record table_buffer =
  tb_chunk_time_to_chunks :: "(int, chunk_time_buffer) hash_map"
  tb_snapshotting_chunks :: "snapshot_chunk list"

definition table_buffer_new :: table_buffer where
  "table_buffer_new = \<lparr>tb_chunk_time_to_chunks = [], tb_snapshotting_chunks = []\<rparr>"

definition incoming_bytes :: "row list \<Rightarrow> (column_id, nat) hash_map" where
  "incoming_bytes rows =
     foldl (\<lambda>m f. case fld_value f of
                    String v \<Rightarrow> hm_upd 0 (fld_id f) (\<lambda>n. n + length v) m
                  | Tag v \<Rightarrow> hm_upd 0 (fld_id f) (\<lambda>n. n + length v) m
                  | _ \<Rightarrow> m) [] (concat (map row_fields rows))"

definition buffer_rows :: "nat \<Rightarrow> (nat list \<Rightarrow> nat) \<Rightarrow> row list \<Rightarrow> chunk_time_buffer \<Rightarrow> chunk_time_buffer option" where
  "buffer_rows limit hash rows cb =
     (let needs_new_chunk = cb_chunks cb = [] \<or> would_exceed_limit_with limit (incoming_bytes rows) (last (cb_chunks cb))
      in add_rows hash rows
           (if needs_new_chunk then cb\<lparr>cb_chunks := cb_chunks cb @ [mutable_table_chunk_new]\<rparr> else cb))"

definition buffer_chunk :: "(nat list \<Rightarrow> nat) \<Rightarrow> int \<Rightarrow> row list \<Rightarrow> table_buffer \<Rightarrow> table_buffer option" where
  "buffer_chunk hash chunk_time rows tb =
     (let cb = (case map_of (tb_chunk_time_to_chunks tb) chunk_time of
                  None \<Rightarrow> chunk_time_buffer_default | Some cb \<Rightarrow> cb)
      in map_option (\<lambda>cb'. tb\<lparr>tb_chunk_time_to_chunks := hm_insert chunk_time cb' (tb_chunk_time_to_chunks tb)\<rparr>)
           (buffer_rows ARROW_VAR_COL_MAX_BYTES hash rows cb))"

section \<open>Invariants\<close>

text \<open>The value of a row in a column; a column that a chunk does not have is null.\<close>

definition cell :: "mutable_table_chunk \<Rightarrow> column_id \<Rightarrow> nat \<Rightarrow> field_data option" where
  "cell c col i =
     (case map_of (mc_data c) col of None \<Rightarrow> None | Some b \<Rightarrow> if i < length (bd_values b) then bd_values b ! i else None)"

definition chunk_row :: "mutable_table_chunk \<Rightarrow> nat \<Rightarrow> column_id \<rightharpoonup> field_data" where
  "chunk_row c i = (\<lambda>col. cell c col i)"

definition fields_of :: "row \<Rightarrow> column_id \<rightharpoonup> field_data" where
  "fields_of r = map_of (map (\<lambda>f. (fld_id f, fld_value f)) (row_fields r))"

text \<open>The types of the table's columns, and rows as the validator passes them on.\<close>

type_synonym column_types = "column_id \<rightharpoonup> column_type"

definition row_ok :: "column_types \<Rightarrow> row \<Rightarrow> bool" where
  "row_ok ty r \<longleftrightarrow> distinct (map fld_id (row_fields r)) \<and>
     (\<forall>f \<in> set (row_fields r). column_type_of (fld_value f) \<noteq> None \<and> column_type_of (fld_value f) = ty (fld_id f)) \<and>
     (\<exists>col. ty col = Some TimestampColumn) \<and>
     (\<forall>col. ty col = Some TimestampColumn \<longrightarrow> fields_of r col = Some (Timestamp (row_time r)))"

text \<open>A builder under construction: \<open>n\<close> rows, or one more.\<close>

definition builder_ok :: "column_types \<Rightarrow> column_id \<Rightarrow> nat \<Rightarrow> builder \<Rightarrow> bool" where
  "builder_ok ty col n b \<longleftrightarrow> ty col = Some (bd_type b) \<and> length (bd_values b) = n \<and> builder_fits b \<and>
     (\<forall>v \<in> set (bd_values b). \<forall>x. v = Some x \<longrightarrow> column_type_of x = Some (bd_type b))"

definition data_ok :: "column_types \<Rightarrow> nat \<Rightarrow> column_id set \<Rightarrow> (column_id, builder) hash_map \<Rightarrow> bool" where
  "data_ok ty n grown m \<longleftrightarrow> keys_distinct m \<and>
     (\<forall>col b. map_of m col = Some b \<longrightarrow> builder_ok ty col (if col \<in> grown then n + 1 else n) b)"

definition times_ok :: "mutable_table_chunk \<Rightarrow> bool" where
  "times_ok c \<longleftrightarrow>
     (\<forall>col i t. cell c col i = Some (Timestamp t) \<longrightarrow> mc_timestamp_min c \<le> t \<and> t \<le> mc_timestamp_max c)"

text \<open>The text of a column of a chunk, which the chunk counts as it grows.\<close>

definition bytes_of :: "field_data option \<Rightarrow> nat" where
  "bytes_of v = (case v of None \<Rightarrow> 0 | Some x \<Rightarrow> var_bytes x)"

definition chunk_text :: "mutable_table_chunk \<Rightarrow> column_id \<Rightarrow> nat" where
  "chunk_text c col = sum_list (map (\<lambda>i. bytes_of (cell c col i)) [0..<mc_row_count c])"

definition chunk_ok :: "column_types \<Rightarrow> mutable_table_chunk \<Rightarrow> bool" where
  "chunk_ok ty c \<longleftrightarrow> data_ok ty (mc_row_count c) {} (mc_data c) \<and> length (mc_live c) = mc_row_count c \<and>
     mc_superseded_count c = length (filter Not (mc_live c)) \<and> times_ok c \<and>
     (\<forall>col. hm_get 0 (mc_string_bytes c) col = chunk_text c col)"

text \<open>
  A chunk while row \<open>n\<close> is written into it: the columns \<open>G\<close> have the row's value already, the others end
  before it, and nothing else of the chunk has changed.
\<close>

definition grown ::
  "column_types \<Rightarrow> nat \<Rightarrow> (column_id \<rightharpoonup> field_data) \<Rightarrow> mutable_table_chunk \<Rightarrow> column_id set \<Rightarrow> mutable_table_chunk \<Rightarrow> bool"
where
  "grown ty n vals c0 G c \<longleftrightarrow> data_ok ty n G (mc_data c) \<and> dom (map_of (mc_data c)) = dom (map_of (mc_data c0)) \<union> G \<and>
     mc_live c = mc_live c0 \<and> mc_row_count c = mc_row_count c0 \<and> mc_superseded_count c = mc_superseded_count c0 \<and>
     (\<forall>k i. cell c k i = (if i = n \<and> k \<in> G then vals k else cell c0 k i)) \<and> times_ok c \<and>
     (\<forall>k. hm_get 0 (mc_string_bytes c) k = hm_get 0 (mc_string_bytes c0) k + (if k \<in> G then bytes_of (vals k) else 0))"

text \<open>A row that takes the text of some column past the limit.\<close>

definition overflows :: "mutable_table_chunk \<Rightarrow> (column_id \<rightharpoonup> field_data) \<Rightarrow> bool" where
  "overflows c vals \<longleftrightarrow> (\<exists>col. chunk_text c col + bytes_of (vals col) > ARROW_VAR_COL_MAX_BYTES)"

section \<open>Writing a row\<close>

lemma set_map_filter_option: "set (List.map_filter f xs) = {y. \<exists>x \<in> set xs. f x = Some y}"
proof (induction xs)
  case (Cons x xs)
  then show ?case by (cases "f x") (auto simp: List.map_filter_simps)
qed (simp add: List.map_filter_simps)

lemma sum_somes: "sum_list (map var_bytes (List.map_filter id xs)) = sum_list (map bytes_of xs)"
  by (induction xs) (auto simp: List.map_filter_simps bytes_of_def split: option.splits)

lemma remdups_sum_le: "sum_list (map f (remdups xs)) \<le> sum_list (map f xs)" for f :: "'a \<Rightarrow> nat"
  by (induction xs) auto

lemma distinct_tags_bound:
  assumes "distinct xs" and "\<forall>x \<in> set xs. column_type_of x = Some TagColumn"
  shows "length xs \<le> sum_list (map var_bytes xs) + 1"
proof -
  have full: "length ys \<le> sum_list (map var_bytes ys)" if "\<forall>x \<in> set ys. var_bytes x > 0" for ys
    using that by (induction ys) (auto simp: Suc_le_eq add_strict_mono add_less_le_mono)
  have empty: "x = Tag []" if "column_type_of x = Some TagColumn" "var_bytes x = 0" for x using that by (cases x) auto
  show ?thesis using assms
  proof (induction xs)
    case (Cons x xs)
    show ?case
    proof (cases "var_bytes x")
      case 0
      then have "x = Tag []" using empty Cons.prems by simp
      then have "\<forall>y \<in> set xs. var_bytes y > 0" using Cons.prems empty by (metis distinct.simps(2) gr0I list.set_intros(2))
      then show ?thesis using full [of xs] 0 by simp
    qed (use Cons in simp)
  qed simp
qed

lemma fits_if_small:
  assumes typed: "\<forall>v \<in> set (bd_values b). \<forall>x. v = Some x \<longrightarrow> column_type_of x = Some (bd_type b)"
    and small: "sum_list (map bytes_of (bd_values b)) \<le> ARROW_VAR_COL_MAX_BYTES"
  shows "builder_fits b"
proof -
  let ?xs = "List.map_filter id (bd_values b)"
  have le: "sum_list (map var_bytes (stored_values b)) \<le> ARROW_VAR_COL_MAX_BYTES"
    using small remdups_sum_le [of var_bytes ?xs] by (simp add: stored_values_def sum_somes)
  have "length (remdups ?xs) \<le> DICTIONARY_MAX_KEYS" if "bd_type b = TagColumn"
  proof -
    have "set ?xs = {x. Some x \<in> set (bd_values b)}"
      unfolding set_map_filter_option by auto
    then have "length (remdups ?xs) \<le> sum_list (map var_bytes (remdups ?xs)) + 1"
      using typed that by (intro distinct_tags_bound) auto
    then show ?thesis using le that by (simp add: stored_values_def ARROW_VAR_COL_MAX_BYTES_def DICTIONARY_MAX_KEYS_def)
  qed
  then show ?thesis using le by (auto simp: builder_fits_def stored_values_def)
qed

lemma fits_prefilled: "builder_fits (new_null_prefilled t n)"
  by (rule fits_if_small) (auto simp: new_null_prefilled_def bytes_of_def sum_list_replicate)

lemma builder_cases_len:
  assumes "data_ok ty n G m" and "col \<notin> G"
    and "map_of m col = Some b \<or> map_of m col = None \<and> b = new_null_prefilled t n"
    and "ty col = Some t"
  shows "builder_ok ty col n b \<and> bd_type b = t"
  using assms(3)
proof
  assume "map_of m col = Some b"
  then have "builder_ok ty col n b" using assms(1,2) unfolding data_ok_def by presburger
  then show ?thesis using assms(4) by (auto simp: builder_ok_def)
next
  assume b: "map_of m col = None \<and> b = new_null_prefilled t n"
  then have "builder_fits b" using fits_prefilled by simp
  then show ?thesis using assms(4) b by (auto simp: builder_ok_def new_null_prefilled_def)
qed

lemma builder_append_Some: "builder_append v b = Some b1 \<longleftrightarrow> b1 = b\<lparr>bd_values := bd_values b @ [v]\<rparr> \<and> builder_fits b1"
  by (auto simp: builder_append_def Let_def)

text \<open>A builder of a chunk panics only where the row takes the column past the limit.\<close>

lemma builder_text:
  assumes "map_of (mc_data c) col = Some b \<or> map_of (mc_data c) col = None \<and> b = new_null_prefilled t n"
    and "length (bd_values b) = n"
  shows "map bytes_of (bd_values b) = map (\<lambda>i. bytes_of (cell c col i)) [0..<n]"
  using assms(1)
proof
  assume "map_of (mc_data c) col = Some b"
  then show ?thesis using assms(2) by (intro nth_equalityI) (simp_all add: cell_def)
next
  assume "map_of (mc_data c) col = None \<and> b = new_null_prefilled t n"
  then show ?thesis by (intro nth_equalityI) (simp_all add: cell_def new_null_prefilled_def)
qed

lemma append_panics:
  assumes g: "grown ty (mc_row_count c0) vals c0 G c" and new: "col \<notin> G" and t: "ty col = Some t"
    and b: "map_of (mc_data c) col = Some b \<or> map_of (mc_data c) col = None \<and> b = new_null_prefilled t (mc_row_count c0)"
    and v: "\<And>x. vals col = Some x \<Longrightarrow> column_type_of x = Some t"
    and none: "builder_append (vals col) b = None"
  shows "overflows c0 vals"
proof (rule ccontr)
  assume "\<not> overflows c0 vals"
  then have small: "chunk_text c0 col + bytes_of (vals col) \<le> ARROW_VAR_COL_MAX_BYTES" by (auto simp: overflows_def not_less)
  have ok: "data_ok ty (mc_row_count c0) G (mc_data c)" using g by (simp add: grown_def)
  have bok: "builder_ok ty col (mc_row_count c0) b" "bd_type b = t" using builder_cases_len [OF ok new b t] by auto
  have "sum_list (map bytes_of (bd_values b)) = chunk_text c0 col"
    using builder_text [OF b] bok(1) g new by (simp add: builder_ok_def chunk_text_def grown_def)
  moreover define b1 where "b1 = b\<lparr>bd_values := bd_values b @ [vals col]\<rparr>"
  ultimately have "builder_fits b1"
    using small bok v by (intro fits_if_small) (auto simp: builder_ok_def)
  then show False using none by (simp add: builder_append_def Let_def b1_def)
qed

lemma store_value:
  assumes g: "grown ty n vals c0 G c" and new: "col \<notin> G"
    and b: "map_of (mc_data c) col = Some b \<or> map_of (mc_data c) col = None \<and> b = new_null_prefilled t n"
    and t: "ty col = Some t" "\<And>x. vals col = Some x \<Longrightarrow> column_type_of x = Some t"
    and b1: "builder_append (vals col) b = Some b1"
    and c': "mc_data c' = hm_insert col b1 (mc_data c)"
      "mc_live c' = mc_live c" "mc_row_count c' = mc_row_count c" "mc_superseded_count c' = mc_superseded_count c"
      "mc_timestamp_min c' \<le> mc_timestamp_min c" "mc_timestamp_max c \<le> mc_timestamp_max c'"
      "\<And>x. vals col = Some (Timestamp x) \<Longrightarrow> mc_timestamp_min c' \<le> x \<and> x \<le> mc_timestamp_max c'"
    and bytes: "\<And>k. hm_get 0 (mc_string_bytes c') k = hm_get 0 (mc_string_bytes c) k + (if k = col then bytes_of (vals col) else 0)"
  shows "grown ty n vals c0 (insert col G) c'"
proof -
  have ok: "data_ok ty n G (mc_data c)" using g by (simp add: grown_def)
  have bok: "builder_ok ty col n b" "bd_type b = t" using builder_cases_len [OF ok new b t(1)] by auto
  have b1': "b1 = b\<lparr>bd_values := bd_values b @ [vals col]\<rparr>" "builder_fits b1" using b1 unfolding builder_append_Some by blast+
  then have "builder_ok ty col (n + 1) b1" using bok t by (auto simp: builder_ok_def)
  then have 1: "data_ok ty n (insert col G) (mc_data c')"
    using ok new unfolding data_ok_def c'(1) map_of_hm_insert keys_distinct_hm_insert fun_upd_apply
    by (metis insert_iff option.inject)
  have nulls: "bd_values b ! i = (case map_of (mc_data c) col of None \<Rightarrow> None | Some b \<Rightarrow> bd_values b ! i)" if "i < n" for i
    using b that by (auto simp: new_null_prefilled_def)
  have len: "length (bd_values b) = n" "\<And>b'. map_of (mc_data c) col = Some b' \<Longrightarrow> length (bd_values b') = n"
    using b bok(1) by (auto simp: builder_ok_def)
  have cells: "cell c' k i = (if k = col \<and> i = n then vals col else cell c k i)" for k i
    using nulls [of i] len by (cases "map_of (mc_data c) col")
      (auto simp: cell_def c' map_of_hm_insert b1'(1) nth_append)
  have "times_ok c" using g by (simp add: grown_def)
  then have 2: "times_ok c'" unfolding times_ok_def cells using c'(5,6,7) by (auto split: if_splits; force)
  have 3: "hm_get 0 (mc_string_bytes c') k = hm_get 0 (mc_string_bytes c0) k + (if k \<in> insert col G then bytes_of (vals k) else 0)" for k
    using g new by (auto simp: bytes grown_def)
  show ?thesis using 1 2 3 cells g by (auto simp: grown_def c' map_of_hm_insert dom_def)
qed

lemma append_field_grown:
  assumes g: "grown ty n vals c0 G c" and new: "fld_id f \<notin> G" and v: "vals (fld_id f) = Some (fld_value f)"
    and t: "column_type_of (fld_value f) = Some t" "ty (fld_id f) = Some t" and n: "n = mc_row_count c0"
  shows "append_field n f c = None \<and> overflows c0 vals \<or>
    (\<exists>c'. append_field n f c = Some c' \<and> grown ty n vals c0 (insert (fld_id f) G) c')"
proof -
  define c1 where "c1 = (case fld_value f of
      Timestamp v \<Rightarrow> c\<lparr>mc_timestamp_min := min (mc_timestamp_min c) v, mc_timestamp_max := max (mc_timestamp_max c) v\<rparr>
    | Tag v \<Rightarrow> c\<lparr>mc_string_bytes := hm_upd 0 (fld_id f) (\<lambda>n. n + length v) (mc_string_bytes c)\<rparr>
    | String v \<Rightarrow> c\<lparr>mc_string_bytes := hm_upd 0 (fld_id f) (\<lambda>n. n + length v) (mc_string_bytes c)\<rparr>
    | _ \<Rightarrow> c)"
  define b where "b = (case map_of (mc_data c1) (fld_id f) of None \<Rightarrow> new_null_prefilled t n | Some b \<Rightarrow> b)"
  have data: "mc_data c1 = mc_data c" by (simp add: c1_def split: field_data.split)
  have b': "map_of (mc_data c) (fld_id f) = Some b \<or> map_of (mc_data c) (fld_id f) = None \<and> b = new_null_prefilled t n"
    unfolding b_def data by (auto split: option.splits)
  have ok: "data_ok ty n G (mc_data c)" using g by (simp add: grown_def)
  have bt: "bd_type b = t" using builder_cases_len [OF ok new b' t(2)] by simp
  have run: "append_field n f c = map_option (\<lambda>b1. c1\<lparr>mc_data := hm_insert (fld_id f) b1 (mc_data c1)\<rparr>) (builder_append (vals (fld_id f)) b)"
    unfolding append_field_def t(1) option.case Let_def c1_def [symmetric] b_def [symmetric] v using bt by simp
  have typed: "\<And>x. vals (fld_id f) = Some x \<Longrightarrow> column_type_of x = Some t" using v t(1) by simp
  show ?thesis
  proof (cases "builder_append (vals (fld_id f)) b")
    case None
    then show ?thesis using append_panics [OF g [unfolded n] new t(2) b' [unfolded n] typed] run by simp
  next
    case (Some b1)
    have "grown ty n vals c0 (insert (fld_id f) G) (c1\<lparr>mc_data := hm_insert (fld_id f) b1 (mc_data c1)\<rparr>)"
      by (rule store_value [OF g new b' t(2) _ Some])
        (use v t(1) in \<open>auto simp: c1_def bytes_of_def hm_get_upd split: field_data.splits\<close>)
    then show ?thesis using run Some by auto
  qed
qed

lemma store_copied_grown:
  assumes g: "grown ty n vals c0 G c" and new: "col \<notin> G" and t: "ty col = Some t" "t \<noteq> TimestampColumn"
    and b: "map_of (mc_data c) col = Some b \<or> map_of (mc_data c) col = None \<and> b = new_null_prefilled t n"
    and v: "\<And>x. vals col = Some x \<Longrightarrow> column_type_of x = Some t \<and> t \<noteq> TagColumn" and n: "n = mc_row_count c0"
  shows "store_copied col (vals col) b c = None \<and> overflows c0 vals \<or>
    (\<exists>c'. store_copied col (vals col) b c = Some c' \<and> grown ty n vals c0 (insert col G) c')"
proof -
  have ok: "data_ok ty n G (mc_data c)" using g by (simp add: grown_def)
  have bt: "bd_type b = t" using builder_cases_len [OF ok new b t(1)] by simp
  have k: "append_copied (vals col) b = map_option (\<lambda>b1. (b1, bytes_of (vals col))) (builder_append (vals col) b)"
    using v bt by (cases "vals col") (auto simp: append_copied_def bytes_of_def)
  have typed: "\<And>x. vals col = Some x \<Longrightarrow> column_type_of x = Some t" using v by simp
  show ?thesis
  proof (cases "builder_append (vals col) b")
    case None
    then show ?thesis using append_panics [OF g [unfolded n] new t(1) b [unfolded n] typed] k by (simp add: store_copied_def)
  next
    case (Some b1)
    define c' where "c' = c\<lparr>mc_data := hm_insert col b1 (mc_data c),
      mc_string_bytes := (if bytes_of (vals col) > 0 then hm_upd 0 col (\<lambda>n. n + bytes_of (vals col)) (mc_string_bytes c) else mc_string_bytes c)\<rparr>"
    have "store_copied col (vals col) b c = Some c'" by (simp add: store_copied_def k Some c'_def)
    moreover have "grown ty n vals c0 (insert col G) c'"
      by (rule store_value [OF g new b t(1) _ Some]) (use v t(2) in \<open>force simp: c'_def hm_get_upd\<close>)+
    ultimately show ?thesis by blast
  qed
qed

lemma fold_grown:
  assumes "grown ty n vals c0 Gs c" and "distinct (map key xs)"
    and skip: "\<And>x G c. x \<in> set xs \<Longrightarrow> grown ty n vals c0 G c \<Longrightarrow> Gs \<subseteq> G \<Longrightarrow> key x \<in> Gs \<Longrightarrow> f x c = Some c"
    and step: "\<And>x G c. x \<in> set xs \<Longrightarrow> grown ty n vals c0 G c \<Longrightarrow> Gs \<subseteq> G \<Longrightarrow> key x \<notin> G \<Longrightarrow>
      f x c = None \<and> overflows c0 vals \<or> (\<exists>c'. f x c = Some c' \<and> grown ty n vals c0 (insert (key x) G) c')"
  shows "fold_opt f xs c = None \<and> overflows c0 vals \<or>
    (\<exists>c'. fold_opt f xs c = Some c' \<and> grown ty n vals c0 (Gs \<union> key ` set xs) c')"
proof -
  have "fold_opt f ys c = None \<and> overflows c0 vals \<or> (\<exists>c'. fold_opt f ys c = Some c' \<and> grown ty n vals c0 (G \<union> key ` set ys) c')"
    if "grown ty n vals c0 G c" "distinct (map key ys)" "set ys \<subseteq> set xs" "Gs \<subseteq> G" "key ` set ys \<inter> G \<subseteq> Gs" for G c ys
    using that
  proof (induction ys arbitrary: G c)
    case Nil
    then show ?case by simp
  next
    case (Cons y ys)
    have y: "y \<in> set xs" using Cons.prems(3) by simp
    have "f y c = None \<and> overflows c0 vals \<or> (\<exists>c1. f y c = Some c1 \<and> grown ty n vals c0 (insert (key y) G) c1)"
    proof (cases "key y \<in> G")
      case True
      then have "f y c = Some c" "insert (key y) G = G"
        using skip [OF y Cons.prems(1,4)] Cons.prems(5) by auto
      then show ?thesis using Cons.prems(1) by simp
    next
      case False
      then show ?thesis using step [OF y Cons.prems(1,4)] by simp
    qed
    then consider "f y c = None \<and> overflows c0 vals"
      | c1 where "f y c = Some c1" "grown ty n vals c0 (insert (key y) G) c1" by blast
    then show ?case
    proof cases
      case 1
      then show ?thesis by simp
    next
      case c1: (2 c1)
      have "key y \<notin> key ` set ys" using Cons.prems(2) by simp
      then have "key ` set ys \<inter> insert (key y) G \<subseteq> Gs" using Cons.prems(5) by auto
      then have "fold_opt f ys c1 = None \<and> overflows c0 vals \<or>
          (\<exists>c'. fold_opt f ys c1 = Some c' \<and> grown ty n vals c0 (insert (key y) G \<union> key ` set ys) c')"
        using Cons.IH [OF c1(2)] Cons.prems(2,3,4) by auto
      then show ?thesis using c1(1) by simp
    qed
  qed
  from this [of Gs c xs] show ?thesis using assms(1,2) by auto
qed

text \<open>The row that the new one replaces, without its tags.\<close>

definition carry_ok :: "column_types \<Rightarrow> carry_source \<Rightarrow> mutable_table_chunk \<Rightarrow> bool" where
  "carry_ok ty carry c \<longleftrightarrow>
     (case carry of
        CarryNone \<Rightarrow> True
      | CarryLocal old \<Rightarrow> old < mc_row_count c
      | CarryForeign src old \<Rightarrow> chunk_ok ty src \<and> old < mc_row_count src)"

definition carry_row :: "column_types \<Rightarrow> carry_source \<Rightarrow> mutable_table_chunk \<Rightarrow> column_id \<rightharpoonup> field_data" where
  "carry_row ty carry c =
     (\<lambda>col. if ty col = Some TagColumn then None
            else case carry of
                   CarryNone \<Rightarrow> None
                 | CarryLocal old \<Rightarrow> cell c col old
                 | CarryForeign src old \<Rightarrow> cell src col old)"

lemma read_cell:
  assumes "data_ok ty m G (mc_data c)" and "map_of (mc_data c) col = Some b" and "i < m"
  shows "builder_read b i = (if ty col = Some TagColumn then None else cell c col i)"
proof -
  have "builder_ok ty col (if col \<in> G then m + 1 else m) b" using assms(1,2) unfolding data_ok_def by blast
  then show ?thesis using assms(2,3) by (auto simp: builder_read_def cell_def builder_ok_def split: if_splits)
qed

lemma cell_typed:
  assumes "data_ok ty m G (mc_data c)" and "cell c col i = Some x"
  shows "column_type_of x = ty col"
proof -
  obtain b where b: "map_of (mc_data c) col = Some b" "i < length (bd_values b)" "bd_values b ! i = Some x"
    using assms(2) by (auto simp: cell_def split: option.splits if_splits)
  have "builder_ok ty col (if col \<in> G then m + 1 else m) b" using assms(1) b(1) unfolding data_ok_def by blast
  moreover have "Some x \<in> set (bd_values b)" using b(2,3) by (metis nth_mem)
  ultimately show ?thesis by (simp add: builder_ok_def)
qed

lemma carry_row_typed:
  assumes "data_ok ty n G (mc_data c)" and "carry_ok ty carry c" and "carry_row ty carry c col = Some x"
  shows "column_type_of x = ty col \<and> ty col \<noteq> Some TagColumn"
  using assms cell_typed
  by (auto simp: carry_row_def carry_ok_def chunk_ok_def split: if_splits carry_source.splits)

definition new_row :: "column_types \<Rightarrow> row \<Rightarrow> carry_source \<Rightarrow> mutable_table_chunk \<Rightarrow> column_id \<rightharpoonup> field_data" where
  "new_row ty r carry c = carry_row ty carry c ++ fields_of r"

lemma fields_of_None: "fields_of r col = None \<longleftrightarrow> col \<notin> set (map fld_id (row_fields r))"
  by (simp add: fields_of_def map_of_eq_None_iff image_image)

lemma new_row_other: "col \<notin> set (map fld_id (row_fields r)) \<Longrightarrow> new_row ty r carry c col = carry_row ty carry c col"
  using fields_of_None [of r col] by (simp add: new_row_def map_add_def)

lemma new_row_field:
  assumes "row_ok ty r" and "f \<in> set (row_fields r)"
  shows "new_row ty r carry c (fld_id f) = Some (fld_value f)"
proof -
  have "fields_of r (fld_id f) = Some (fld_value f)"
    using assms unfolding fields_of_def row_ok_def by (intro map_of_is_SomeI) (auto simp: o_def)
  then show ?thesis by (simp add: new_row_def)
qed

lemma not_time:
  assumes "row_ok ty r" and "col \<notin> set (map fld_id (row_fields r))"
  shows "ty col \<noteq> Some TimestampColumn"
  using assms fields_of_None [of r col] unfolding row_ok_def by fastforce

lemma carried_value_row:
  assumes g: "grown ty (mc_row_count c0) vals c0 G c" and ok: "data_ok ty (mc_row_count c0) {} (mc_data c0)"
    and carry: "carry_ok ty carry c0" and b: "map_of (mc_data c) col = Some b"
  shows "carried_value carry col b = carry_row ty carry c0 col"
proof (cases carry)
  case CarryNone
  then show ?thesis by (simp add: carried_value_def carry_row_def)
next
  case (CarryLocal old)
  then have old: "old < mc_row_count c0" using carry by (simp add: carry_ok_def)
  have "data_ok ty (mc_row_count c0) G (mc_data c)" "cell c col old = cell c0 col old" using g old by (auto simp: grown_def)
  then show ?thesis using read_cell [OF _ b old] CarryLocal by (simp add: carried_value_def carry_row_def)
next
  case (CarryForeign src old)
  then have src: "data_ok ty (mc_row_count src) {} (mc_data src)" "old < mc_row_count src"
    using carry by (simp_all add: carry_ok_def chunk_ok_def)
  show ?thesis
  proof (cases "map_of (mc_data src) col")
    case None
    then show ?thesis using CarryForeign by (simp add: carried_value_def carry_row_def cell_def)
  next
    case (Some sb)
    then show ?thesis using read_cell [OF src(1) Some src(2)] CarryForeign
      by (simp add: carried_value_def carry_row_def)
  qed
qed

lemma append_fields_grown:
  assumes row: "row_ok ty r" and c: "chunk_ok ty c"
  shows "fold_opt (append_field (mc_row_count c)) (row_fields r) c = None \<and> overflows c (new_row ty r carry c) \<or>
    (\<exists>c'. fold_opt (append_field (mc_row_count c)) (row_fields r) c = Some c' \<and>
      grown ty (mc_row_count c) (new_row ty r carry c) c (set (map fld_id (row_fields r))) c')"
proof -
  have base: "grown ty (mc_row_count c) (new_row ty r carry c) c {} c" using c by (simp add: grown_def chunk_ok_def)
  have "fold_opt (append_field (mc_row_count c)) (row_fields r) c = None \<and> overflows c (new_row ty r carry c) \<or>
      (\<exists>c'. fold_opt (append_field (mc_row_count c)) (row_fields r) c = Some c' \<and>
        grown ty (mc_row_count c) (new_row ty r carry c) c ({} \<union> fld_id ` set (row_fields r)) c')"
  proof (rule fold_grown [OF base])
    show "distinct (map fld_id (row_fields r))" using row by (simp add: row_ok_def)
    fix f G c1
    assume f: "f \<in> set (row_fields r)" and g: "grown ty (mc_row_count c) (new_row ty r carry c) c G c1"
      and new: "fld_id f \<notin> G"
    obtain t where "column_type_of (fld_value f) = Some t" "ty (fld_id f) = Some t"
      using row f unfolding row_ok_def by force
    then show "append_field (mc_row_count c) f c1 = None \<and> overflows c (new_row ty r carry c) \<or>
        (\<exists>c'. append_field (mc_row_count c) f c1 = Some c' \<and>
          grown ty (mc_row_count c) (new_row ty r carry c) c (insert (fld_id f) G) c')"
      by (rule append_field_grown [OF g new new_row_field [OF row f] _ _ refl])
  qed simp
  then show ?thesis by simp
qed

lemma carry_columns_grown:
  assumes row: "row_ok ty r" and c: "chunk_ok ty c" and carry: "carry_ok ty carry c"
    and c1: "grown ty (mc_row_count c) (new_row ty r carry c) c (set (map fld_id (row_fields r))) c1"
  shows "fold_opt (carry_column (map fld_id (row_fields r)) carry) (map fst (mc_data c1)) c1 = None \<and>
      overflows c (new_row ty r carry c) \<or>
    (\<exists>c'. fold_opt (carry_column (map fld_id (row_fields r)) carry) (map fst (mc_data c1)) c1 = Some c' \<and>
      grown ty (mc_row_count c) (new_row ty r carry c) c
        (set (map fld_id (row_fields r)) \<union> id ` set (map fst (mc_data c1))) c')"
proof (rule fold_grown [OF c1])
  show "distinct (map id (map fst (mc_data c1)))" using c1 by (simp add: grown_def data_ok_def)
next
  fix col G c2
  assume "id col \<in> set (map fld_id (row_fields r))"
  then show "carry_column (map fld_id (row_fields r)) carry col c2 = Some c2" by (simp add: carry_column_def)
next
  fix col G c2
  assume col: "col \<in> set (map fst (mc_data c1))" and g: "grown ty (mc_row_count c) (new_row ty r carry c) c G c2"
    and G: "set (map fld_id (row_fields r)) \<subseteq> G" "id col \<notin> G"
  have ok: "data_ok ty (mc_row_count c) {} (mc_data c)" using c by (simp add: chunk_ok_def)
  have new: "col \<notin> set (map fld_id (row_fields r))" "col \<notin> G" using G by auto
  have "col \<in> dom (map_of (mc_data c2))"
    using col new c1 g by (auto simp: grown_def dom_map_of_conv_image_fst)
  then obtain b where b: "map_of (mc_data c2) col = Some b" by blast
  have "data_ok ty (mc_row_count c) G (mc_data c2)" using g by (simp add: grown_def)
  then have t: "ty col = Some (bd_type b)" using b unfolding data_ok_def builder_ok_def by blast
  have run: "carry_column (map fld_id (row_fields r)) carry col c2 = store_copied col (new_row ty r carry c col) b c2"
    using new b carried_value_row [OF g ok carry b] new_row_other [OF new(1)] by (simp add: carry_column_def)
  have "store_copied col (new_row ty r carry c col) b c2 = None \<and> overflows c (new_row ty r carry c) \<or>
      (\<exists>c'. store_copied col (new_row ty r carry c col) b c2 = Some c' \<and>
        grown ty (mc_row_count c) (new_row ty r carry c) c (insert col G) c')"
    by (rule store_copied_grown [OF g new(2) t])
      (use not_time [OF row new(1)] t b carry_row_typed [OF ok carry] new_row_other [OF new(1)] in auto)
  then show "carry_column (map fld_id (row_fields r)) carry col c2 = None \<and> overflows c (new_row ty r carry c) \<or>
      (\<exists>c'. carry_column (map fld_id (row_fields r)) carry col c2 = Some c' \<and>
        grown ty (mc_row_count c) (new_row ty r carry c) c (insert (id col) G) c')"
    by (simp add: run)
qed

lemma carry_foreign_grown:
  assumes row: "row_ok ty r" and c: "chunk_ok ty c" and carry: "carry_ok ty (CarryForeign src old) c"
    and c2: "grown ty (mc_row_count c) (new_row ty r (CarryForeign src old) c) c Gs c2"
    and Gs: "dom (map_of (mc_data c)) \<subseteq> Gs" "set (map fld_id (row_fields r)) \<subseteq> Gs"
  shows "fold_opt (carry_foreign (mc_row_count c) (map fld_id (row_fields r)) old) (mc_data src) c2 = None \<and>
      overflows c (new_row ty r (CarryForeign src old) c) \<or>
    (\<exists>c'. fold_opt (carry_foreign (mc_row_count c) (map fld_id (row_fields r)) old) (mc_data src) c2 = Some c' \<and>
      grown ty (mc_row_count c) (new_row ty r (CarryForeign src old) c) c (Gs \<union> fst ` set (mc_data src)) c')"
proof (rule fold_grown [OF c2])
  show "distinct (map fst (mc_data src))" using carry by (simp add: carry_ok_def chunk_ok_def data_ok_def)
next
  fix x :: "column_id \<times> builder" and G c3
  assume "grown ty (mc_row_count c) (new_row ty r (CarryForeign src old) c) c G c3" "Gs \<subseteq> G" "fst x \<in> Gs"
  then have "map_of (mc_data c3) (fst x) \<noteq> None" by (auto simp: grown_def)
  then show "carry_foreign (mc_row_count c) (map fld_id (row_fields r)) old x c3 = Some c3"
    by (auto simp: carry_foreign_def split: prod.split)
next
  fix x G c3
  assume x: "x \<in> set (mc_data src)" and g: "grown ty (mc_row_count c) (new_row ty r (CarryForeign src old) c) c G c3"
    and G: "Gs \<subseteq> G" "fst x \<notin> G"
  obtain col sb where xeq: "x = (col, sb)" by (cases x)
  have ok: "data_ok ty (mc_row_count c) {} (mc_data c)" using c by (simp add: chunk_ok_def)
  have src: "data_ok ty (mc_row_count src) {} (mc_data src)" "old < mc_row_count src"
    using carry by (simp_all add: carry_ok_def chunk_ok_def)
  then have sb: "map_of (mc_data src) col = Some sb" using x xeq by (simp add: data_ok_def)
  then have t: "ty col = Some (bd_type sb)" using src(1) unfolding data_ok_def builder_ok_def by blast
  have new: "col \<notin> set (map fld_id (row_fields r))" "col \<notin> G" using G Gs(2) xeq by auto
  have none: "map_of (mc_data c3) col = None" using g new Gs(1) G(1) unfolding grown_def by blast
  have val: "builder_read sb old = new_row ty r (CarryForeign src old) c col"
    using read_cell [OF src(1) sb src(2)] new_row_other [OF new(1)] by (simp add: carry_row_def)
  have "store_copied col (new_row ty r (CarryForeign src old) c col)
        (new_null_prefilled (bd_type sb) (mc_row_count c)) c3 = None \<and> overflows c (new_row ty r (CarryForeign src old) c) \<or>
      (\<exists>c'. store_copied col (new_row ty r (CarryForeign src old) c col)
        (new_null_prefilled (bd_type sb) (mc_row_count c)) c3 = Some c' \<and>
      grown ty (mc_row_count c) (new_row ty r (CarryForeign src old) c) c (insert col G) c')"
    by (rule store_copied_grown [OF g new(2) t])
      (use not_time [OF row new(1)] t none carry_row_typed [OF ok carry] new_row_other [OF new(1)] in auto)
  then show "carry_foreign (mc_row_count c) (map fld_id (row_fields r)) old x c3 = None \<and>
        overflows c (new_row ty r (CarryForeign src old) c) \<or>
      (\<exists>c'. carry_foreign (mc_row_count c) (map fld_id (row_fields r)) old x c3 = Some c' \<and>
        grown ty (mc_row_count c) (new_row ty r (CarryForeign src old) c) c (insert (fst x) G) c')"
    using new none val xeq by (simp add: carry_foreign_def)
qed

lemma chunk_text_snoc:
  assumes "mc_row_count c' = mc_row_count c + 1" and "\<forall>i < mc_row_count c. chunk_row c' i = chunk_row c i"
  shows "chunk_text c' col = chunk_text c col + bytes_of (chunk_row c' (mc_row_count c) col)"
proof -
  have "map (\<lambda>i. bytes_of (cell c' col i)) [0..<mc_row_count c] = map (\<lambda>i. bytes_of (cell c col i)) [0..<mc_row_count c]"
    using assms(2) by (intro map_cong) (auto simp: chunk_row_def fun_eq_iff)
  then show ?thesis unfolding chunk_text_def assms(1) by (simp add: chunk_row_def del: map_eq_conv)
qed

lemma all_grown:
  assumes "grown ty (mc_row_count c) vals c G c'" and "dom (map_of (mc_data c)) \<subseteq> G" and c: "chunk_ok ty c"
    and c'': "c'' = c'\<lparr>mc_live := mc_live c' @ [True], mc_row_count := mc_row_count c' + 1\<rparr>"
  shows "chunk_ok ty c''" and "i < mc_row_count c \<Longrightarrow> chunk_row c'' i = chunk_row c i"
    and "col \<in> G \<Longrightarrow> chunk_row c'' (mc_row_count c) col = vals col"
    and "col \<notin> G \<Longrightarrow> chunk_row c'' (mc_row_count c) col = None"
proof -
  have cells: "cell c'' k i = cell c' k i" for k i by (simp add: c'' cell_def)
  have g: "data_ok ty (mc_row_count c) G (mc_data c')" "dom (map_of (mc_data c')) = G" using assms(1,2) by (auto simp: grown_def)
  show same: "chunk_row c'' i = chunk_row c i" if "i < mc_row_count c" for i
    using assms(1) that cells by (simp add: chunk_row_def grown_def)
  show new: "chunk_row c'' (mc_row_count c) col = vals col" if "col \<in> G" for col
    using assms(1) that cells by (simp add: chunk_row_def grown_def)
  show none: "chunk_row c'' (mc_row_count c) col = None" if "col \<notin> G" for col
  proof -
    have "map_of (mc_data c') col = None" using that g(2) by blast
    then show ?thesis unfolding chunk_row_def cells by (simp add: cell_def)
  qed
  have "keys_distinct (mc_data c')" using g(1) by (simp add: data_ok_def)
  moreover have "builder_ok ty col (mc_row_count c + 1) b" if b: "map_of (mc_data c') col = Some b" for col b
  proof -
    have "col \<in> G" using b g(2) by blast
    then show ?thesis using b g(1) unfolding data_ok_def by presburger
  qed
  ultimately have data: "data_ok ty (mc_row_count c + 1) {} (mc_data c')" unfolding data_ok_def by simp
  have count: "mc_row_count c'' = mc_row_count c + 1" using assms(1) by (simp add: c'' grown_def)
  have "hm_get 0 (mc_string_bytes c'') col = chunk_text c'' col" for col
    using chunk_text_snoc [OF count, of col] same new [of col] none [of col] assms(1) c
    by (cases "col \<in> G") (simp_all add: c'' grown_def chunk_ok_def bytes_of_def)
  then show "chunk_ok ty c''"
    using assms(1) c cells data by (simp add: chunk_ok_def c'' times_ok_def grown_def)
qed

lemma new_row_absent:
  assumes "col \<notin> dom (map_of (mc_data c))" and "col \<notin> set (map fld_id (row_fields r))"
    and "\<And>src old. carry = CarryForeign src old \<Longrightarrow> col \<notin> fst ` set (mc_data src)"
  shows "new_row ty r carry c col = None"
proof -
  have "map_of (mc_data src) col = None" if "carry = CarryForeign src old" for src old
    using assms(3) [OF that] by (simp add: map_of_eq_None_iff)
  then have "carry_row ty carry c col = None"
    using assms(1) by (auto simp: carry_row_def cell_def split: carry_source.split)
  then show ?thesis using new_row_other [OF assms(2)] by simp
qed

text \<open>The columns that only the replaced row has, and the row as the chunk then has it.\<close>

lemma finish_row:
  assumes row: "row_ok ty r" and c: "chunk_ok ty c" and carry: "carry_ok ty carry c"
    and c2: "grown ty (mc_row_count c) (new_row ty r carry c) c G c2"
    and G: "dom (map_of (mc_data c)) \<subseteq> G" "set (map fld_id (row_fields r)) \<subseteq> G"
  shows "(case carry of CarryForeign src old \<Rightarrow>
        fold_opt (carry_foreign (mc_row_count c) (map fld_id (row_fields r)) old) (mc_data src) c2 | _ \<Rightarrow> Some c2) = None \<and>
      overflows c (new_row ty r carry c) \<or>
    (\<exists>c3 c'. (case carry of CarryForeign src old \<Rightarrow>
        fold_opt (carry_foreign (mc_row_count c) (map fld_id (row_fields r)) old) (mc_data src) c2 | _ \<Rightarrow> Some c2) = Some c3 \<and>
      c' = c3\<lparr>mc_live := mc_live c3 @ [True], mc_row_count := mc_row_count c3 + 1\<rparr> \<and> chunk_ok ty c' \<and>
      mc_row_count c' = mc_row_count c + 1 \<and> mc_live c' = mc_live c @ [True] \<and>
      (\<forall>i < mc_row_count c. chunk_row c' i = chunk_row c i) \<and> chunk_row c' (mc_row_count c) = new_row ty r carry c)"
    (is "?step = None \<and> ?panic \<or> ?ok")
proof (rule disjCI)
  assume no: "\<not> ?ok"
  define H where "H = G \<union> (case carry of CarryForeign src old \<Rightarrow> fst ` set (mc_data src) | _ \<Rightarrow> {})"
  have "?step = None \<and> ?panic \<or> (\<exists>c3. ?step = Some c3 \<and> grown ty (mc_row_count c) (new_row ty r carry c) c H c3)"
  proof (cases carry)
    case (CarryForeign src old)
    then show ?thesis
      using carry_foreign_grown [OF row c carry [unfolded CarryForeign] c2 [unfolded CarryForeign] G] by (simp add: H_def)
  qed (use c2 in \<open>simp_all add: H_def\<close>)
  moreover have False if s: "?step = Some c3" and g: "grown ty (mc_row_count c) (new_row ty r carry c) c H c3" for c3
  proof -
    define c' where "c' = c3\<lparr>mc_live := mc_live c3 @ [True], mc_row_count := mc_row_count c3 + 1\<rparr>"
    have H: "dom (map_of (mc_data c)) \<subseteq> H" using G(1) by (auto simp: H_def)
    note ag = all_grown [OF g H c c'_def]
    have "chunk_row c' (mc_row_count c) col = new_row ty r carry c col" for col
    proof (cases "col \<in> H")
      case True
      then show ?thesis by (rule ag(3))
    next
      case False
      then have "new_row ty r carry c col = None"
        using G by (intro new_row_absent) (auto simp: H_def)
      then show ?thesis using ag(4) [OF False] by simp
    qed
    moreover have "mc_row_count c' = mc_row_count c + 1" "mc_live c' = mc_live c @ [True]"
      using g by (simp_all add: c'_def grown_def)
    ultimately show False using no s ag(1,2) c'_def by blast
  qed
  ultimately show "?step = None \<and> ?panic" by blast
qed

lemma append_row_ok:
  assumes row: "row_ok ty r" and c: "chunk_ok ty c" and carry: "carry_ok ty carry c"
  shows "append_row r carry c = None \<and> overflows c (new_row ty r carry c) \<or>
    (\<exists>c'. append_row r carry c = Some (mc_row_count c, c') \<and> chunk_ok ty c' \<and>
      mc_row_count c' = mc_row_count c + 1 \<and> mc_live c' = mc_live c @ [True] \<and>
      (\<forall>i < mc_row_count c. chunk_row c' i = chunk_row c i) \<and> chunk_row c' (mc_row_count c) = new_row ty r carry c)"
    (is "?panic \<or> ?ok")
proof (rule disjCI)
  assume ok: "\<not> ?ok"
  define ids where "ids = map fld_id (row_fields r)"
  define last_step where "last_step = (\<lambda>c2. case carry of
      CarryForeign src old \<Rightarrow> fold_opt (carry_foreign (mc_row_count c) ids old) (mc_data src) c2 | _ \<Rightarrow> Some c2)"
  have run: "append_row r carry c = (case fold_opt (append_field (mc_row_count c)) (row_fields r) c of None \<Rightarrow> None
      | Some c1 \<Rightarrow> (case fold_opt (carry_column ids carry) (map fst (mc_data c1)) c1 of None \<Rightarrow> None
      | Some c2 \<Rightarrow> (case last_step c2 of None \<Rightarrow> None
      | Some c3 \<Rightarrow> Some (mc_row_count c, c3\<lparr>mc_live := mc_live c3 @ [True], mc_row_count := mc_row_count c3 + 1\<rparr>))))"
    unfolding append_row_def Let_def ids_def last_step_def ..
  show ?panic
  proof (cases "fold_opt (append_field (mc_row_count c)) (row_fields r) c")
    case None
    then show ?thesis using append_fields_grown [OF row c, of carry] by (simp add: run)
  next
    case f1: (Some c1)
    then have c1: "grown ty (mc_row_count c) (new_row ty r carry c) c (set ids) c1"
      using append_fields_grown [OF row c, of carry] unfolding ids_def by simp
    note step2 = carry_columns_grown [OF row c carry c1 [unfolded ids_def], folded ids_def]
    show ?thesis
    proof (cases "fold_opt (carry_column ids carry) (map fst (mc_data c1)) c1")
      case None
      then show ?thesis using step2 f1 by (simp add: run)
    next
      case f2: (Some c2)
      define G where "G = set ids \<union> id ` set (map fst (mc_data c1))"
      have c2: "grown ty (mc_row_count c) (new_row ty r carry c) c G c2" using step2 f2 by (simp add: G_def)
      have G: "dom (map_of (mc_data c)) \<subseteq> G" "set ids \<subseteq> G"
        using c1 unfolding G_def grown_def dom_map_of_conv_image_fst by auto
      have "last_step c2 = None \<and> overflows c (new_row ty r carry c)"
        using finish_row [OF row c carry c2 G [unfolded ids_def]] ok f1 f2 unfolding run last_step_def ids_def
        by fastforce
      then show ?thesis using f1 f2 by (simp add: run)
    qed
  qed
qed

section \<open>The overwrite index\<close>

text \<open>What the rows written to a point amount to: the union of their fields, the later ones winning.\<close>

definition latest :: "row list \<Rightarrow> point \<Rightarrow> column_id \<rightharpoonup> field_data" where
  "latest rows p = foldl (\<lambda>m r. if point_of r = p then m ++ fields_of r else m) Map.empty rows"

definition points_of :: "row list \<Rightarrow> point set" where
  "points_of rows = point_of ` set rows"

type_synonym slot = "nat \<times> nat"

definition slot_live :: "mutable_table_chunk list \<Rightarrow> slot \<Rightarrow> bool" where
  "slot_live cs s \<longleftrightarrow> fst s < length cs \<and> snd s < length (mc_live (cs ! fst s)) \<and> mc_live (cs ! fst s) ! snd s"

definition slot_row :: "mutable_table_chunk list \<Rightarrow> slot \<Rightarrow> column_id \<rightharpoonup> field_data" where
  "slot_row cs s = chunk_row (cs ! fst s) (snd s)"

definition buffered :: "column_types \<Rightarrow> (nat list \<Rightarrow> nat) \<Rightarrow> row list \<Rightarrow> chunk_time_buffer \<Rightarrow> bool" where
  "buffered ty hash rows cb \<longleftrightarrow>
     (\<forall>c \<in> set (cb_chunks cb). chunk_ok ty c) \<and> keys_distinct (cb_row_key_to_index cb) \<and>
     (\<forall>k s. map_of (cb_row_key_to_index cb) k = Some s \<longrightarrow> slot_live (cb_chunks cb) s \<and>
        (\<exists>p \<in> points_of rows. hash (key_bytes p) = k \<and> slot_row (cb_chunks cb) s = latest rows p)) \<and>
     (\<forall>p \<in> points_of rows. \<exists>s. map_of (cb_row_key_to_index cb) (hash (key_bytes p)) = Some s) \<and>
     (\<forall>s. slot_live (cb_chunks cb) s \<longrightarrow> (\<exists>k. map_of (cb_row_key_to_index cb) k = Some s)) \<and>
     (\<forall>k1 k2 s. map_of (cb_row_key_to_index cb) k1 = Some s \<longrightarrow> map_of (cb_row_key_to_index cb) k2 = Some s \<longrightarrow> k1 = k2)"

lemma latest_snoc: "latest (rows @ [r]) p = (if point_of r = p then latest rows p ++ fields_of r else latest rows p)"
  by (simp add: latest_def)

lemma latest_absent: "p \<notin> points_of rows \<Longrightarrow> latest rows p = Map.empty"
proof (induction rows rule: rev_induct)
  case Nil
  then show ?case by (simp add: latest_def)
next
  case (snoc r rows)
  then show ?case by (auto simp: latest_snoc points_of_def)
qed

lemma latest_from: "latest rows p col = Some x \<Longrightarrow> \<exists>r \<in> set rows. point_of r = p \<and> fields_of r col = Some x"
proof (induction rows rule: rev_induct)
  case Nil
  then show ?case by (simp add: latest_def)
next
  case (snoc r rows)
  then show ?case by (fastforce simp: latest_snoc map_add_Some_iff split: if_splits)
qed

lemma set_row_tags: "(col, v) \<in> set (row_tags r) \<longleftrightarrow> (\<exists>f \<in> set (row_fields r). fld_id f = col \<and> fld_value f = Tag v)"
proof -
  have "(case fld_value f of Tag v \<Rightarrow> Some (fld_id f, v) | _ \<Rightarrow> None) = Some (col, v) \<longleftrightarrow> fld_id f = col \<and> fld_value f = Tag v" for f :: field
    by (cases "fld_value f") auto
  then show ?thesis by (simp add: row_tags_def set_map_filter_option)
qed

lemma point_tags:
  assumes "row_ok ty r'" "point_of r' = point_of r" "fields_of r' col = Some x" "ty col = Some TagColumn"
  shows "fields_of r col \<noteq> None"
proof -
  have "(col, x) \<in> set (map (\<lambda>f. (fld_id f, fld_value f)) (row_fields r'))"
    using assms(3) unfolding fields_of_def by (rule map_of_SomeD)
  then obtain f where f: "f \<in> set (row_fields r')" "fld_id f = col" "fld_value f = x" by auto
  then have "column_type_of x = Some TagColumn" using assms(1,4) unfolding row_ok_def by force
  then obtain v where "x = Tag v" by (cases x) auto
  then have "(col, v) \<in> set (row_tags r')" using f set_row_tags by blast
  then have "(col, v) \<in> set (row_tags r)" using assms(2) by (simp add: point_of_def)
  then have "col \<in> set (map fld_id (row_fields r))" using set_row_tags by force
  then show ?thesis using fields_of_None by blast
qed

lemma carried_is_latest:
  assumes rows: "\<forall>r' \<in> set rows. row_ok ty r'"
    and old: "\<And>col. ty col \<noteq> Some TagColumn \<Longrightarrow> carry_row ty carry c col = latest rows (point_of r) col"
  shows "new_row ty r carry c = latest (rows @ [r]) (point_of r)"
proof
  fix col
  show "new_row ty r carry c col = latest (rows @ [r]) (point_of r) col"
  proof (cases "ty col = Some TagColumn")
    case False
    then show ?thesis using old [OF False]
      by (cases "fields_of r col") (simp_all add: new_row_def latest_snoc map_add_def)
  next
    case True
    have "latest rows (point_of r) col = None" if "fields_of r col = None"
    proof (rule ccontr)
      assume "latest rows (point_of r) col \<noteq> None"
      then obtain x r' where "r' \<in> set rows" "point_of r' = point_of r" "fields_of r' col = Some x"
        using latest_from by blast
      then show False using point_tags [of ty r' r col x] rows that True by blast
    qed
    then show ?thesis using True
      by (cases "fields_of r col") (simp_all add: new_row_def latest_snoc map_add_def carry_row_def)
  qed
qed

lemma filter_Not_update: "i < length xs \<Longrightarrow> xs ! i \<Longrightarrow> length (filter Not (xs[i := False])) = length (filter Not xs) + 1"
proof (induction xs arbitrary: i)
  case (Cons x xs)
  then show ?case by (cases i) auto
qed simp

lemma chunk_text_mark [simp]: "chunk_text (mark_superseded i c) col = chunk_text c col"
  by (simp add: chunk_text_def cell_def mark_superseded_def)

lemma string_bytes_mark [simp]: "mc_string_bytes (mark_superseded i c) = mc_string_bytes c"
  by (simp add: mark_superseded_def)

lemma mark_superseded_ok:
  assumes "chunk_ok ty c" "i < mc_row_count c" "mc_live c ! i"
  shows "chunk_ok ty (mark_superseded i c)"
  using assms filter_Not_update [of i "mc_live c"]
  by (simp add: chunk_ok_def) (simp add: mark_superseded_def times_ok_def cell_def)

lemma chunk_row_mark [simp]: "chunk_row (mark_superseded i c) j = chunk_row c j"
  by (simp add: chunk_row_def cell_def mark_superseded_def)

lemma mc_live_mark [simp]: "mc_live (mark_superseded i c) = (mc_live c)[i := False]"
  by (simp add: mark_superseded_def)

text \<open>The index after a row went into slot \<open>s0\<close> and took the place of the slot its key had.\<close>

lemma buffered_step:
  assumes cb: "buffered ty hash rows cb" and k: "k = row_key_for hash r"
    and ok: "\<forall>c \<in> set cs'. chunk_ok ty c"
    and new: "\<not> slot_live (cb_chunks cb) s0"
    and live: "\<And>s. slot_live cs' s \<longleftrightarrow> s = s0 \<or> slot_live (cb_chunks cb) s \<and> map_of (cb_row_key_to_index cb) k \<noteq> Some s"
    and same: "\<And>s. slot_live (cb_chunks cb) s \<Longrightarrow> slot_row cs' s = slot_row (cb_chunks cb) s"
    and row: "slot_row cs' s0 = latest (rows @ [r]) (point_of r)"
  shows "buffered ty hash (rows @ [r]) \<lparr>cb_chunks = cs', cb_row_key_to_index = hm_insert k s0 (cb_row_key_to_index cb)\<rparr>"
proof -
  let ?ix = "cb_row_key_to_index cb" and ?pts = "points_of (rows @ [r])"
  have ix: "map_of (hm_insert k s0 ?ix) = (map_of ?ix)(k \<mapsto> s0)" by (rule map_of_hm_insert)
  have pts: "?pts = insert (point_of r) (points_of rows)" by (simp add: points_of_def)
  have old: "slot_live (cb_chunks cb) s \<and> (\<exists>p \<in> points_of rows. hash (key_bytes p) = k' \<and> slot_row (cb_chunks cb) s = latest rows p)"
    if "map_of ?ix k' = Some s" for k' s using cb that unfolding buffered_def by blast
  have all: "\<exists>s. map_of ?ix (hash (key_bytes p)) = Some s" if "p \<in> points_of rows" for p
    using cb that unfolding buffered_def by blast
  have back': "\<exists>k. map_of ?ix k = Some s" if "slot_live (cb_chunks cb) s" for s
    using cb that unfolding buffered_def by blast
  have one: "k1 = k2" if "map_of ?ix k1 = Some s" "map_of ?ix k2 = Some s" for k1 k2 s
    using cb that unfolding buffered_def by blast
  have kp: "k = hash (key_bytes (point_of r))" using k by (simp add: row_key_for_def)
  have ent: "slot_live cs' s \<and> (\<exists>p \<in> ?pts. hash (key_bytes p) = k' \<and> slot_row cs' s = latest (rows @ [r]) p)"
    if s: "((map_of ?ix)(k \<mapsto> s0)) k' = Some s" for k' s
  proof (cases "k' = k")
    case True
    then have "s = s0" using s by simp
    then show ?thesis using live [of s] row kp True pts by blast
  next
    case False
    then have m: "map_of ?ix k' = Some s" using s by simp
    then obtain p where p: "slot_live (cb_chunks cb) s" "p \<in> points_of rows" "hash (key_bytes p) = k'"
      "slot_row (cb_chunks cb) s = latest rows p" using old by blast
    have "point_of r \<noteq> p" using p(3) False kp by blast
    moreover have "map_of ?ix k \<noteq> Some s" using one [OF m] False by blast
    ultimately show ?thesis using p live [of s] same [OF p(1)] pts by (auto simp: latest_snoc)
  qed
  have bwd: "\<exists>k'. ((map_of ?ix)(k \<mapsto> s0)) k' = Some s" if "slot_live cs' s" for s
  proof (cases "s = s0")
    case False
    then have "slot_live (cb_chunks cb) s" "map_of ?ix k \<noteq> Some s" using that live by auto
    then obtain k' where "map_of ?ix k' = Some s" "k' \<noteq> k" using back' by blast
    then show ?thesis by (intro exI [of _ k']) simp
  qed auto
  have uniq: "k1 = k2" if "((map_of ?ix)(k \<mapsto> s0)) k1 = Some s" "((map_of ?ix)(k \<mapsto> s0)) k2 = Some s" for k1 k2 s
    using that one old new by (auto split: if_splits)
  have cover: "\<exists>s. ((map_of ?ix)(k \<mapsto> s0)) (hash (key_bytes p)) = Some s" if "p \<in> ?pts" for p
    using that all [of p] unfolding pts kp by (cases "hash (key_bytes p) = hash (key_bytes (point_of r))") auto
  have "keys_distinct (hm_insert k s0 ?ix)" using cb by (simp add: buffered_def)
  then show ?thesis unfolding buffered_def chunk_time_buffer.simps ix
    using ok ent bwd uniq cover by blast
qed

lemma ball_update: "\<forall>x \<in> set xs. P x \<Longrightarrow> P y \<Longrightarrow> \<forall>x \<in> set (xs[i := y]). P x"
  using set_update_subset_insert [of xs i y] by blast

lemma slot_live_update:
  assumes "j < length cs"
  shows "slot_live (cs[j := c]) s \<longleftrightarrow>
    (if fst s = j then snd s < length (mc_live c) \<and> mc_live c ! snd s else slot_live cs s)"
  using assms by (auto simp: slot_live_def nth_list_update)

lemma slot_live_at: "j < length cs \<Longrightarrow> slot_live cs (j, b) \<longleftrightarrow> b < length (mc_live (cs ! j)) \<and> mc_live (cs ! j) ! b"
  by (simp add: slot_live_def)

lemma live_snoc: "b < length (xs @ [True]) \<and> (xs @ [True]) ! b \<longleftrightarrow> b = length xs \<or> b < length xs \<and> xs ! b"
  by (auto simp: nth_append less_Suc_eq)

lemma live_marked: "i < length xs \<Longrightarrow> b < length (xs[i := False]) \<and> xs[i := False] ! b \<longleftrightarrow> b \<noteq> i \<and> b < length xs \<and> xs ! b"
  by (auto simp: nth_list_update)

lemma slot_row_update:
  "j < length cs \<Longrightarrow> slot_row (cs[j := c]) s = (if fst s = j then chunk_row c (snd s) else slot_row cs s)"
  by (auto simp: slot_row_def nth_list_update)

text \<open>What a row adds to the text of the chunks: all of it goes to the last one.\<close>

definition text_step :: "mutable_table_chunk list \<Rightarrow> mutable_table_chunk list \<Rightarrow> (column_id \<rightharpoonup> field_data) \<Rightarrow> bool" where
  "text_step cs cs' vals \<longleftrightarrow> length cs' = length cs \<and>
     (\<forall>i < length cs. \<forall>col. chunk_text (cs' ! i) col = chunk_text (cs ! i) col + (if i = length cs - 1 then bytes_of (vals col) else 0))"

lemma text_step_last:
  assumes "text_step cs cs' vals" and "cs \<noteq> []"
  shows "chunk_text (last cs') col = chunk_text (last cs) col + bytes_of (vals col)"
proof -
  have "cs' \<noteq> []" "length cs' = length cs" using assms by (auto simp: text_step_def)
  then show ?thesis using assms by (simp add: text_step_def last_conv_nth)
qed

text \<open>A chunk after a row, as \<open>append_row\<close> leaves it.\<close>

definition appended :: "column_types \<Rightarrow> mutable_table_chunk \<Rightarrow> (column_id \<rightharpoonup> field_data) \<Rightarrow> mutable_table_chunk \<Rightarrow> bool" where
  "appended ty c vals c' \<longleftrightarrow> chunk_ok ty c' \<and> mc_row_count c' = mc_row_count c + 1 \<and> mc_live c' = mc_live c @ [True] \<and>
     (\<forall>i < mc_row_count c. chunk_row c' i = chunk_row c i) \<and> chunk_row c' (mc_row_count c) = vals"

lemma appended_text: "appended ty c vals c' \<Longrightarrow> chunk_text c' col = chunk_text c col + bytes_of (vals col)"
  using chunk_text_snoc [of c' c col] by (simp add: appended_def)

lemma append_row_cases:
  assumes "row_ok ty r" "chunk_ok ty c" "carry_ok ty carry c"
  obtains "append_row r carry c = None" "overflows c (new_row ty r carry c)"
  | c' where "append_row r carry c = Some (mc_row_count c, c')" "appended ty c (new_row ty r carry c) c'"
  using append_row_ok [OF assms] that unfolding appended_def by auto

lemma text_step_update:
  assumes "cs \<noteq> []" and j: "j = length cs - 1" and c': "appended ty (cs ! j) vals c'"
  shows "text_step cs (cs[j := c']) vals" and "text_step cs (cs[j := mark_superseded ri c']) vals"
    and "ci \<noteq> j \<Longrightarrow> text_step cs (cs[j := c', ci := mark_superseded ri (cs ! ci)]) vals"
proof -
  have "j < length cs" using assms(1,2) by simp
  then show "text_step cs (cs[j := c']) vals" "text_step cs (cs[j := mark_superseded ri c']) vals"
    "ci \<noteq> j \<Longrightarrow> text_step cs (cs[j := c', ci := mark_superseded ri (cs ! ci)]) vals"
    unfolding text_step_def j [symmetric] using appended_text [OF c']
    by (auto simp: nth_list_update) (cases "ci < length cs"; simp add: nth_list_update)
qed

lemma fresh_step:
  assumes cb: "buffered ty hash rows cb" and j: "j < length (cb_chunks cb)"
    and free: "map_of (cb_row_key_to_index cb) (row_key_for hash r) = None"
    and c': "appended ty (cb_chunks cb ! j) (latest (rows @ [r]) (point_of r)) c'"
  shows "buffered ty hash (rows @ [r]) \<lparr>cb_chunks = (cb_chunks cb)[j := c'],
    cb_row_key_to_index = hm_insert (row_key_for hash r) (j, mc_row_count (cb_chunks cb ! j)) (cb_row_key_to_index cb)\<rparr>"
proof (rule buffered_step [OF cb refl])
  define c where "c = cb_chunks cb ! j"
  note c' = c' [folded c_def, unfolded appended_def]
  have ok: "\<forall>c \<in> set (cb_chunks cb). chunk_ok ty c" using cb by (simp add: buffered_def)
  then have n: "length (mc_live c) = mc_row_count c" using j by (simp add: c_def chunk_ok_def)
  have live': "mc_live c' = mc_live c @ [True]" using c' by blast
  show "\<forall>c \<in> set ((cb_chunks cb)[j := c']). chunk_ok ty c" using ok c' by (intro ball_update) auto
  show "\<not> slot_live (cb_chunks cb) (j, mc_row_count (cb_chunks cb ! j))" using n by (simp add: slot_live_def c_def)
  show "slot_live ((cb_chunks cb)[j := c']) s \<longleftrightarrow> s = (j, mc_row_count (cb_chunks cb ! j)) \<or>
      slot_live (cb_chunks cb) s \<and> map_of (cb_row_key_to_index cb) (row_key_for hash r) \<noteq> Some s" for s
  proof (cases s)
    case (Pair a b)
    show ?thesis
      unfolding Pair slot_live_update [OF j] fst_conv snd_conv live' live_snoc n free c_def [symmetric]
      by (cases "a = j") (simp_all add: slot_live_at [OF j] c_def [symmetric] n)
  qed
  show "slot_row ((cb_chunks cb)[j := c']) s = slot_row (cb_chunks cb) s" if "slot_live (cb_chunks cb) s" for s
    using that j n c' by (auto simp: slot_row_def nth_list_update slot_live_def c_def)
  show "slot_row ((cb_chunks cb)[j := c']) (j, mc_row_count (cb_chunks cb ! j)) = latest (rows @ [r]) (point_of r)"
    using j c' by (simp add: slot_row_update c_def)
qed

lemma add_fresh_row:
  assumes cb: "buffered ty hash rows cb" and rows: "\<forall>r' \<in> set rows. row_ok ty r'" and r: "row_ok ty r"
    and ne: "cb_chunks cb \<noteq> []" and free: "map_of (cb_row_key_to_index cb) (row_key_for hash r) = None"
  shows "add_row hash r cb = None \<and> overflows (last (cb_chunks cb)) (latest (rows @ [r]) (point_of r)) \<or>
    (\<exists>cb'. add_row hash r cb = Some cb' \<and> buffered ty hash (rows @ [r]) cb' \<and>
      text_step (cb_chunks cb) (cb_chunks cb') (latest (rows @ [r]) (point_of r)))"
proof -
  define j where "j = length (cb_chunks cb) - 1"
  define c where "c = cb_chunks cb ! j"
  have j: "j < length (cb_chunks cb)" and lst: "last (cb_chunks cb) = c" using ne by (simp_all add: j_def c_def last_conv_nth)
  then have c: "chunk_ok ty c" using cb by (simp add: buffered_def c_def)
  have "point_of r \<notin> points_of rows"
    using cb free unfolding buffered_def row_key_for_def by fastforce
  then have row: "new_row ty r CarryNone c = latest (rows @ [r]) (point_of r)"
    by (intro carried_is_latest [OF rows]) (simp add: carry_row_def latest_absent)
  have run: "add_row hash r cb = map_option (\<lambda>(this_row, c'). \<lparr>cb_chunks = (cb_chunks cb)[j := c'],
      cb_row_key_to_index = hm_insert (row_key_for hash r) (j, this_row) (cb_row_key_to_index cb)\<rparr>) (append_row r CarryNone c)"
    unfolding add_row_def Let_def free option.case j_def c_def ..
  have co: "carry_ok ty CarryNone c" by (simp add: carry_ok_def)
  show ?thesis
  proof (cases rule: append_row_cases [OF r c co])
    case 1
    then show ?thesis by (simp add: run row lst)
  next
    case (2 c')
    have c': "appended ty (cb_chunks cb ! j) (latest (rows @ [r]) (point_of r)) c'" using 2(2) row unfolding c_def [symmetric] by simp
    show ?thesis
      using fresh_step [OF cb j free c'] text_step_update(1) [OF ne j_def c'] 2(1) by (simp add: run c_def)
  qed
qed

lemma slot_of_key:
  assumes cb: "buffered ty hash rows cb" and at: "map_of (cb_row_key_to_index cb) (row_key_for hash r) = Some s"
    and inj: "inj_on (hash \<circ> key_bytes) (points_of (rows @ [r]))"
  shows "slot_live (cb_chunks cb) s" and "slot_row (cb_chunks cb) s = latest rows (point_of r)"
proof -
  obtain p where p: "slot_live (cb_chunks cb) s" "p \<in> points_of rows" "hash (key_bytes p) = row_key_for hash r"
    "slot_row (cb_chunks cb) s = latest rows p"
    using cb at unfolding buffered_def by blast
  have "p = point_of r"
    using inj_onD [OF inj, of p "point_of r"] p(2,3) by (simp add: row_key_for_def points_of_def)
  then show "slot_live (cb_chunks cb) s" "slot_row (cb_chunks cb) s = latest rows (point_of r)" using p by auto
qed

lemma live_after_overwrite:
  assumes j: "j < length cs" and ci: "ci < length cs" and c': "mc_live c' = mc_live (cs ! j) @ [True]"
    and ri: "ri < length (mc_live (cs ! ci))"
  shows "slot_live (if ci = j then cs[j := mark_superseded ri c'] else cs[j := c', ci := mark_superseded ri (cs ! ci)]) x \<longleftrightarrow>
    x = (j, length (mc_live (cs ! j))) \<or> slot_live cs x \<and> x \<noteq> (ci, ri)"
proof (cases x)
  case (Pair a b)
  have j': "ci < length (cs[j := c'])" using ci by simp
  show ?thesis
  proof (cases "ci = j")
    case True
    have ri': "ri < length (mc_live (cs ! j) @ [True])" using ri True by simp
    show ?thesis
      unfolding Pair if_P [OF True] slot_live_update [OF j] fst_conv snd_conv mc_live_mark c'
        live_marked [OF ri'] live_snoc
      using ri True by (cases "a = j") (auto simp: slot_live_at [OF j] live_snoc)
  next
    case False
    show ?thesis
      unfolding Pair if_not_P [OF False] slot_live_update [OF j'] slot_live_update [OF j] fst_conv snd_conv
        mc_live_mark live_marked [OF ri] c' live_snoc
      using False by (cases "a = j"; cases "a = ci") (auto simp: slot_live_at [OF j] slot_live_at [OF ci])
  qed
qed

lemma overwrite_step:
  assumes cb: "buffered ty hash rows cb" and j: "j < length (cb_chunks cb)"
    and at: "map_of (cb_row_key_to_index cb) (row_key_for hash r) = Some (ci, ri)"
    and sl: "slot_live (cb_chunks cb) (ci, ri)"
    and c': "appended ty (cb_chunks cb ! j) (latest (rows @ [r]) (point_of r)) c'"
  shows "buffered ty hash (rows @ [r]) \<lparr>cb_chunks =
      (if ci = j then (cb_chunks cb)[j := mark_superseded ri c']
       else (cb_chunks cb)[j := c', ci := mark_superseded ri (cb_chunks cb ! ci)]),
    cb_row_key_to_index = hm_insert (row_key_for hash r) (j, mc_row_count (cb_chunks cb ! j)) (cb_row_key_to_index cb)\<rparr>"
proof (rule buffered_step [OF cb refl])
  define c s where "c = cb_chunks cb ! j" and "s = cb_chunks cb ! ci"
  note c' = c' [folded c_def, unfolded appended_def]
  have ok: "\<forall>c \<in> set (cb_chunks cb). chunk_ok ty c" using cb by (simp add: buffered_def)
  have ci: "ci < length (cb_chunks cb)" "ri < length (mc_live s)" "mc_live s ! ri"
    using sl by (auto simp: slot_live_def s_def)
  have s: "chunk_ok ty s" and "chunk_ok ty c" using j ci ok by (simp_all add: c_def s_def)
  then have n: "length (mc_live c) = mc_row_count c" "length (mc_live s) = mc_row_count s" by (simp_all add: chunk_ok_def)
  have cs: "c = s" if "ci = j" using that by (simp add: c_def s_def)
  have ok': "chunk_ok ty c'" and live': "mc_live c' = mc_live c @ [True]" using c' by blast+
  have m1: "chunk_ok ty (mark_superseded ri c')" if "ci = j"
    using mark_superseded_ok [OF ok'] ci n cs [OF that] c' by (simp add: nth_append)
  have m2: "chunk_ok ty (mark_superseded ri s)" using mark_superseded_ok [OF s] ci n by simp
  show "\<forall>c \<in> set (if ci = j then (cb_chunks cb)[j := mark_superseded ri c']
      else (cb_chunks cb)[j := c', ci := mark_superseded ri (cb_chunks cb ! ci)]). chunk_ok ty c"
    using ball_update [OF ok m1] ball_update [OF ball_update [OF ok ok'] m2] by (simp add: s_def)
  show "\<not> slot_live (cb_chunks cb) (j, mc_row_count (cb_chunks cb ! j))" using n by (simp add: slot_live_def c_def)
  show "slot_live (if ci = j then (cb_chunks cb)[j := mark_superseded ri c']
      else (cb_chunks cb)[j := c', ci := mark_superseded ri (cb_chunks cb ! ci)]) x \<longleftrightarrow> x = (j, mc_row_count (cb_chunks cb ! j)) \<or>
      slot_live (cb_chunks cb) x \<and> map_of (cb_row_key_to_index cb) (row_key_for hash r) \<noteq> Some x" for x
    using live_after_overwrite [OF j ci(1) live' [unfolded c_def] ci(2) [unfolded s_def], of x] at n by (auto simp: c_def)
  show "slot_row (if ci = j then (cb_chunks cb)[j := mark_superseded ri c']
      else (cb_chunks cb)[j := c', ci := mark_superseded ri (cb_chunks cb ! ci)]) x = slot_row (cb_chunks cb) x"
    if "slot_live (cb_chunks cb) x" for x
    using that j n ci(1) c' by (auto simp: nth_list_update slot_row_def slot_live_def c_def s_def)
  show "slot_row (if ci = j then (cb_chunks cb)[j := mark_superseded ri c']
      else (cb_chunks cb)[j := c', ci := mark_superseded ri (cb_chunks cb ! ci)]) (j, mc_row_count (cb_chunks cb ! j)) =
      latest (rows @ [r]) (point_of r)"
    using j ci(1) c' by (simp add: slot_row_update c_def)
qed

lemma add_overwriting_row:
  assumes cb: "buffered ty hash rows cb" and rows: "\<forall>r' \<in> set rows. row_ok ty r'" and r: "row_ok ty r"
    and inj: "inj_on (hash \<circ> key_bytes) (points_of (rows @ [r]))"
    and ne: "cb_chunks cb \<noteq> []" and at: "map_of (cb_row_key_to_index cb) (row_key_for hash r) = Some (ci, ri)"
  shows "add_row hash r cb = None \<and> overflows (last (cb_chunks cb)) (latest (rows @ [r]) (point_of r)) \<or>
    (\<exists>cb'. add_row hash r cb = Some cb' \<and> buffered ty hash (rows @ [r]) cb' \<and>
      text_step (cb_chunks cb) (cb_chunks cb') (latest (rows @ [r]) (point_of r)))"
proof -
  define j where "j = length (cb_chunks cb) - 1"
  define c s where "c = cb_chunks cb ! j" and "s = cb_chunks cb ! ci"
  define carry where "carry = (if ci = j then CarryLocal ri else CarryForeign s ri)"
  have j: "j < length (cb_chunks cb)" and lst: "last (cb_chunks cb) = c" using ne by (simp_all add: j_def c_def last_conv_nth)
  note sl = slot_of_key [OF cb at inj]
  have ci: "ci < length (cb_chunks cb)" "ri < length (mc_live s)" using sl(1) by (auto simp: slot_live_def s_def)
  have c: "chunk_ok ty c" and s: "chunk_ok ty s" using cb j ci by (simp_all add: buffered_def c_def s_def)
  have cs: "c = s" if "ci = j" using that by (simp add: c_def s_def)
  have co: "carry_ok ty carry c" using ci s cs by (auto simp: carry_ok_def carry_def chunk_ok_def)
  have "carry_row ty carry c col = slot_row (cb_chunks cb) (ci, ri) col" if "ty col \<noteq> Some TagColumn" for col
    using that cs by (auto simp: carry_row_def carry_def slot_row_def chunk_row_def s_def)
  then have row: "new_row ty r carry c = latest (rows @ [r]) (point_of r)"
    using sl(2) by (intro carried_is_latest [OF rows]) simp
  have run: "add_row hash r cb = map_option (\<lambda>(this_row, c'). \<lparr>cb_chunks =
        (if ci = j then (cb_chunks cb)[j := mark_superseded ri c'] else (cb_chunks cb)[j := c', ci := mark_superseded ri s]),
      cb_row_key_to_index = hm_insert (row_key_for hash r) (j, this_row) (cb_row_key_to_index cb)\<rparr>) (append_row r carry c)"
    unfolding add_row_def Let_def j_def [symmetric] c_def [symmetric] at option.case prod.case s_def [symmetric]
    by (auto simp: carry_def intro!: arg_cong [where f = "\<lambda>f. map_option f _"])
  show ?thesis
  proof (cases rule: append_row_cases [OF r c co])
    case 1
    then show ?thesis by (simp add: run row lst)
  next
    case (2 c')
    have c': "appended ty (cb_chunks cb ! j) (latest (rows @ [r]) (point_of r)) c'" using 2(2) row unfolding c_def [symmetric] by simp
    show ?thesis
      using overwrite_step [OF cb j at sl(1) c'] text_step_update(2) [OF ne j_def c', of ri]
        text_step_update(3) [OF ne j_def c', of ci ri] 2(1) by (auto simp: run c_def s_def)
  qed
qed

lemma add_row_ok:
  assumes "buffered ty hash rows cb" and "\<forall>r' \<in> set rows. row_ok ty r'" and "row_ok ty r"
    and "inj_on (hash \<circ> key_bytes) (points_of (rows @ [r]))" and "cb_chunks cb \<noteq> []"
  shows "add_row hash r cb = None \<and> overflows (last (cb_chunks cb)) (latest (rows @ [r]) (point_of r)) \<or>
    (\<exists>cb'. add_row hash r cb = Some cb' \<and> buffered ty hash (rows @ [r]) cb' \<and>
      text_step (cb_chunks cb) (cb_chunks cb') (latest (rows @ [r]) (point_of r)))"
  using add_fresh_row [OF assms(1-3,5)] add_overwriting_row [OF assms(1-5)]
  by (cases "map_of (cb_row_key_to_index cb) (row_key_for hash r)") auto

lemma add_rows_ok:
  assumes "buffered ty hash rows cb" and "\<forall>r \<in> set (rows @ new). row_ok ty r"
    and "inj_on (hash \<circ> key_bytes) (points_of (rows @ new))" and "cb_chunks cb \<noteq> []"
    and "add_rows hash new cb = Some cb'"
  shows "buffered ty hash (rows @ new) cb'"
  using assms
proof (induction new arbitrary: rows cb)
  case Nil
  then show ?case by (simp add: add_rows_def)
next
  case (Cons r new)
  have "inj_on (hash \<circ> key_bytes) (points_of (rows @ [r]))"
    by (rule inj_on_subset [OF Cons.prems(3)]) (auto simp: points_of_def)
  moreover obtain cb1 where run: "add_row hash r cb = Some cb1" "add_rows hash new cb1 = Some cb'"
    using Cons.prems(5) by (auto simp: add_rows_def split: option.splits)
  ultimately have cb1: "buffered ty hash (rows @ [r]) cb1" "length (cb_chunks cb1) = length (cb_chunks cb)"
    using add_row_ok [OF Cons.prems(1) _ _ _ Cons.prems(4), of r] Cons.prems(2) by (auto simp: text_step_def)
  have "cb_chunks cb1 \<noteq> []" using cb1(2) Cons.prems(4) by auto
  then show ?case using Cons.IH [OF cb1(1)] Cons.prems(2,3) run(2) by simp
qed

lemma chunk_ok_new: "chunk_ok ty mutable_table_chunk_new"
  by (simp add: chunk_ok_def mutable_table_chunk_new_def data_ok_def times_ok_def cell_def chunk_text_def hm_get_def)

lemma slot_live_new: "slot_live (cs @ [mutable_table_chunk_new]) s \<longleftrightarrow> slot_live cs s"
  by (auto simp: slot_live_def nth_append mutable_table_chunk_new_def split: if_splits)

lemma buffered_new_chunk:
  assumes cb: "buffered ty hash rows cb"
  shows "buffered ty hash rows (cb\<lparr>cb_chunks := cb_chunks cb @ [mutable_table_chunk_new]\<rparr>)"
proof -
  let ?cs = "cb_chunks cb @ [mutable_table_chunk_new]"
  have ix: "slot_live (cb_chunks cb) s \<and> (\<exists>p \<in> points_of rows. hash (key_bytes p) = k \<and> slot_row ?cs s = latest rows p)"
    if "map_of (cb_row_key_to_index cb) k = Some s" for k s
  proof -
    have s: "slot_live (cb_chunks cb) s \<and> (\<exists>p \<in> points_of rows. hash (key_bytes p) = k \<and> slot_row (cb_chunks cb) s = latest rows p)"
      using cb that unfolding buffered_def by blast
    then have "slot_row ?cs s = slot_row (cb_chunks cb) s" by (simp add: slot_row_def slot_live_def nth_append)
    then show ?thesis using s by simp
  qed
  have ok: "\<forall>c \<in> set ?cs. chunk_ok ty c" using cb chunk_ok_new by (simp add: buffered_def)
  have sel: "cb_chunks (cb\<lparr>cb_chunks := ?cs\<rparr>) = ?cs" "cb_row_key_to_index (cb\<lparr>cb_chunks := ?cs\<rparr>) = cb_row_key_to_index cb"
    by simp_all
  note inv = cb [unfolded buffered_def]
  show ?thesis
    unfolding buffered_def sel slot_live_new
    by (intro conjI ok) (use inv in blast, use ix in blast, use inv in blast, use inv in blast, use inv in blast)
qed

lemma buffer_rows_ok:
  assumes "buffered ty hash rows cb" and "\<forall>r \<in> set (rows @ new). row_ok ty r"
    and "inj_on (hash \<circ> key_bytes) (points_of (rows @ new))" and "buffer_rows limit hash new cb = Some cb'"
  shows "buffered ty hash (rows @ new) cb'"
proof (cases "cb_chunks cb = [] \<or> would_exceed_limit_with limit (incoming_bytes new) (last (cb_chunks cb))")
  case True
  then show ?thesis
    using add_rows_ok [OF buffered_new_chunk [OF assms(1)] assms(2,3)] assms(4) by (simp add: buffer_rows_def Let_def)
next
  case False
  then show ?thesis using add_rows_ok [OF assms(1-3)] assms(4) by (simp add: buffer_rows_def Let_def)
qed

lemma buffered_default: "buffered ty hash [] chunk_time_buffer_default"
  by (simp add: buffered_def chunk_time_buffer_default_def points_of_def slot_live_def)

text \<open>The writes of a table, in order, each with its chunk time; the rows that one chunk time received.\<close>

definition rows_at :: "(int \<times> row list) list \<Rightarrow> int \<Rightarrow> row list" where
  "rows_at ws t = concat (map snd (filter (\<lambda>w. fst w = t) ws))"

definition buffer_at :: "table_buffer \<Rightarrow> int \<Rightarrow> chunk_time_buffer" where
  "buffer_at tb t = hm_get chunk_time_buffer_default (tb_chunk_time_to_chunks tb) t"

definition table_ok :: "column_types \<Rightarrow> (nat list \<Rightarrow> nat) \<Rightarrow> (int \<times> row list) list \<Rightarrow> table_buffer \<Rightarrow> bool" where
  "table_ok ty hash ws tb \<longleftrightarrow> keys_distinct (tb_chunk_time_to_chunks tb) \<and>
     (\<forall>t. buffered ty hash (rows_at ws t) (buffer_at tb t))"

text \<open>Rows as the validator passes them on, and row identities that the hash keeps apart.\<close>

definition writes_ok :: "column_types \<Rightarrow> (nat list \<Rightarrow> nat) \<Rightarrow> (int \<times> row list) list \<Rightarrow> bool" where
  "writes_ok ty hash ws \<longleftrightarrow>
     (\<forall>w \<in> set ws. \<forall>r \<in> set (snd w). row_ok ty r) \<and> (\<forall>t. inj_on (hash \<circ> key_bytes) (points_of (rows_at ws t)))"

lemma rows_at_snoc: "rows_at (ws @ [(t, rows)]) t' = rows_at ws t' @ (if t = t' then rows else [])"
  by (simp add: rows_at_def)

lemma rows_at_ok: "writes_ok ty hash ws \<Longrightarrow> r \<in> set (rows_at ws t) \<Longrightarrow> row_ok ty r"
  by (auto simp: writes_ok_def rows_at_def)

lemma writes_ok_prefix: "writes_ok ty hash (ws @ us) \<Longrightarrow> writes_ok ty hash ws"
proof -
  assume ok: "writes_ok ty hash (ws @ us)"
  have "points_of (rows_at ws t) \<subseteq> points_of (rows_at (ws @ us) t)" for t by (auto simp: points_of_def rows_at_def)
  then have "inj_on (hash \<circ> key_bytes) (points_of (rows_at ws t))" for t
    using ok unfolding writes_ok_def by (meson inj_on_subset)
  then show ?thesis using ok unfolding writes_ok_def by auto
qed

lemma buffer_chunk_at:
  "buffer_chunk hash t rows tb =
     map_option (\<lambda>cb'. tb\<lparr>tb_chunk_time_to_chunks := hm_insert t cb' (tb_chunk_time_to_chunks tb)\<rparr>)
       (buffer_rows ARROW_VAR_COL_MAX_BYTES hash rows (buffer_at tb t))"
  by (simp add: buffer_chunk_def Let_def buffer_at_def hm_get_def)

lemma buffer_at_insert:
  "buffer_at (tb\<lparr>tb_chunk_time_to_chunks := hm_insert t cb (tb_chunk_time_to_chunks tb)\<rparr>) t' = (if t' = t then cb else buffer_at tb t')"
  by (simp add: buffer_at_def hm_get_def map_of_hm_insert)

lemma writes_ok_at:
  assumes "writes_ok ty hash (ws @ [(t, rows)])"
  shows "\<forall>r \<in> set (rows_at ws t @ rows). row_ok ty r" and "inj_on (hash \<circ> key_bytes) (points_of (rows_at ws t @ rows))"
  using rows_at_ok [OF assms, of _ t] assms unfolding rows_at_snoc writes_ok_def
  by (auto simp: rows_at_snoc dest!: spec [of _ t])

lemma buffer_chunk_ok:
  assumes tb: "table_ok ty hash ws tb" and ok: "writes_ok ty hash (ws @ [(t, rows)])" and run: "buffer_chunk hash t rows tb = Some tb'"
  shows "tb_snapshotting_chunks tb' = tb_snapshotting_chunks tb" and "table_ok ty hash (ws @ [(t, rows)]) tb'"
proof -
  obtain cb where cb: "buffer_rows ARROW_VAR_COL_MAX_BYTES hash rows (buffer_at tb t) = Some cb"
    and tb': "tb' = tb\<lparr>tb_chunk_time_to_chunks := hm_insert t cb (tb_chunk_time_to_chunks tb)\<rparr>"
    using run unfolding buffer_chunk_at by blast
  have "buffered ty hash (rows_at ws t) (buffer_at tb t)" using tb by (simp add: table_ok_def)
  then have "buffered ty hash (rows_at ws t @ rows) cb" by (rule buffer_rows_ok [OF _ writes_ok_at [OF ok] cb])
  then show "table_ok ty hash (ws @ [(t, rows)]) tb'"
    using tb by (simp add: table_ok_def rows_at_snoc tb' buffer_at_insert)
  show "tb_snapshotting_chunks tb' = tb_snapshotting_chunks tb" by (simp add: tb')
qed

section \<open>When writes return\<close>

text \<open>
  The text that rows append to a column, with what each row that replaces another carries over; whether some row
  carries text over at all; and the text that a write brings in itself, which the split of a chunk is decided by.
\<close>

definition text_appended :: "row list \<Rightarrow> column_id \<Rightarrow> nat" where
  "text_appended rows col =
     sum_list (map (\<lambda>k. bytes_of (latest (take (Suc k) rows) (point_of (rows ! k)) col)) [0..<length rows])"

definition carries_text :: "row list \<Rightarrow> column_id \<Rightarrow> bool" where
  "carries_text rows col \<longleftrightarrow>
     list_ex (\<lambda>k. fields_of (rows ! k) col = None \<and> bytes_of (latest (take k rows) (point_of (rows ! k)) col) > 0)
       [0..<length rows]"

definition write_text :: "row list \<Rightarrow> column_id \<Rightarrow> nat" where
  "write_text rows col = sum_list (map (\<lambda>r. bytes_of (fields_of r col)) rows)"

text \<open>
  Writes that stay within the limit: in each column of each chunk time, either all the text that its rows append
  fits, or no row carries text over and each single write fits.
\<close>

definition text_fits :: "(int \<times> row list) list \<Rightarrow> bool" where
  "text_fits ws \<longleftrightarrow>
     (\<forall>t col. text_appended (rows_at ws t) col \<le> ARROW_VAR_COL_MAX_BYTES \<or>
        \<not> carries_text (rows_at ws t) col \<and> (\<forall>w \<in> set ws. fst w = t \<longrightarrow> write_text (snd w) col \<le> ARROW_VAR_COL_MAX_BYTES))"

lemma text_appended_snoc:
  "text_appended (rows @ [r]) col = text_appended rows col + bytes_of (latest (rows @ [r]) (point_of r) col)"
proof -
  have "map (\<lambda>k. bytes_of (latest (take (Suc k) (rows @ [r])) (point_of ((rows @ [r]) ! k)) col)) [0..<length rows] =
      map (\<lambda>k. bytes_of (latest (take (Suc k) rows) (point_of (rows ! k)) col)) [0..<length rows]"
    by (rule map_cong) (auto simp: nth_append)
  then show ?thesis by (simp add: text_appended_def del: map_eq_conv)
qed

lemma text_appended_mono: "text_appended rows col \<le> text_appended (rows @ new) col"
proof (induction new rule: rev_induct)
  case (snoc r new)
  then show ?case using text_appended_snoc [of "rows @ new" r col] by simp
qed simp

lemma carries_text_prefix: "carries_text rows col \<Longrightarrow> carries_text (rows @ new) col"
  unfolding carries_text_def list_ex_iff by (auto simp: nth_append intro!: bexI)

lemma carries_text_at:
  assumes "\<not> carries_text (rows @ r # new) col"
  shows "bytes_of (latest (rows @ [r]) (point_of r) col) = bytes_of (fields_of r col)"
proof -
  have "\<not> (fields_of r col = None \<and> bytes_of (latest rows (point_of r) col) > 0)"
    using assms unfolding carries_text_def list_ex_iff by (auto dest!: bspec [of _ _ "length rows"])
  then show ?thesis by (cases "fields_of r col") (auto simp: latest_snoc bytes_of_def map_add_def)
qed

text \<open>The bytes counted before the split are those the write brings in.\<close>

lemma incoming_fold:
  "hm_get 0 (foldl (\<lambda>m f. case fld_value f of
      String v \<Rightarrow> hm_upd 0 (fld_id f) (\<lambda>n. n + length v) m
    | Tag v \<Rightarrow> hm_upd 0 (fld_id f) (\<lambda>n. n + length v) m | _ \<Rightarrow> m) m fs) col =
    hm_get 0 m col + sum_list (map (\<lambda>f. if fld_id f = col then var_bytes (fld_value f) else 0) fs)"
  for fs :: "field list"
  by (induction fs arbitrary: m) (auto simp: hm_get_upd split: field_data.split)

lemma fields_bytes:
  fixes fs :: "field list"
  assumes "distinct (map fld_id fs)"
  shows "sum_list (map (\<lambda>f. if fld_id f = col then var_bytes (fld_value f) else 0) fs) =
    bytes_of (map_of (map (\<lambda>f. (fld_id f, fld_value f)) fs) col)"
  using assms
proof (induction fs)
  case (Cons f fs)
  have "bytes_of (map_of (map (\<lambda>f. (fld_id f, fld_value f)) fs) col) = 0" if "col \<notin> fld_id ` set fs"
  proof -
    have "map_of (map (\<lambda>f. (fld_id f, fld_value f)) fs) col = None" using that by (simp add: map_of_eq_None_iff image_image)
    then show ?thesis by (simp add: bytes_of_def)
  qed
  then show ?case using Cons by (auto simp: bytes_of_def)
qed (simp add: bytes_of_def)

lemma incoming_bytes_text:
  assumes "\<forall>r \<in> set rows. row_ok ty r"
  shows "hm_get 0 (incoming_bytes rows) col = write_text rows col"
proof -
  have "sum_list (map (\<lambda>f. if fld_id f = col then var_bytes (fld_value f) else 0) (concat (map row_fields rows))) =
      write_text rows col"
    using assms
  proof (induction rows)
    case (Cons r rows)
    then have "distinct (map fld_id (row_fields r))" by (simp add: row_ok_def)
    from fields_bytes [OF this, of col] show ?case using Cons by (simp add: write_text_def fields_of_def)
  qed (simp add: write_text_def)
  then show ?thesis using incoming_fold [of "[]" "concat (map row_fields rows)" col] by (simp add: incoming_bytes_def hm_get_def)
qed

lemma within_limit:
  assumes "\<not> would_exceed_limit_with ARROW_VAR_COL_MAX_BYTES inc c" and "hm_get 0 (mc_string_bytes c) col \<le> ARROW_VAR_COL_MAX_BYTES"
  shows "hm_get 0 (mc_string_bytes c) col + hm_get 0 inc col \<le> ARROW_VAR_COL_MAX_BYTES"
proof (cases "map_of inc col")
  case None
  then show ?thesis using assms(2) by (simp add: hm_get_def)
next
  case (Some n)
  then have "min u64_max (hm_get 0 (mc_string_bytes c) col + n) \<le> ARROW_VAR_COL_MAX_BYTES"
    using assms(1) map_of_SomeD [OF Some] unfolding would_exceed_limit_with_def list_ex_iff by auto
  moreover have "ARROW_VAR_COL_MAX_BYTES < u64_max" by (simp add: ARROW_VAR_COL_MAX_BYTES_def u64_max_def)
  ultimately show ?thesis using Some by (simp add: hm_get_def min_def split: if_splits)
qed

definition texts_ok :: "row list \<Rightarrow> chunk_time_buffer \<Rightarrow> bool" where
  "texts_ok rows cb \<longleftrightarrow>
     (\<forall>c \<in> set (cb_chunks cb). \<forall>col. chunk_text c col \<le> text_appended rows col \<and> chunk_text c col \<le> ARROW_VAR_COL_MAX_BYTES)"

definition room_for :: "row list \<Rightarrow> row list \<Rightarrow> chunk_time_buffer \<Rightarrow> bool" where
  "room_for rows new cb \<longleftrightarrow>
     (\<forall>col. text_appended (rows @ new) col \<le> ARROW_VAR_COL_MAX_BYTES \<or>
        \<not> carries_text (rows @ new) col \<and> chunk_text (last (cb_chunks cb)) col + write_text new col \<le> ARROW_VAR_COL_MAX_BYTES)"

lemma room_for_row:
  assumes room: "room_for rows (r # new) cb" and t: "texts_ok rows cb" and ne: "cb_chunks cb \<noteq> []"
  shows "chunk_text (last (cb_chunks cb)) col + bytes_of (latest (rows @ [r]) (point_of r) col) \<le> ARROW_VAR_COL_MAX_BYTES"
proof -
  have "chunk_text (last (cb_chunks cb)) col \<le> text_appended rows col" using t ne by (simp add: texts_ok_def)
  then have "text_appended (rows @ r # new) col \<le> ARROW_VAR_COL_MAX_BYTES \<Longrightarrow> ?thesis"
    using text_appended_snoc [of rows r col] text_appended_mono [of "rows @ [r]" col new] by simp
  moreover have "\<not> carries_text (rows @ r # new) col \<Longrightarrow>
      chunk_text (last (cb_chunks cb)) col + write_text (r # new) col \<le> ARROW_VAR_COL_MAX_BYTES \<Longrightarrow> ?thesis"
    using carries_text_at [of rows r new col] by (simp add: write_text_def)
  ultimately show ?thesis using room unfolding room_for_def by blast
qed

lemma texts_ok_step:
  assumes step: "text_step (cb_chunks cb) (cb_chunks cb') (latest (rows @ [r]) (point_of r))" and ne: "cb_chunks cb \<noteq> []"
    and room: "room_for rows (r # new) cb" and t: "texts_ok rows cb"
  shows "texts_ok (rows @ [r]) cb'" and "room_for (rows @ [r]) new cb'"
proof -
  let ?v = "latest (rows @ [r]) (point_of r)"
  have len: "length (cb_chunks cb') = length (cb_chunks cb)" using step by (simp add: text_step_def)
  have "chunk_text (cb_chunks cb' ! i) col \<le> text_appended (rows @ [r]) col \<and> chunk_text (cb_chunks cb' ! i) col \<le> ARROW_VAR_COL_MAX_BYTES"
    if i: "i < length (cb_chunks cb)" for i col
  proof -
    have "chunk_text (cb_chunks cb ! i) col \<le> text_appended rows col" "chunk_text (cb_chunks cb ! i) col \<le> ARROW_VAR_COL_MAX_BYTES"
      using t i by (auto simp: texts_ok_def)
    then show ?thesis using step i room_for_row [OF room t ne, of col]
      by (auto simp: text_step_def text_appended_snoc last_conv_nth [OF ne])
  qed
  then show "texts_ok (rows @ [r]) cb'" by (auto simp: texts_ok_def in_set_conv_nth len)
  show "room_for (rows @ [r]) new cb'"
    using room carries_text_at [of rows r new] unfolding room_for_def text_step_last [OF step ne]
    by (auto simp: write_text_def add.assoc)
qed

lemma add_rows_returns:
  assumes "buffered ty hash rows cb" and "\<forall>r \<in> set (rows @ new). row_ok ty r"
    and "inj_on (hash \<circ> key_bytes) (points_of (rows @ new))" and "cb_chunks cb \<noteq> []"
    and "texts_ok rows cb" and "room_for rows new cb"
  shows "\<exists>cb'. add_rows hash new cb = Some cb' \<and> texts_ok (rows @ new) cb'"
  using assms
proof (induction new arbitrary: rows cb)
  case Nil
  then show ?case by (simp add: add_rows_def)
next
  case (Cons r new)
  have "inj_on (hash \<circ> key_bytes) (points_of (rows @ [r]))"
    by (rule inj_on_subset [OF Cons.prems(3)]) (auto simp: points_of_def)
  moreover have "\<not> overflows (last (cb_chunks cb)) (latest (rows @ [r]) (point_of r))"
    using room_for_row [OF Cons.prems(6,5,4)] by (auto simp: overflows_def not_less)
  ultimately obtain cb1 where cb1: "add_row hash r cb = Some cb1" "buffered ty hash (rows @ [r]) cb1"
    "text_step (cb_chunks cb) (cb_chunks cb1) (latest (rows @ [r]) (point_of r))"
    using add_row_ok [OF Cons.prems(1) _ _ _ Cons.prems(4), of r] Cons.prems(2) by auto
  note step = texts_ok_step [OF cb1(3) Cons.prems(4,6,5)]
  have "cb_chunks cb1 \<noteq> []" using cb1(3) Cons.prems(4) by (auto simp: text_step_def)
  then show ?case using Cons.IH [OF cb1(2) _ _ _ step] Cons.prems(2,3) cb1(1) by (simp add: add_rows_def)
qed

lemma chunk_text_new: "chunk_text mutable_table_chunk_new col = 0"
  by (simp add: chunk_text_def mutable_table_chunk_new_def)

lemma buffer_rows_returns:
  assumes cb: "buffered ty hash rows cb" and rows: "\<forall>r \<in> set (rows @ new). row_ok ty r"
    and inj: "inj_on (hash \<circ> key_bytes) (points_of (rows @ new))" and t: "texts_ok rows cb"
    and fits: "\<And>col. text_appended (rows @ new) col \<le> ARROW_VAR_COL_MAX_BYTES \<or>
      \<not> carries_text (rows @ new) col \<and> write_text new col \<le> ARROW_VAR_COL_MAX_BYTES"
  shows "\<exists>cb'. buffer_rows ARROW_VAR_COL_MAX_BYTES hash new cb = Some cb' \<and> texts_ok (rows @ new) cb'"
proof (cases "cb_chunks cb = [] \<or> would_exceed_limit_with ARROW_VAR_COL_MAX_BYTES (incoming_bytes new) (last (cb_chunks cb))")
  case True
  let ?cb = "cb\<lparr>cb_chunks := cb_chunks cb @ [mutable_table_chunk_new]\<rparr>"
  have "texts_ok rows ?cb" "room_for rows new ?cb"
    using t fits by (auto simp: texts_ok_def room_for_def chunk_text_new)
  then show ?thesis
    using True add_rows_returns [OF buffered_new_chunk [OF cb] rows inj] by (simp add: buffer_rows_def Let_def)
next
  case False
  then have last_ok: "last (cb_chunks cb) \<in> set (cb_chunks cb)" by simp
  then have bytes: "hm_get 0 (mc_string_bytes (last (cb_chunks cb))) col = chunk_text (last (cb_chunks cb)) col" for col
    using cb by (auto simp: buffered_def chunk_ok_def)
  have "hm_get 0 (incoming_bytes new) col = write_text new col" for col using incoming_bytes_text [of new ty] rows by simp
  then have "chunk_text (last (cb_chunks cb)) col + write_text new col \<le> ARROW_VAR_COL_MAX_BYTES" for col
    using within_limit [of "incoming_bytes new" "last (cb_chunks cb)" col] False t last_ok by (auto simp: bytes texts_ok_def)
  then have "room_for rows new cb" using fits by (auto simp: room_for_def)
  then show ?thesis using False add_rows_returns [OF cb rows inj _ t] by (simp add: buffer_rows_def Let_def)
qed

lemma text_fits_prefix:
  assumes "text_fits (ws @ us)"
  shows "text_fits ws"
  unfolding text_fits_def
proof (intro allI)
  fix t col
  have at: "rows_at (ws @ us) t = rows_at ws t @ rows_at us t" by (simp add: rows_at_def)
  note fits = assms [unfolded text_fits_def, rule_format, of t col, unfolded at]
  show "text_appended (rows_at ws t) col \<le> ARROW_VAR_COL_MAX_BYTES \<or>
      \<not> carries_text (rows_at ws t) col \<and> (\<forall>w \<in> set ws. fst w = t \<longrightarrow> write_text (snd w) col \<le> ARROW_VAR_COL_MAX_BYTES)"
    using fits text_appended_mono [of "rows_at ws t" col "rows_at us t"] carries_text_prefix [of "rows_at ws t" col "rows_at us t"]
    by auto
qed

lemma buffer_chunk_returns:
  assumes tb: "table_ok ty hash ws tb" and t: "\<forall>t. texts_ok (rows_at ws t) (buffer_at tb t)"
    and ok: "writes_ok ty hash (ws @ [(t, rows)])" and fits: "text_fits (ws @ [(t, rows)])"
  shows "\<exists>tb'. buffer_chunk hash t rows tb = Some tb' \<and> (\<forall>t'. texts_ok (rows_at (ws @ [(t, rows)]) t') (buffer_at tb' t'))"
proof -
  have "text_appended (rows_at ws t @ rows) col \<le> ARROW_VAR_COL_MAX_BYTES \<or>
      \<not> carries_text (rows_at ws t @ rows) col \<and> write_text rows col \<le> ARROW_VAR_COL_MAX_BYTES" for col
    using fits [unfolded text_fits_def, rule_format, of t col] by (auto simp: rows_at_snoc)
  moreover have "buffered ty hash (rows_at ws t) (buffer_at tb t)" using tb by (simp add: table_ok_def)
  ultimately obtain cb where "buffer_rows ARROW_VAR_COL_MAX_BYTES hash rows (buffer_at tb t) = Some cb" "texts_ok (rows_at ws t @ rows) cb"
    using buffer_rows_returns [OF _ writes_ok_at [OF ok]] t by blast
  then show ?thesis using t by (auto simp: buffer_chunk_at buffer_at_insert rows_at_snoc)
qed

section \<open>One row for every point\<close>

text \<open>The rows of a chunk that no later row has replaced.\<close>

definition live_indices :: "mutable_table_chunk \<Rightarrow> nat list" where
  "live_indices c = filter (\<lambda>i. mc_live c ! i) [0..<mc_row_count c]"

definition live_rows_of :: "mutable_table_chunk list \<Rightarrow> (column_id \<rightharpoonup> field_data) list" where
  "live_rows_of cs = concat (map (\<lambda>c. map (chunk_row c) (live_indices c)) cs)"

definition live_slots :: "mutable_table_chunk list \<Rightarrow> slot list" where
  "live_slots cs = concat (map (\<lambda>i. map (Pair i) (live_indices (cs ! i))) [0..<length cs])"

lemma live_rows_of_slots: "live_rows_of cs = map (slot_row cs) (live_slots cs)"
proof -
  have "map (\<lambda>c. map (chunk_row c) (live_indices c)) cs =
      map (\<lambda>i. map (chunk_row (cs ! i)) (live_indices (cs ! i))) [0..<length cs]"
    by (rule nth_equalityI) simp_all
  then show ?thesis by (simp add: live_rows_of_def live_slots_def map_concat o_def slot_row_def)
qed

lemma distinct_live_slots: "distinct (live_slots cs)"
proof -
  have "distinct (concat (map (\<lambda>i. map (Pair i) (live_indices (cs ! i))) [0..<n]))" for n
    by (induction n) (auto simp: distinct_map inj_on_def live_indices_def)
  then show ?thesis by (simp add: live_slots_def)
qed

lemma set_live_slots:
  assumes "\<forall>c \<in> set cs. chunk_ok ty c"
  shows "set (live_slots cs) = {s. slot_live cs s}"
proof -
  have "mc_row_count (cs ! i) = length (mc_live (cs ! i))" if "i < length cs" for i
    using assms that by (simp add: chunk_ok_def)
  then show ?thesis by (auto simp: live_slots_def live_indices_def slot_live_def)
qed

lemma latest_all:
  assumes "p \<in> points_of rows" and "\<And>r. r \<in> set rows \<Longrightarrow> point_of r = p \<Longrightarrow> fields_of r col = Some x"
  shows "latest rows p col = Some x"
  using assms
proof (induction rows rule: rev_induct)
  case Nil
  then show ?case by (simp add: points_of_def)
next
  case (snoc r rows)
  show ?case
  proof (cases "point_of r = p")
    case True
    then show ?thesis using snoc.prems(2) [of r] by (simp add: latest_snoc)
  next
    case False
    then have "p \<in> points_of rows" using snoc.prems(1) by (auto simp: points_of_def)
    then show ?thesis using snoc.IH snoc.prems(2) False by (simp add: latest_snoc)
  qed
qed

lemma tag_field:
  assumes "row_ok ty r"
  shows "(col, v) \<in> set (row_tags r) \<longleftrightarrow> fields_of r col = Some (Tag v)"
proof -
  have "distinct (map fst (map (\<lambda>f. (fld_id f, fld_value f)) (row_fields r)))"
    using assms by (simp add: row_ok_def o_def)
  then have "fields_of r col = Some (Tag v) \<longleftrightarrow> (col, Tag v) \<in> set (map (\<lambda>f. (fld_id f, fld_value f)) (row_fields r))"
    unfolding fields_of_def by (rule map_of_eq_Some_iff)
  then show ?thesis by (auto simp: set_row_tags)
qed

lemma latest_tags:
  assumes rows: "\<forall>r \<in> set rows. row_ok ty r" and p: "p \<in> points_of rows"
  shows "latest rows p col = Some (Tag v) \<longleftrightarrow> (col, v) \<in> set (fst p)"
proof
  assume "latest rows p col = Some (Tag v)"
  then obtain r where "r \<in> set rows" "point_of r = p" "fields_of r col = Some (Tag v)" using latest_from by blast
  then show "(col, v) \<in> set (fst p)" using tag_field [of ty r col v] rows by (auto simp: point_of_def)
next
  assume v: "(col, v) \<in> set (fst p)"
  have "fields_of r col = Some (Tag v)" if "r \<in> set rows" "point_of r = p" for r
    using tag_field [of ty r col v] rows that v by (auto simp: point_of_def)
  then show "latest rows p col = Some (Tag v)" by (rule latest_all [OF p])
qed

lemma latest_time:
  assumes "\<forall>r \<in> set rows. row_ok ty r" and "p \<in> points_of rows" and "ty col = Some TimestampColumn"
  shows "latest rows p col = Some (Timestamp (snd p))"
proof (rule latest_all [OF assms(2)])
  fix r
  assume "r \<in> set rows" "point_of r = p"
  then show "fields_of r col = Some (Timestamp (snd p))" using assms(1,3) by (auto simp: row_ok_def point_of_def)
qed

lemma row_tags_sorted:
  assumes "row_ok ty r"
  shows "sorted (map fst (row_tags r))" and "distinct (map fst (row_tags r))"
proof -
  show "sorted (map fst (row_tags r))" by (simp add: row_tags_def)
  have "distinct (map fst (List.map_filter (\<lambda>f. case fld_value f of Tag v \<Rightarrow> Some (fld_id f, v) | _ \<Rightarrow> None) fs))"
    if "distinct (map fld_id fs)" for fs :: "field list"
    using that
  proof (induction fs)
    case (Cons f fs)
    have "fst y \<in> fld_id ` set fs"
      if y: "y \<in> set (List.map_filter (\<lambda>f. case fld_value f of Tag v \<Rightarrow> Some (fld_id f, v) | _ \<Rightarrow> None) fs)" for y
    proof -
      obtain x where x: "x \<in> set fs" "(case fld_value x of Tag v \<Rightarrow> Some (fld_id x, v) | _ \<Rightarrow> None) = Some y"
        using y unfolding set_map_filter_option by blast
      then have "fst y = fld_id x" by (cases "fld_value x") auto
      then show ?thesis using x(1) by simp
    qed
    then show ?case using Cons by (cases "fld_value f") (auto simp: List.map_filter_simps)
  qed (simp add: List.map_filter_simps)
  then show "distinct (map fst (row_tags r))" using assms
    by (simp add: row_tags_def row_ok_def distinct_map)
qed

lemma latest_inj:
  assumes rows: "\<forall>r \<in> set rows. row_ok ty r"
  shows "inj_on (latest rows) (points_of rows)"
proof (rule inj_onI)
  fix p q
  assume p: "p \<in> points_of rows" and q: "q \<in> points_of rows" and eq: "latest rows p = latest rows q"
  obtain r1 r2 where r: "r1 \<in> set rows" "p = point_of r1" "r2 \<in> set rows" "q = point_of r2"
    using p q by (auto simp: points_of_def)
  have "set (fst p) = set (fst q)" using latest_tags [OF rows p] latest_tags [OF rows q] eq by auto
  then have tags: "set (row_tags r1) = set (row_tags r2)" by (simp add: r point_of_def)
  have ok: "row_ok ty r1" "row_ok ty r2" using rows r by simp_all
  have "inj_on fst (set (row_tags r1) \<union> set (row_tags r2))"
    using row_tags_sorted(2) [OF ok(1)] unfolding tags [symmetric] by (simp add: distinct_map)
  then have "row_tags r1 = row_tags r2"
    using row_tags_sorted [OF ok(1)] row_tags_sorted [OF ok(2)] tags by (rule map_sorted_distinct_set_unique)
  moreover obtain col where "ty col = Some TimestampColumn" using rows r(1) by (auto simp: row_ok_def)
  then have "snd p = snd q" using latest_time [OF rows p] latest_time [OF rows q] eq by auto
  ultimately show "p = q" by (simp add: r point_of_def)
qed

lemma buffered_rows:
  assumes cb: "buffered ty hash rows cb" and rows: "\<forall>r \<in> set rows. row_ok ty r"
    and inj: "inj_on (hash \<circ> key_bytes) (points_of rows)"
  shows "set (live_rows_of (cb_chunks cb)) = latest rows ` points_of rows" and "distinct (live_rows_of (cb_chunks cb))"
proof -
  let ?ix = "map_of (cb_row_key_to_index cb)" and ?cs = "cb_chunks cb"
  have ok: "\<forall>c \<in> set ?cs. chunk_ok ty c" using cb by (simp add: buffered_def)
  have slot: "\<exists>p \<in> points_of rows. ?ix (hash (key_bytes p)) = Some s \<and> slot_row ?cs s = latest rows p"
    if s: "slot_live ?cs s" for s
  proof -
    obtain k where k: "?ix k = Some s" using cb s unfolding buffered_def by blast
    then obtain p where "p \<in> points_of rows" "hash (key_bytes p) = k" "slot_row ?cs s = latest rows p"
      using cb unfolding buffered_def by blast
    then show ?thesis using k by blast
  qed
  have point: "\<exists>s. slot_live ?cs s \<and> slot_row ?cs s = latest rows p" if p: "p \<in> points_of rows" for p
  proof -
    obtain s where s: "?ix (hash (key_bytes p)) = Some s" using cb p unfolding buffered_def by blast
    then obtain q where q: "slot_live ?cs s" "q \<in> points_of rows" "hash (key_bytes q) = hash (key_bytes p)"
      "slot_row ?cs s = latest rows q" using cb unfolding buffered_def by blast
    have "q = p" using inj_onD [OF inj, of q p] q(2,3) p by simp
    then show ?thesis using q by blast
  qed
  show "set (live_rows_of ?cs) = latest rows ` points_of rows"
    unfolding live_rows_of_slots set_map set_live_slots [OF ok] using slot point by (auto simp: image_iff; metis)
  have "inj_on (slot_row ?cs) {s. slot_live ?cs s}"
  proof (rule inj_onI)
    fix s1 s2
    assume s: "s1 \<in> {s. slot_live ?cs s}" "s2 \<in> {s. slot_live ?cs s}" and eq: "slot_row ?cs s1 = slot_row ?cs s2"
    obtain p1 p2 where p: "p1 \<in> points_of rows" "?ix (hash (key_bytes p1)) = Some s1" "slot_row ?cs s1 = latest rows p1"
      "p2 \<in> points_of rows" "?ix (hash (key_bytes p2)) = Some s2" "slot_row ?cs s2 = latest rows p2"
      using slot s by blast
    have "p1 = p2" using inj_onD [OF latest_inj [OF rows], of p1 p2] p(1,3,4,6) eq by simp
    then show "s1 = s2" using p(2,5) by simp
  qed
  then show "distinct (live_rows_of ?cs)"
    unfolding live_rows_of_slots distinct_map set_live_slots [OF ok] using distinct_live_slots by blast
qed

definition buffer_writes :: "(nat list \<Rightarrow> nat) \<Rightarrow> (int \<times> row list) list \<Rightarrow> table_buffer \<Rightarrow> table_buffer option" where
  "buffer_writes hash ws tb = fold_opt (\<lambda>(t, rows). buffer_chunk hash t rows) ws tb"

lemma table_ok_new: "table_ok ty hash [] table_buffer_new"
  by (simp add: table_ok_def table_buffer_new_def buffer_at_def hm_get_def rows_at_def buffered_default)

lemma buffer_writes_ok:
  assumes "table_ok ty hash ws tb" and "writes_ok ty hash (ws @ us)" and "buffer_writes hash us tb = Some tb'"
  shows "tb_snapshotting_chunks tb' = tb_snapshotting_chunks tb \<and> table_ok ty hash (ws @ us) tb'"
  using assms
proof (induction us arbitrary: ws tb)
  case Nil
  then show ?case by (simp add: buffer_writes_def)
next
  case (Cons u us)
  obtain t rows where u: "u = (t, rows)" by (cases u)
  obtain tb1 where run: "buffer_chunk hash t rows tb = Some tb1" "buffer_writes hash us tb1 = Some tb'"
    using Cons.prems(3) u by (auto simp: buffer_writes_def split: option.splits)
  have "writes_ok ty hash (ws @ [(t, rows)])" using writes_ok_prefix [of ty hash "ws @ [u]" us] Cons.prems(2) u by simp
  note tb1 = buffer_chunk_ok [OF Cons.prems(1) this run(1)]
  show ?case using Cons.IH [OF tb1(2)] tb1(1) Cons.prems(2) run(2) u by simp
qed

lemma buffer_writes_return:
  assumes "table_ok ty hash ws tb" and "\<forall>t. texts_ok (rows_at ws t) (buffer_at tb t)"
    and "writes_ok ty hash (ws @ us)" and "text_fits (ws @ us)"
  shows "\<exists>tb'. buffer_writes hash us tb = Some tb'"
  using assms
proof (induction us arbitrary: ws tb)
  case Nil
  then show ?case by (simp add: buffer_writes_def)
next
  case (Cons u us)
  obtain t rows where u: "u = (t, rows)" by (cases u)
  have ok: "writes_ok ty hash (ws @ [(t, rows)])" "text_fits (ws @ [(t, rows)])"
    using writes_ok_prefix [of ty hash "ws @ [u]" us] text_fits_prefix [of "ws @ [u]" us] Cons.prems(3,4) u by simp_all
  obtain tb1 where tb1: "buffer_chunk hash t rows tb = Some tb1" "\<forall>t'. texts_ok (rows_at (ws @ [(t, rows)]) t') (buffer_at tb1 t')"
    using buffer_chunk_returns [OF Cons.prems(1,2) ok] by blast
  show ?case
    using Cons.IH [OF buffer_chunk_ok(2) [OF Cons.prems(1) ok(1) tb1(1)] tb1(2)] Cons.prems(3,4) tb1(1) u
    by (simp add: buffer_writes_def)
qed

lemma texts_ok_new: "texts_ok (rows_at [] t) (buffer_at table_buffer_new t)"
  by (simp add: texts_ok_def buffer_at_def table_buffer_new_def hm_get_def chunk_time_buffer_default_def)

section \<open>Claims\<close>

text \<open>Claim C38.  Take any writes of rows that the validator passes on, with identities that the hash keeps apart.
  If the buffer takes them without a panic, a chunk time holds exactly one live row for every point that was
  written to it, with the union of the fields written to the point, the later write winning, also where the
  text limit has split the chunk.  And it takes them without a panic when the text stays within the limit: in
  each column of a chunk time, either all the text appended, with what overwrites carry over, is at most
  \<open>i32::MAX\<close> bytes, or no overwrite carries text over and each single write brings in at most that much.\<close>

theorem overwrites_collapse_to_one_row:
  assumes "writes_ok ty hash ws"
  shows "(text_fits ws \<longrightarrow> (\<exists>tb. buffer_writes hash ws table_buffer_new = Some tb)) \<and>
    (\<forall>tb. buffer_writes hash ws table_buffer_new = Some tb \<longrightarrow>
      (\<forall>t. distinct (live_rows_of (cb_chunks (buffer_at tb t))) \<and>
         set (live_rows_of (cb_chunks (buffer_at tb t))) = latest (rows_at ws t) ` points_of (rows_at ws t)))"
proof (intro conjI impI allI)
  assume "text_fits ws"
  then show "\<exists>tb. buffer_writes hash ws table_buffer_new = Some tb"
    using buffer_writes_return [OF table_ok_new] texts_ok_new assms by simp
next
  fix tb t
  assume "buffer_writes hash ws table_buffer_new = Some tb"
  then have "table_ok ty hash ws tb" using buffer_writes_ok [OF table_ok_new [of ty hash], of ws tb] assms by simp
  then have buf: "buffered ty hash (rows_at ws t) (buffer_at tb t)" by (simp add: table_ok_def)
  have inj: "inj_on (hash \<circ> key_bytes) (points_of (rows_at ws t))" using assms by (simp add: writes_ok_def)
  show "distinct (live_rows_of (cb_chunks (buffer_at tb t)))"
    "set (live_rows_of (cb_chunks (buffer_at tb t))) = latest (rows_at ws t) ` points_of (rows_at ws t)"
    using buffered_rows [OF buf _ inj] rows_at_ok [OF assms] by blast+
qed

definition ex_hash :: "nat list \<Rightarrow> nat" where
  "ex_hash bs = foldl (\<lambda>h b. 257 * h + b + 1) 0 bs"

definition ex_types :: column_types where
  "ex_types = map_of [(0, TimestampColumn), (1, TagColumn), (2, IntegerColumn), (3, StringColumn)]"

definition ex_row :: "string \<Rightarrow> int \<Rightarrow> field list \<Rightarrow> row" where
  "ex_row tag t fs =
     \<lparr>row_time = t, row_fields = [\<lparr>fld_id = 0, fld_value = Timestamp t\<rparr>, \<lparr>fld_id = 1, fld_value = Tag tag\<rparr>] @ fs\<rparr>"

definition ex_writes :: "(int \<times> row list) list" where
  "ex_writes =
     [(0, [ex_row ''a'' 5 [\<lparr>fld_id = 2, fld_value = Integer 1\<rparr>, \<lparr>fld_id = 3, fld_value = String ''x''\<rparr>],
           ex_row ''b'' 5 [\<lparr>fld_id = 2, fld_value = Integer 2\<rparr>]]),
      (0, [ex_row ''a'' 5 [\<lparr>fld_id = 2, fld_value = Integer 3\<rparr>]])]"

lemma be_bytes_numeral: "be_bytes (numeral k) n = be_bytes (pred_numeral k) (n div 256) @ [n mod 256]"
  unfolding numeral_eq_Suc [of k] by (rule be_bytes.simps)

lemma ex_writes_ok: "writes_ok ex_types ex_hash ex_writes"
proof -
  have types: "ex_types col = Some TimestampColumn \<longleftrightarrow> col = 0" "ex_types 0 = Some TimestampColumn"
    "ex_types (Suc 0) = Some TagColumn" "ex_types 2 = Some IntegerColumn" "ex_types 3 = Some StringColumn" for col
    by (simp_all add: ex_types_def)
  have "row_ok ex_types r" if "w \<in> set ex_writes" "r \<in> set (snd w)" for w r
    using that by (auto simp: ex_writes_def ex_row_def row_ok_def types fields_of_def)
  moreover have "inj_on (ex_hash \<circ> key_bytes) (points_of (rows_at ex_writes t))" for t
  proof (cases "t = 0")
    case True
    have "points_of (rows_at ex_writes 0) = {([(1, ''a'')], 5), ([(1, ''b'')], 5)}" by code_simp
    moreover have "ex_hash (key_bytes ([(1, ''a'')], 5)) \<noteq> ex_hash (key_bytes ([(1, ''b'')], 5))"
      by (simp add: ex_hash_def key_bytes_def be_bytes_numeral)
    ultimately show ?thesis using True by (simp add: inj_on_def)
  qed (simp add: rows_at_def ex_writes_def points_of_def)
  ultimately show ?thesis by (simp add: writes_ok_def)
qed

lemma text_appended_other: "(\<And>r. r \<in> set rows \<Longrightarrow> fields_of r col = None) \<Longrightarrow> text_appended rows col = 0"
proof (induction rows rule: rev_induct)
  case (snoc r rows)
  have "latest (rows @ [r]) (point_of r) col = None"
    using latest_from [of "rows @ [r]" "point_of r" col] snoc.prems by (cases "latest (rows @ [r]) (point_of r) col") auto
  then show ?case using snoc by (simp add: text_appended_snoc bytes_of_def)
qed (simp add: text_appended_def)

lemma ex_text_fits: "text_fits ex_writes"
proof -
  have "text_appended (rows_at ex_writes t) col \<le> ARROW_VAR_COL_MAX_BYTES" for t col
  proof (cases "t = 0 \<and> col \<in> {0, 1, 2, 3}")
    case True
    then have "rows_at ex_writes t = [ex_row ''a'' 5 [\<lparr>fld_id = 2, fld_value = Integer 1\<rparr>, \<lparr>fld_id = 3, fld_value = String ''x''\<rparr>],
        ex_row ''b'' 5 [\<lparr>fld_id = 2, fld_value = Integer 2\<rparr>], ex_row ''a'' 5 [\<lparr>fld_id = 2, fld_value = Integer 3\<rparr>]]"
      by (simp add: rows_at_def ex_writes_def)
    then show ?thesis using True
      by (auto simp: text_appended_def ARROW_VAR_COL_MAX_BYTES_def latest_def ex_row_def point_of_def row_tags_def
          List.map_filter_simps fields_of_def bytes_of_def map_add_def)
  next
    case False
    then have "text_appended (rows_at ex_writes t) col = 0"
      by (intro text_appended_other) (auto simp: rows_at_def ex_writes_def ex_row_def fields_of_def split: if_splits)
    then show ?thesis by simp
  qed
  then show ?thesis by (simp add: text_fits_def)
qed

theorem overwrites_collapse_to_one_row_witness:
  "\<exists>tb. buffer_writes ex_hash ex_writes table_buffer_new = Some tb \<and>
     length (live_rows_of (cb_chunks (buffer_at tb 0))) = 2 \<and>
     [0 \<mapsto> Timestamp 5, 1 \<mapsto> Tag ''a'', 2 \<mapsto> Integer 3, 3 \<mapsto> String ''x''] \<in> set (live_rows_of (cb_chunks (buffer_at tb 0)))"
proof -
  obtain tb where tb: "buffer_writes ex_hash ex_writes table_buffer_new = Some tb"
    "distinct (live_rows_of (cb_chunks (buffer_at tb 0)))"
    "set (live_rows_of (cb_chunks (buffer_at tb 0))) = latest (rows_at ex_writes 0) ` points_of (rows_at ex_writes 0)"
    using overwrites_collapse_to_one_row [OF ex_writes_ok] ex_text_fits by blast
  have pts: "points_of (rows_at ex_writes 0) = {([(1, ''a'')], 5), ([(1, ''b'')], 5)}" by code_simp
  have "row_ok ex_types r" if "r \<in> set (rows_at ex_writes 0)" for r using rows_at_ok [OF ex_writes_ok that] .
  then have "card (latest (rows_at ex_writes 0) ` points_of (rows_at ex_writes 0)) = 2"
    using card_image [OF latest_inj [of "rows_at ex_writes 0" ex_types]] by (simp add: pts)
  then have "length (live_rows_of (cb_chunks (buffer_at tb 0))) = 2"
    using distinct_card [OF tb(2)] tb(3) by simp
  moreover have "latest (rows_at ex_writes 0) ([(1, ''a'')], 5) =
      [0 \<mapsto> Timestamp 5, 1 \<mapsto> Tag ''a'', 2 \<mapsto> Integer 3, 3 \<mapsto> String ''x'']"
    by (auto simp: latest_def rows_at_def ex_writes_def ex_row_def point_of_def row_tags_def List.map_filter_simps fields_of_def fun_eq_iff)
  ultimately show ?thesis using tb pts by (metis image_eqI insertI1)
qed

text \<open>
  The limit on a text column is tested against the bytes a write brings in, not against those that it
  carries over from replaced rows: here a chunk with a limit of three bytes ends up with four.
\<close>

lemmas small_run_defs =
  buffer_rows_def Let_def add_rows_def add_row_def row_key_for_def key_bytes_def point_of_def row_tags_def
  List.map_filter_simps ex_row_def be_bytes_numeral chunk_time_buffer_default_def mutable_table_chunk_new_def
  would_exceed_limit_with_def incoming_bytes_def u64_max_def hm_get_def hm_upd_def hm_insert_def append_row_def
  append_field_def new_null_prefilled_def builder_append_def carry_column_def carried_value_def builder_read_def
  store_copied_def append_copied_def mark_superseded_def builder_fits_def stored_values_def
  ARROW_VAR_COL_MAX_BYTES_def DICTIONARY_MAX_KEYS_def

lemma carried_text_is_not_limited:
  "(case buffer_rows 3 length [ex_row ''a'' 5 [\<lparr>fld_id = 3, fld_value = String ''xx''\<rparr>]] chunk_time_buffer_default of
      None \<Rightarrow> None
    | Some cb \<Rightarrow>
        map_option (\<lambda>cb'. map (\<lambda>c. hm_get 0 (mc_string_bytes c) 3) (cb_chunks cb'))
          (buffer_rows 3 length [ex_row ''a'' 5 []] cb)) = Some [4]"
  by (simp add: small_run_defs)

text \<open>
  With the real limit the builder panics: a text of more than half the limit is written to a point, and the next
  write to the point, which does not even name the column, carries it over.
\<close>

lemma carried_text_panics:
  assumes "length v \<le> ARROW_VAR_COL_MAX_BYTES" and "2 * length v > ARROW_VAR_COL_MAX_BYTES"
  shows "buffer_writes length
    [(0, [ex_row ''a'' 5 [\<lparr>fld_id = 3, fld_value = String v\<rparr>]]), (0, [ex_row ''a'' 5 []])] table_buffer_new = None"
  using assms by (simp add: buffer_writes_def buffer_chunk_def table_buffer_new_def small_run_defs)

end
