(* ===== verification/Table_Batches.thy ===== *)
theory Table_Batches
  imports Table_Buffer
begin

text \<open>
  What queries and snapshots read from a table's buffer (\<open>write_buffer/table_buffer.rs\<close>): the copy of a
  chunk's live rows run by run, the batches of a table that may hold rows of a time range, and the
  snapshot that freezes the chunks before a time.  The Arrow library is a record of the functions used,
  with their laws in a locale; an array is a typed list of values with nulls.  The columns of a batch are
  addressed by the identifiers of the columns, which the catalog keeps in bijection with their names.
\<close>

section \<open>The Arrow library\<close>





section \<open>Live rows\<close>











definition offsets_of :: "string list \<Rightarrow> int list" where
  "offsets_of xs = map (\<lambda>i. int (length (concat (take i xs)))) [0..<Suc (length xs)]"











section \<open>The batches of a table\<close>

type_synonym time_range = "time_ns \<times> time_ns"

record buffered_batches =
  bb_snapshotting :: "record_batch list"
  bb_snapshotting_min_max :: "time_range option"
  bb_live :: "record_batch list"
  bb_live_min_max :: "time_range option"


definition range_union :: "time_range \<Rightarrow> time_range \<Rightarrow> time_range" where
  "range_union a b = (min (fst a) (fst b), max (snd a) (snd b))"




definition bb_timestamp_min_max :: "buffered_batches \<Rightarrow> time_range option" where
  "bb_timestamp_min_max b =
     (case (bb_snapshotting_min_max b, bb_live_min_max b) of
        (Some s, Some l) \<Rightarrow> Some (range_union s l) | (s, None) \<Rightarrow> s | (None, l) \<Rightarrow> l)"






section \<open>Snapshots\<close>




definition swap_remove :: "nat \<Rightarrow> 'a list \<Rightarrow> 'a list" where
  "swap_remove i xs = (if i = length xs - 1 then butlast xs else (butlast xs)[i := last xs])"

definition remove_snapshotting_chunk :: "int \<Rightarrow> nat \<Rightarrow> table_buffer \<Rightarrow> table_buffer" where
  "remove_snapshotting_chunk chunk_time chunk_ordinal tb =
     (let i = length (takeWhile (\<lambda>sc. \<not> (sc_chunk_time sc = chunk_time \<and> sc_chunk_ordinal sc = chunk_ordinal))
                        (tb_snapshotting_chunks tb))
      in if i < length (tb_snapshotting_chunks tb)
         then tb\<lparr>tb_snapshotting_chunks := swap_remove i (tb_snapshotting_chunks tb)\<rparr> else tb)"

definition clear_snapshots :: "table_buffer \<Rightarrow> table_buffer" where
  "clear_snapshots tb = tb\<lparr>tb_snapshotting_chunks := []\<rparr>"

section \<open>Copying run by run\<close>

lemma length_offsets [simp]: "length (offsets_of xs) = Suc (length xs)"
  by (simp add: offsets_of_def)






















section \<open>Batches\<close>







section \<open>The rows of the batches\<close>


















section \<open>Frozen chunks\<close>
























section \<open>Claims\<close>












end
