(* ===== verification/Spec2Isabelle.thy ===== *)
theory Spec2Isabelle
  imports Publisher Compactor Table_Batches
begin

text \<open>
  \<^bold>\<open>VarveDB: the storage and clustering layers.\<close>

  VarveDB is InfluxDB 3 Core with a clustering layer.  A node buffers writes in a write-ahead log
  on an object store, turns the buffer into Parquet files, and records each batch of files in a
  snapshot manifest.  Nodes of a cluster share a catalog and one append-only log of file additions
  and removals, the file index, from which every node learns which Parquet files the others have.
  A compactor merges small files of other nodes and asks their owner to record the exchange.

  This development models that path from an accepted write to the list of files a query reads, and
  back through a restart.  Every definition is executable, translated from the file its theory
  names, and carries the source's name where Isabelle allows it.

  \<^bold>\<open>Conventions.\<close>  A \<open>HashMap\<close> or \<open>IndexMap\<close> is an association list with the entry
  operations of the theory \<open>Prelude\<close>.  Sequence numbers and other unsigned integers are \<open>nat\<close>, with the
  bound written out where a comparison with it, a cast or a checked addition matters (\<open>u64_max\<close>, \<open>i64_max\<close>,
  \<open>in_i64\<close>); checksums and bytes are words.  A panic is \<open>None\<close> or the constructor \<open>Panics\<close>, an error is
  \<open>Inl\<close>.  An asynchronous operation on the object store is a function from the store's state to a
  result and a new state, a record \<open>object_store\<close> of such functions is the store, and what the code
  relies on is the locale \<open>object_store_reads\<close> or its extension \<open>object_store_laws\<close>: a get returns what
  is stored, a failed put may or may not have stored, a create never replaces.  Both are interpreted
  by the store in memory (\<open>mem_store\<close>) and by the verifying store over any lawful one.

  \<^bold>\<open>Theories, in the order of the data.\<close>
  \<^item> \<open>Prelude\<close>, \<open>Snapshot_Types\<close>, \<open>Path_Names\<close>: shared vocabulary; manifests and file records
    (\<open>influxdb3_write/src/lib.rs\<close>, \<open>influxdb3_id\<close>); object names (\<open>influxdb3_write/src/paths.rs\<close>).  Names
    sort as the numbers in them do and parse back.
  \<^item> \<open>Object_Store\<close>: retries and the create that verifies itself by a nonce (\<open>object_store_utils\<close>).  A
    create that reports success has stored the caller's object.
  \<^item> \<open>Wal_Types\<close>, \<open>Wal_Serialize\<close>, \<open>Snapshot_Tracker\<close>, \<open>Wal_Buffer\<close>, \<open>Wal_Object_Store\<close>: the write-ahead
    log (\<open>influxdb3_wal\<close>).  Merging keeps rows and their time bounds; a file's frame round-trips and its
    damage is recognised; a snapshot covers a prefix of the tracked files and their number stays bounded;
    an acknowledged write is in a verified file, every waiting client is answered once, replay hands
    every readable file that remains to its consumer in order and passes over corrupt ones only where it
    is told to, and clean-up deletes covered files only.
  \<^item> \<open>Table_Buffer\<close>, \<open>Table_Batches\<close>: the rows of a table in memory (\<open>write_buffer/table_buffer.rs\<close>).  The
    abstract state is the list of rows written; the live rows are one for every point, with the union of its
    fields, queries read exactly them, and freezing chunks changes nothing a query with the same columns
    sees.  A column builder panics when its text or its dictionary passes the 32-bit limits; the bytes a write
    may bring in without that are stated, and that carried-over text can cause it.  The Arrow functions used
    on finished columns are the locale \<open>arrow_laws\<close>.
  \<^item> \<open>Persisted_Files\<close>, \<open>Checkpoint\<close>, \<open>Persister\<close>, \<open>Startup\<close>: the files a node lists, its monthly
    checkpoints, the reading and writing of manifests, and what a starting node loads
    (\<open>influxdb3_write/src/write_buffer\<close>, \<open>persister.rs\<close>).  A ghost history of manifests (\<open>left_by\<close>,
    \<open>history_sane\<close>, \<open>lists_history\<close>) says which files are live; the list at start-up, the checkpoints and the
    restart are refinements of it, and so is the cached checkpoint over the writes of one process
    (\<open>persister_run\<close>).
  \<^item> \<open>File_Index\<close>, \<open>File_Index_Log\<close>, \<open>Publisher\<close>: the shared index, its log and the pass that publishes a
    node's manifests (\<open>influxdb3_cluster/src/file_index.rs\<close> and below).  The abstract state is the
    history of log entries; appends extend it, rollups stand for it, readers reach it, and after a pass
    the index lists for a node what its manifests left.
  \<^item> \<open>Catalog_Repository\<close>, \<open>Catalog_Nodes\<close>, \<open>Cluster_Config\<close>: the catalog's repositories and its records of
    the members (\<open>influxdb3_catalog\<close>), the configuration of a node and the placement of triggers
    (\<open>influxdb3_cluster/src/config.rs\<close>, \<open>init.rs\<close>, \<open>pe_placement.rs\<close>).  Names and identifiers stay in
    bijection, the feature level of a catalog created in this format never outruns a member, accepted configurations are coherent, and a
    pinned trigger runs exactly where it names.
  \<^item> \<open>Compaction_Record\<close>: the owner's record of a compaction (\<open>rpc/notice.rs\<close>, \<open>rpc/server.rs\<close>).  An
    acknowledged record is durable and exchanges exactly the inputs for the merged file.
  \<^item> \<open>Merge_Selection\<close>, \<open>Input_Deleter\<close>, \<open>Compactor\<close>: the choice of merges, the delayed deletion of merged
    inputs, and the pass that ties them together (\<open>influxdb3_cluster/src/compactor.rs\<close>, \<open>rpc/client.rs\<close>).  Groups
    are cold, bounded and disjoint; a merge that counts as done is durable at its owner; a pass is a chain of
    merge attempts (\<open>merge_run\<close>) and retires exactly the inputs of those acknowledged; inputs outlive the
    grace period and are reclaimed after it.

  \<^bold>\<open>Conditions.\<close>  Several guarantees hold only for states the code does not always reach, and the claims say
  so.  A restart needs checkpoints that are builds of their months' manifests, and warming the cache at
  start or building over manifests without added files can write others.  An append or a reader of the
  shared log must not be behind a rollup pruned to the head, and a partly failed prune must not have left
  a hole.  The publisher does not see a manifest that reaches the store below its watermark, nor more
  than 256 at once.  A compaction record whose manifest failed to be written leaves an owner whose list is
  ahead of its manifests.  Lemmas beside the claims show what happens without most of these conditions
  (\<open>append_behind_rollup_is_lost\<close>, \<open>partial_prune_hides_removal\<close>, \<open>late_manifest_is_not_published\<close>,
  \<open>failed_record_is_acknowledged_on_retry\<close>, \<open>carried_text_panics\<close>).

  \<^bold>\<open>Bounds and termination.\<close>  Loops with a bound in the source keep it: sixteen append attempts, 101
  attempts to put a WAL file with one nonce, three read-backs of a nonce, pages of a thousand
  manifests, 256 manifests in a publisher pass, two checkpoints kept for a month, eleven digits in a
  WAL name.  The listing of WAL files, which repeats until nothing new appears, is a partial function
  and is proved to end on a store that answers.  No other definition needs fuel.

  \<^bold>\<open>Outside the model.\<close>  The object store's backends, JSON and bitcode encoding, CRC-32, the calendar and
  the hash function are arguments with named laws.  Tasks, channels and timers are not modelled as
  such: a spawned task is a value in the result of the operation that spawns it, and the locked phases
  of an operation are separate definitions where something may happen between them.  Times are
  integers; a wall clock that jumps is not excluded.

  \<^bold>\<open>Not modelled.\<close>  The query engine and its libraries (\<open>core\<close>: planning, execution, InfluxQL, line
  protocol, Arrow and Parquet), because a statement about them is about DataFusion and Arrow; the HTTP
  and Flight servers, the command line, authentication, telemetry and system tables, which are input and
  output around the modelled state; the processing engine and its Python bridge, which run foreign
  code; the caches of last and distinct values and of Parquet bytes, which are derived data; the catalog's
  older formats and its schema of tables and columns; test helpers.  The list of components in the
  manifest names each with its reason.
\<close>

end
